(* ===== verification/Surrogate_Prelude.thy ===== *)
theory Surrogate_Prelude
  imports Main "HOL-Library.Word"
begin

text \<open>
  Shared vocabulary of the development: the fixed-width integers of the daemon, the effect
  of a C++ call that may throw, integer division and duration conversions as the C++
  standard library performs them, and the fold over an event list that every periodic
  component is run with.
\<close>

unbundle bit_operations_syntax

named_theorems act_simps \<open>unfolding of the exception-and-state combinators\<close>
named_theorems chrono_simps \<open>unfolding of duration conversions\<close>

section \<open>Machine integers\<close>

text \<open>
  \<open>int\<close> and \<open>int32_t\<close> are 32-bit, \<open>int64_t\<close> 64-bit two's complement (read with \<open>sint\<close>);
  \<open>uint32_t\<close> is read with \<open>unat\<close>/\<open>uint\<close>.
\<close>

type_synonym i32 = "32 word"
type_synonym u32 = "32 word"
type_synonym i64 = "64 word"
type_synonym u8 = "8 word"

text \<open>\<open>static_cast<int>\<close> of an \<open>int64_t\<close> keeps the low 32 bits (C++20, [conv.integral]).\<close>

definition int_of_int64 :: "i64 \<Rightarrow> i32" where
  "int_of_int64 v = ucast v"

lemma sint_word_of_int_32:
  "- 2147483648 \<le> k \<Longrightarrow> k < 2147483648 \<Longrightarrow> sint (word_of_int k :: i32) = k"
  by (simp add: int_word_sint)

section \<open>Calls that may throw\<close>

text \<open>
  A call on a shared object returns or throws; in both cases the object keeps the changes
  made so far, so the state is returned next to the outcome.
\<close>

datatype cxx_exn = System_error | Out_of_range | Runtime_error string

type_synonym ('s, 'a) act = "'s \<Rightarrow> (cxx_exn + 'a) \<times> 's"

definition ret :: "'a \<Rightarrow> ('s, 'a) act" where
  "ret a = (\<lambda>s. (Inr a, s))"

definition andThen :: "('s, 'a) act \<Rightarrow> ('a \<Rightarrow> ('s, 'b) act) \<Rightarrow> ('s, 'b) act" where
  "andThen m f = (\<lambda>s. case m s of (Inl e, t) \<Rightarrow> (Inl e, t) | (Inr a, t) \<Rightarrow> f a t)"

definition modify :: "('s \<Rightarrow> 's) \<Rightarrow> ('s, unit) act" where
  "modify f = (\<lambda>s. (Inr (), f s))"

lemma ret_apply [simp]: "ret a s = (Inr a, s)"
  by (simp add: ret_def)

lemma modify_apply [simp]: "modify f s = (Inr (), f s)"
  by (simp add: modify_def)

lemma andThen_ret [simp]: "andThen (ret a) f = f a"
  by (simp add: andThen_def ret_def)

lemma andThen_modify [simp]: "andThen (modify g) f s = f () (g s)"
  by (simp add: andThen_def)

lemma andThen_step: "m s = (Inr a, t) \<Longrightarrow> andThen m f s = f a t"
  by (simp add: andThen_def)

lemma andThen_ret_unit:
  fixes m :: "('s, unit) act"
  shows "andThen m (\<lambda>_. Pair (Inr ())) = m" "andThen m ret = m"
  by (auto simp: andThen_def ret_def fun_eq_iff split: prod.splits sum.splits)

lemma andThen_Inr [act_simps]:
  "andThen m f s = (Inr b, t) \<longleftrightarrow> (\<exists>a u. m s = (Inr a, u) \<and> f a u = (Inr b, t))"
  by (auto simp: andThen_def split: prod.splits sum.splits)

lemma andThen_Inl [act_simps]:
  "andThen m f s = (Inl e, t) \<longleftrightarrow>
     m s = (Inl e, t) \<or> (\<exists>a u. m s = (Inr a, u) \<and> f a u = (Inl e, t))"
  by (auto simp: andThen_def split: prod.splits sum.splits)

lemma andThen_cases [consumes 1, case_names throw step]:
  assumes "andThen m f s = (r, t)"
  obtains e where "m s = (Inl e, t)" "r = Inl e"
    | a u where "m s = (Inr a, u)" "f a u = (r, t)"
  using assms by (auto simp: andThen_def split: prod.splits sum.splits)

section \<open>Division and durations\<close>

text \<open>
  C++ integer division truncates towards zero. A \<open>std::chrono\<close> duration is an integer
  count of its unit: instants and clock differences are in nanoseconds, configured periods
  in milliseconds or microseconds.
\<close>

definition cdiv :: "int \<Rightarrow> int \<Rightarrow> int" where
  "cdiv a b = sgn a * sgn b * (\<bar>a\<bar> div \<bar>b\<bar>)"

definition ns_of_us :: "int \<Rightarrow> int" where
  "ns_of_us us = us * 1000"

definition ns_of_ms :: "int \<Rightarrow> int" where
  "ns_of_ms ms = ms * 1000000"

text \<open>\<open>duration_cast\<close> to a coarser unit truncates; \<open>std::chrono::ceil\<close> adds one when it cut off.\<close>

definition cast_ms :: "int \<Rightarrow> int" where
  "cast_ms ns = cdiv ns 1000000"

definition cast_us :: "int \<Rightarrow> int" where
  "cast_us ns = cdiv ns 1000"

definition ceil_s :: "int \<Rightarrow> int" where
  "ceil_s ns = (let t = cdiv ns 1000000000 in if t * 1000000000 < ns then t + 1 else t)"

lemma cdiv_nonneg: "0 \<le> a \<Longrightarrow> 0 < b \<Longrightarrow> cdiv a b = a div b"
  by (cases "a = 0") (auto simp: cdiv_def)

lemma cdiv_nonpos: "a \<le> 0 \<Longrightarrow> 0 < b \<Longrightarrow> cdiv a b = - ((- a) div b)"
  by (cases "a = 0") (auto simp: cdiv_def)

lemma cdiv_zero [simp]: "cdiv 0 b = 0"
  by (simp add: cdiv_def)

lemma cast_ms_ns_of_ms [simp]: "cast_ms (ns_of_ms ms) = ms"
  by (cases "0 \<le> ms")
    (auto simp: cast_ms_def ns_of_ms_def cdiv_nonneg cdiv_nonpos mult_nonpos_nonneg
      simp flip: mult_minus_left)

lemma cast_ms_bounds:
  assumes "0 \<le> ns"
  shows "ns_of_ms (cast_ms ns) \<le> ns" and "ns < ns_of_ms (cast_ms ns + 1)"
  using assms by (auto simp: cast_ms_def ns_of_ms_def cdiv_nonneg)

lemma cast_ms_nonneg: "0 \<le> ns \<Longrightarrow> 0 \<le> cast_ms ns"
  by (simp add: cast_ms_def cdiv_nonneg)

lemma cast_ms_mono: "0 \<le> a \<Longrightarrow> a \<le> b \<Longrightarrow> cast_ms a \<le> cast_ms b"
  by (simp add: cast_ms_def cdiv_nonneg zdiv_mono1)

lemma ceil_s_nonneg: "0 \<le> ns \<Longrightarrow> 0 \<le> ceil_s ns"
  by (simp add: ceil_s_def cdiv_nonneg Let_def)

text \<open>The two inequalities that characterise a ceiling: the least whole second not below.\<close>

lemma ceil_s_bounds:
  assumes "0 \<le> ns"
  shows "ns \<le> ceil_s ns * 1000000000" and "ceil_s ns * 1000000000 < ns + 1000000000"
  using assms by (auto simp: ceil_s_def cdiv_nonneg Let_def)

lemma ceil_s_pos_iff: "0 \<le> ns \<Longrightarrow> 0 < ceil_s ns \<longleftrightarrow> 0 < ns"
  using ceil_s_bounds[of ns] by linarith

lemma ceil_s_le:
  assumes "0 \<le> ns" "ns \<le> k * 1000000000"
  shows "ceil_s ns \<le> k"
  using ceil_s_bounds(2)[OF assms(1)] assms(2) by linarith

section \<open>Machines driven by a list of events\<close>

text \<open>
  Every long-lived object of the daemon is a start state and a total step per event (a
  tick at an instant, a request, a recorded sample). What one step keeps, a whole run keeps.
\<close>

locale event_machine =
  fixes init :: "'s \<Rightarrow> bool" and step :: "'e \<Rightarrow> 's \<Rightarrow> 's" and inv :: "'s \<Rightarrow> bool"
  assumes inv_init: "init s \<Longrightarrow> inv s"
    and inv_step: "inv s \<Longrightarrow> inv (step e s)"
begin

lemma inv_from: "inv s \<Longrightarrow> inv (fold step es s)"
  by (induction es arbitrary: s) (auto intro: inv_step)

lemma inv_run: "init s \<Longrightarrow> inv (fold step es s)"
  by (rule inv_from) (rule inv_init)

end

end
