(* ===== verification/Cxx_Text.thy ===== *)
theory Cxx_Text
  imports Surrogate_Prelude "HOL-Library.Sublist"
begin

text \<open>
  The part of the C++ text library the daemon uses: \<open>std::format("{}", i)\<close> on integers,
  \<open>std::from_chars\<close> on \<open>int\<close>, and \<open>find\<close>, \<open>substr\<close> and \<open>starts_with\<close> of \<open>std::string_view\<close>.
\<close>

section \<open>Decimal notation\<close>

definition digit_char :: "nat \<Rightarrow> char" where
  "digit_char d = char_of (48 + d)"

lemma digit_char_code [simp]:
  "digit_char 0 = CHR ''0''" "digit_char 1 = CHR ''1''" "digit_char (Suc 0) = CHR ''1''"
  "digit_char 2 = CHR ''2''" "digit_char 3 = CHR ''3''" "digit_char 4 = CHR ''4''"
  "digit_char 5 = CHR ''5''" "digit_char 6 = CHR ''6''" "digit_char 7 = CHR ''7''"
  "digit_char 8 = CHR ''8''" "digit_char 9 = CHR ''9''"
  by code_simp+

definition is_digit :: "char \<Rightarrow> bool" where
  "is_digit c \<longleftrightarrow> 48 \<le> (of_char c :: nat) \<and> (of_char c :: nat) < 58"

definition digit_value :: "char \<Rightarrow> nat" where
  "digit_value c = of_char c - 48"

fun decimal :: "nat \<Rightarrow> string" where
  "decimal n = (if n < 10 then [digit_char n] else decimal (n div 10) @ [digit_char (n mod 10)])"

declare decimal.simps [simp del]

definition int_string :: "int \<Rightarrow> string" where
  "int_string k = (if k < 0 then CHR ''-'' # decimal (nat (- k)) else decimal (nat k))"

definition digits_value :: "string \<Rightarrow> nat" where
  "digits_value s = foldl (\<lambda>a c. 10 * a + digit_value c) 0 s"

lemma digit_char_simps [simp]:
  assumes "d < 10"
  shows "is_digit (digit_char d)" "digit_value (digit_char d) = d"
  using assms by (simp_all add: is_digit_def digit_value_def digit_char_def)

lemma digits_value_snoc [simp]: "digits_value (s @ [c]) = 10 * digits_value s + digit_value c"
  by (simp add: digits_value_def)

lemma digits_value_Nil [simp]: "digits_value [] = 0"
  by (simp add: digits_value_def)

lemma digits_value_single [simp]: "digits_value [c] = digit_value c"
  by (simp add: digits_value_def)

lemma decimal_value [simp]: "digits_value (decimal n) = n"
proof (induction n rule: decimal.induct)
  case (1 n)
  show ?case
  proof (cases "n < 10")
    case True
    then show ?thesis by (subst decimal.simps) simp
  next
    case False
    with 1 have IH: "digits_value (decimal (n div 10)) = n div 10" by simp
    have "n mod 10 < 10" by simp
    with False IH show ?thesis by (subst decimal.simps) simp
  qed
qed

lemma decimal_digits: "list_all is_digit (decimal n)"
proof (induction n rule: decimal.induct)
  case (1 n)
  have "n mod 10 < 10" by simp
  with 1 show ?case by (subst decimal.simps) simp
qed

lemma decimal_not_Nil [simp]: "decimal n \<noteq> []"
  by (subst decimal.simps) simp

lemma decimal_inject [simp]: "decimal m = decimal n \<longleftrightarrow> m = n"
  by (metis decimal_value)

lemma decimal_hd_digit: "is_digit (hd (decimal n))"
  using decimal_digits [of n] by (cases "decimal n") auto

lemma minus_not_digit [simp]: "\<not> is_digit CHR ''-''"
  by (simp add: is_digit_def)

lemma int_string_inject [simp]: "int_string a = int_string b \<longleftrightarrow> a = b"
proof
  assume eq: "int_string a = int_string b"
  have nd: "decimal n \<noteq> CHR ''-'' # s" for n s
    using decimal_hd_digit [of n] by (metis list.sel(1) minus_not_digit)
  have dn: "CHR ''-'' # s \<noteq> decimal n" for n s
    using nd [of n s] by metis
  show "a = b"
    using eq by (auto simp: int_string_def nd dn split: if_splits)
qed simp

lemma int_string_chars: "set (int_string k) \<subseteq> {c. is_digit c} \<union> {CHR ''-''}"
  using decimal_digits by (auto simp: int_string_def list_all_iff)

section \<open>Searching\<close>

text \<open>\<open>find\<close>: the first position at or after the start at which the needle occurs.\<close>

fun find_sub :: "string \<Rightarrow> string \<Rightarrow> nat option" where
  "find_sub needle hay =
    (if prefix needle hay then Some 0
     else case hay of [] \<Rightarrow> None | _ # rest \<Rightarrow> map_option Suc (find_sub needle rest))"

declare find_sub.simps [simp del]

definition find_from :: "string \<Rightarrow> string \<Rightarrow> nat \<Rightarrow> nat option" where
  "find_from needle hay start = map_option (\<lambda>i. start + i) (find_sub needle (drop start hay))"

lemma find_sub_Some:
  "find_sub needle hay = Some i \<longleftrightarrow>
     i \<le> length hay \<and> prefix needle (drop i hay) \<and> (\<forall>j < i. \<not> prefix needle (drop j hay))"
proof (induction hay arbitrary: i)
  case Nil
  then show ?case by (subst find_sub.simps) auto
next
  case (Cons a hay)
  show ?case
  proof (cases "prefix needle (a # hay)")
    case True
    then show ?thesis by (subst find_sub.simps) (cases i, auto)
  next
    case False
    then have "find_sub needle (a # hay) = Some i \<longleftrightarrow> (\<exists>k. i = Suc k \<and> find_sub needle hay = Some k)"
      by (subst find_sub.simps) auto
    also have "\<dots> \<longleftrightarrow> (\<exists>k. i = Suc k \<and> k \<le> length hay \<and> prefix needle (drop k hay) \<and>
        (\<forall>j < k. \<not> prefix needle (drop j hay)))"
      using Cons.IH by blast
    also have "\<dots> \<longleftrightarrow> i \<le> length (a # hay) \<and> prefix needle (drop i (a # hay)) \<and>
        (\<forall>j < i. \<not> prefix needle (drop j (a # hay)))"
      using False by (cases i) (auto simp: less_Suc_eq_0_disj)
    finally show ?thesis .
  qed
qed

lemma find_sub_None: "find_sub needle hay = None \<longleftrightarrow> \<not> sublist needle hay"
proof (induction hay)
  case Nil
  then show ?case by (subst find_sub.simps) auto
next
  case (Cons a hay)
  then show ?case by (subst find_sub.simps) (auto simp: sublist_Cons_right)
qed

text \<open>\<open>substr(pos, n)\<close> inside the string; \<open>pos\<close> is never past the end where the code calls it.\<close>

definition substr :: "string \<Rightarrow> nat \<Rightarrow> nat \<Rightarrow> string" where
  "substr s pos n = take n (drop pos s)"

section \<open>\<open>std::from_chars\<close> on a 32-bit int\<close>

text \<open>
  An optional minus sign, then the longest run of digits. No digits or a value out of range
  leave the target alone; text after the digits is ignored.
\<close>

definition from_chars_int :: "string \<Rightarrow> int \<Rightarrow> int" where
  "from_chars_int s old =
    (let neg = (s \<noteq> [] \<and> hd s = CHR ''-'');
         ds = takeWhile is_digit (if neg then tl s else s);
         v = (if neg then - int (digits_value ds) else int (digits_value ds))
     in if ds = [] \<or> v < - 2147483648 \<or> 2147483647 < v then old else v)"

lemma takeWhile_all: "list_all P xs \<Longrightarrow> takeWhile P (xs @ ys) = xs @ takeWhile P ys"
  by (induction xs) auto

lemma from_chars_int_string:
  assumes "- 2147483648 \<le> k" "k \<le> 2147483647" "rest = [] \<or> \<not> is_digit (hd rest)"
  shows "from_chars_int (int_string k @ rest) old = k"
proof -
  have rest: "takeWhile is_digit rest = []"
    using assms(3) by (cases rest) auto
  have "takeWhile is_digit (decimal n @ rest) = decimal n" for n
    using takeWhile_all [OF decimal_digits] rest by simp
  moreover have "hd (decimal n @ rest) \<noteq> CHR ''-''" for n
    using decimal_hd_digit [of n] by (metis decimal_not_Nil hd_append2 minus_not_digit)
  ultimately show ?thesis
    using assms(1,2) by (auto simp: from_chars_int_def int_string_def Let_def)
qed

end
