(* ===== verification/Web_Forms.thy ===== *)
theory Web_Forms
  imports Cxx_Text
begin

text \<open>
  The form parser of web_ui.cpp (the \<open>extract\<close> lambda and the same code in \<open>handle_match\<close>),
  the encoder a browser uses, and the proof that the parser undoes it.
\<close>

section \<open>Form fields\<close>

text \<open>The \<open>extract\<close> lambda of \<open>handle_set_control\<close>.\<close>

definition value_from :: "string \<Rightarrow> nat \<Rightarrow> string" where
  "value_from body start =
    (let end_pos = (case find_from ''&'' body start of None \<Rightarrow> length body | Some e \<Rightarrow> e)
     in substr body start (end_pos - start))"

definition extract_field :: "string \<Rightarrow> string \<Rightarrow> string" where
  "extract_field body key =
    (let needle = key @ ''='' in
     case find_sub needle body of
       None \<Rightarrow> []
     | Some pos \<Rightarrow>
         if pos \<noteq> 0 \<and> body ! (pos - 1) \<noteq> CHR ''&'' then []
         else value_from body (pos + length needle))"

section \<open>Encoded forms\<close>

text \<open>What a browser's form encoder sends: fields \<open>key=value\<close> joined by ampersands.\<close>

fun form_encode :: "(string \<times> string) list \<Rightarrow> string" where
  "form_encode [] = []"
| "form_encode [(k, v)] = k @ ''='' @ v"
| "form_encode ((k, v) # kvs) = k @ ''='' @ v @ ''&'' @ form_encode kvs"

definition clean :: "string \<Rightarrow> bool" where
  "clean s \<longleftrightarrow> CHR ''&'' \<notin> set s \<and> CHR ''='' \<notin> set s"

definition form_prefix :: "(string \<times> string) list \<Rightarrow> string" where
  "form_prefix kvs = concat (map (\<lambda>(k, v). k @ ''='' @ v @ ''&'') kvs)"

lemma form_encode_Cons:
  "form_encode ((k, v) # kvs) = k @ ''='' @ v @ (if kvs = [] then [] else ''&'' @ form_encode kvs)"
  by (cases kvs) auto

lemma form_encode_append: "bs \<noteq> [] \<Longrightarrow> form_encode (as @ bs) = form_prefix as @ form_encode bs"
  by (induction as) (auto simp: form_prefix_def form_encode_Cons simp del: form_encode.simps)

lemma form_prefix_encode: "as \<noteq> [] \<Longrightarrow> form_prefix as = form_encode as @ ''&''"
  by (induction as) (auto simp: form_prefix_def form_encode_Cons simp del: form_encode.simps)

text \<open>A needle without the separator occurs on one side of it.\<close>

lemma prefix_before_sep:
  assumes "prefix n (x @ c # y)" "c \<notin> set n"
  shows "prefix n x"
  using assms by (auto simp: prefix_append prefix_Cons)

lemma sublist_sep:
  assumes "sublist n (a @ c # b)" "c \<notin> set n"
  shows "sublist n a \<or> sublist n b"
  using assms(1)
proof (induction a)
  case Nil
  then have "prefix n (c # b) \<or> sublist n b" by (simp add: sublist_Cons_right)
  with prefix_before_sep [of n "[]" c b] assms(2) show ?case by (auto simp: sublist_def)
next
  case (Cons d a)
  then have "prefix n (d # a @ c # b) \<or> sublist n (a @ c # b)" by (simp add: sublist_Cons_right)
  with prefix_before_sep [of n "d # a" c b] assms(2) Cons.IH show ?case
    by (auto simp: sublist_Cons_right)
qed

lemma field_not_needle:
  assumes "clean k" "clean v" "\<not> suffix key k"
  shows "\<not> sublist (key @ ''='') (k @ ''='' @ v)"
proof
  assume "sublist (key @ ''='') (k @ ''='' @ v)"
  then obtain ps ss where "k @ CHR ''='' # v = (ps @ key) @ CHR ''='' # ss"
    by (auto simp: sublist_def)
  moreover have "CHR ''='' \<notin> set k" "CHR ''='' \<notin> set v" using assms(1,2) by (simp_all add: clean_def)
  ultimately have "k = ps @ key" using append_Cons_eq_iff by metis
  with assms(3) show False by (simp add: suffix_def)
qed

lemma form_not_needle:
  assumes "list_all (\<lambda>(k, v). clean k \<and> clean v \<and> \<not> suffix key k) kvs" "clean key"
  shows "\<not> sublist (key @ ''='') (form_encode kvs)"
  using assms(1)
proof (induction kvs)
  case (Cons kv kvs)
  obtain k v where kv: "kv = (k, v)" by (cases kv)
  with Cons.prems have nf: "\<not> sublist (key @ ''='') (k @ ''='' @ v)" by (intro field_not_needle) simp_all
  have amp: "CHR ''&'' \<notin> set (key @ ''='')" using assms(2) by (simp add: clean_def)
  show ?case
  proof (cases "kvs = []")
    case True
    with kv nf show ?thesis by simp
  next
    case False
    with kv have "form_encode (kv # kvs) = (k @ ''='' @ v) @ CHR ''&'' # form_encode kvs"
      by (simp add: form_encode_Cons)
    note enc = this
    show ?thesis
    proof
      assume "sublist (key @ ''='') (form_encode (kv # kvs))"
      from sublist_sep [OF this [unfolded enc] amp] nf Cons show False by simp
    qed
  qed
qed simp

lemma find_sub_first:
  assumes "pre = [] \<or> (\<exists>p c. pre = p @ [c] \<and> c \<notin> set n \<and> \<not> sublist n p)"
  shows "find_sub n (pre @ n @ rest) = Some (length pre)"
proof -
  have "\<not> prefix n (drop j (pre @ n @ rest))" if "j < length pre" for j
  proof
    assume occ: "prefix n (drop j (pre @ n @ rest))"
    from assms that obtain p c where p: "pre = p @ [c]" "c \<notin> set n" "\<not> sublist n p" by auto
    with that occ have "prefix n (drop j p @ c # n @ rest)" by simp
    from prefix_before_sep [OF this p(2)] have "sublist n (drop j p)" by (simp add: prefix_imp_sublist)
    then have "sublist n p" using sublist_drop sublist_order.order_trans by blast
    with p(3) show False ..
  qed
  then show ?thesis by (simp add: find_sub_Some)
qed

lemma find_sub_char: "c \<notin> set v \<Longrightarrow> find_sub [c] (v @ c # rest) = Some (length v)"
  by (induction v) (subst find_sub.simps; simp)+

lemma value_from_field:
  assumes "CHR ''&'' \<notin> set v" "post = [] \<or> (\<exists>q. post = CHR ''&'' # q)"
  shows "value_from (pre @ v @ post) (length pre) = v"
proof -
  have none: "find_sub ''&'' v = None"
    using assms(1) by (auto simp: find_sub_None sublist_def)
  from assms(2) show ?thesis
  proof
    assume "post = []"
    with none show ?thesis by (simp add: value_from_def find_from_def substr_def)
  next
    assume "\<exists>q. post = CHR ''&'' # q"
    then obtain q where "post = CHR ''&'' # q" by blast
    with find_sub_char [OF assms(1)] show ?thesis
      by (simp add: value_from_def find_from_def substr_def)
  qed
qed

lemma map_of_first:
  "map_of kvs key = Some v \<Longrightarrow> \<exists>as bs. kvs = as @ (key, v) # bs \<and> key \<notin> fst ` set as"
proof (induction kvs)
  case (Cons kv kvs)
  show ?case
  proof (cases "fst kv = key")
    case True
    with Cons.prems have "kv # kvs = [] @ (key, v) # kvs" by (cases kv) simp
    then show ?thesis by fastforce
  next
    case False
    with Cons.prems have "map_of kvs key = Some v" by (cases kv) simp
    from Cons.IH [OF this] obtain as bs where "kvs = as @ (key, v) # bs" "key \<notin> fst ` set as" by blast
    with False have "kv # kvs = (kv # as) @ (key, v) # bs" "key \<notin> fst ` set (kv # as)" by auto
    then show ?thesis by blast
  qed
qed simp

lemma other_fields:
  assumes "list_all (\<lambda>(k, v). clean k \<and> clean v \<and> (suffix key k \<longrightarrow> k = key)) kvs"
    and "key \<notin> fst ` set kvs"
  shows "list_all (\<lambda>(k, v). clean k \<and> clean v \<and> \<not> suffix key k) kvs"
  using assms
proof (induction kvs)
  case (Cons kv kvs)
  obtain k v where kv: "kv = (k, v)" by (cases kv)
  from Cons.prems(2) kv have "k \<noteq> key" and rest: "key \<notin> fst ` set kvs" by auto
  with Cons.prems(1) kv have "clean k \<and> clean v \<and> \<not> suffix key k" by simp
  moreover from Cons.prems(1) have
    "list_all (\<lambda>(k, v). clean k \<and> clean v \<and> (suffix key k \<longrightarrow> k = key)) kvs" by simp
  note Cons.IH [OF this rest]
  ultimately show ?case by (simp add: kv)
qed simp

text \<open>The parser undoes the encoder.\<close>

lemma extract_form:
  assumes fields: "list_all (\<lambda>(k, v). clean k \<and> clean v \<and> (suffix key k \<longrightarrow> k = key)) kvs"
    and key: "clean key"
  shows "extract_field (form_encode kvs) key = (case map_of kvs key of None \<Rightarrow> [] | Some v \<Rightarrow> v)"
proof (cases "map_of kvs key")
  case None
  then have "key \<notin> fst ` set kvs" by (simp add: map_of_eq_None_iff)
  from other_fields [OF fields this]
  have "list_all (\<lambda>(k, v). clean k \<and> clean v \<and> \<not> suffix key k) kvs" .
  from form_not_needle [OF this key] have "find_sub (key @ ''='') (form_encode kvs) = None"
    unfolding find_sub_None .
  with None show ?thesis by (simp add: extract_field_def Let_def)
next
  case (Some v)
  from map_of_first [OF Some] obtain as bs where
    kvs: "kvs = as @ (key, v) # bs" and as: "key \<notin> fst ` set as" by blast
  have "list_all (\<lambda>(k, v). clean k \<and> clean v \<and> \<not> suffix key k) as"
    by (rule other_fields [OF _ as]) (use fields in \<open>simp add: kvs\<close>)
  note no_needle = form_not_needle [OF this key]
  from fields have v: "CHR ''&'' \<notin> set v" by (simp add: kvs clean_def)
  define post where "post = (if bs = [] then [] else CHR ''&'' # form_encode bs)"
  let ?pre = "form_prefix as" and ?n = "key @ ''=''"
  have body: "form_encode kvs = ?pre @ ?n @ v @ post"
    by (simp add: kvs form_encode_append form_encode_Cons post_def)
  have pre: "?pre = [] \<or> (\<exists>p c. ?pre = p @ [c] \<and> c \<notin> set ?n \<and> \<not> sublist ?n p)"
    using no_needle key form_prefix_encode [of as]
    by (cases "as = []") (auto simp: form_prefix_def clean_def)
  have amp: "?pre = [] \<or> ?pre ! (length ?pre - 1) = CHR ''&''"
    using form_prefix_encode [of as] by (cases "as = []") (auto simp: form_prefix_def nth_append)
  have "value_from ((?pre @ ?n) @ v @ post) (length (?pre @ ?n)) = v"
    by (rule value_from_field [OF v]) (simp add: post_def)
  with find_sub_first [OF pre, of "v @ post"] amp Some body show ?thesis
    by (auto simp: extract_field_def Let_def nth_append)
qed

end
