(* ===== verification/Control_Data_Encoder.thy ===== *)
theory Control_Data_Encoder
  imports Surrogate_Prelude
begin

text \<open>
  control_data_encoder.{hpp,cpp}: the driver-station view, its packing into the 32-bit
  ControlWord and its encoding as a protobuf message. The nanopb runtime is outside src/:
  \<open>pb_encode\<close> is an argument that says, for a stream of some capacity and a message, whether
  encoding succeeds and which bytes the stream took.
\<close>

section \<open>Data\<close>

datatype RobotMode = Unknown | Auto | Teleop | Test

definition mode_value :: "RobotMode \<Rightarrow> i32" where
  "mode_value m = (case m of Unknown \<Rightarrow> 0 | Auto \<Rightarrow> 1 | Teleop \<Rightarrow> 2 | Test \<Rightarrow> 3)"

record ControlDataView =
  cv_enabled :: bool
  cv_ds_connected :: bool
  cv_fms_connected :: bool
  cv_e_stop :: bool
  cv_supports_opmodes :: bool
  cv_mode :: RobotMode
  cv_alliance :: i32
  cv_match_time_s :: i32

definition kCwEnabledBit :: u32 where "kCwEnabledBit = push_bit 0 1"
definition kCwRobotModeShift :: nat where "kCwRobotModeShift = 1"
definition kCwRobotModeMask :: u32 where "kCwRobotModeMask = push_bit kCwRobotModeShift 3"
definition kCwEStopBit :: u32 where "kCwEStopBit = push_bit 3 1"
definition kCwFmsConnectedBit :: u32 where "kCwFmsConnectedBit = push_bit 4 1"
definition kCwDsConnectedBit :: u32 where "kCwDsConnectedBit = push_bit 5 1"
definition kCwWatchdogActiveBit :: u32 where "kCwWatchdogActiveBit = push_bit 6 1"
definition kCwSupportsOpmodesBit :: u32 where "kCwSupportsOpmodesBit = push_bit 7 1"
definition kCwAllianceShift :: nat where "kCwAllianceShift = 8"
definition kCwAllianceMask :: u32 where "kCwAllianceMask = push_bit kCwAllianceShift 15"

lemmas kCw_defs =
  kCwEnabledBit_def kCwRobotModeShift_def kCwRobotModeMask_def kCwEStopBit_def
  kCwFmsConnectedBit_def kCwDsConnectedBit_def kCwWatchdogActiveBit_def
  kCwSupportsOpmodesBit_def kCwAllianceShift_def kCwAllianceMask_def

section \<open>Packing\<close>

definition pack_control_word :: "ControlDataView \<Rightarrow> u32" where
  "pack_control_word v =
    (let w = 0;
         w = (if cv_enabled v then w OR kCwEnabledBit else w);
         w = w OR (push_bit kCwRobotModeShift (mode_value (cv_mode v)) AND kCwRobotModeMask);
         w = (if cv_e_stop v then w OR kCwEStopBit else w);
         w = (if cv_fms_connected v then w OR kCwFmsConnectedBit else w);
         w = (if cv_ds_connected v then w OR kCwDsConnectedBit else w);
         w = (if cv_enabled v then w OR kCwWatchdogActiveBit else w);
         w = (if cv_supports_opmodes v then w OR kCwSupportsOpmodesBit else w);
         w = w OR (push_bit kCwAllianceShift (cv_alliance v) AND kCwAllianceMask)
     in w)"

text \<open>
  One description of the packed word, bit by bit; every field property below is read off it.
  The constants are single bits, or masks \<open>0x3 << 1\<close> and \<open>0xF << 8\<close>.
\<close>

lemma numeral_masks: "(1 :: 'a::len word) = mask (Suc 0)" "(3 :: 'a::len word) = mask 2"
  "(15 :: 'a::len word) = mask 4"
  by (simp_all add: mask_eq_exp_minus_1)

lemma bit_push_mask:
  "bit (push_bit k (mask j :: 'a::len word)) n \<longleftrightarrow> k \<le> n \<and> n < k + j \<and> n < LENGTH('a)"
  by (auto simp: bit_push_bit_iff bit_mask_iff)

lemma cw_constant_bits:
  "bit kCwEnabledBit n \<longleftrightarrow> n = 0"
  "bit kCwRobotModeMask n \<longleftrightarrow> n = 1 \<or> n = 2"
  "bit kCwEStopBit n \<longleftrightarrow> n = 3"
  "bit kCwFmsConnectedBit n \<longleftrightarrow> n = 4"
  "bit kCwDsConnectedBit n \<longleftrightarrow> n = 5"
  "bit kCwWatchdogActiveBit n \<longleftrightarrow> n = 6"
  "bit kCwSupportsOpmodesBit n \<longleftrightarrow> n = 7"
  "bit kCwAllianceMask n \<longleftrightarrow> 8 \<le> n \<and> n < 12"
  unfolding kCw_defs numeral_masks bit_push_mask by auto

lemma mode_value_bits:
  "bit (mode_value m) 0 \<longleftrightarrow> m = Auto \<or> m = Test"
  "bit (mode_value m) (Suc 0) \<longleftrightarrow> m = Teleop \<or> m = Test"
  by (cases m; simp add: mode_value_def bit_numeral_rec bit_1_iff)+

lemma mode_value_high: "2 \<le> k \<Longrightarrow> \<not> bit (mode_value m) k"
proof -
  have "take_bit 2 (mode_value m) = mode_value m"
    by (cases m) (simp_all add: mode_value_def)
  then show "2 \<le> k \<Longrightarrow> \<not> bit (mode_value m) k"
    by (metis bit_take_bit_iff not_le)
qed

lemma mode_field_bits:
  "bit (push_bit kCwRobotModeShift (mode_value m) AND kCwRobotModeMask) n \<longleftrightarrow>
     (n = 1 \<and> (m = Auto \<or> m = Test)) \<or> (n = 2 \<and> (m = Teleop \<or> m = Test))"
  by (auto simp only: bit_and_iff cw_constant_bits bit_push_bit_iff kCwRobotModeShift_def)
    (auto simp: mode_value_bits numeral_2_eq_2)

lemma alliance_field_bits:
  "bit (push_bit kCwAllianceShift a AND kCwAllianceMask) n \<longleftrightarrow> 8 \<le> n \<and> n < 12 \<and> bit a (n - 8)"
  by (auto simp: bit_and_iff cw_constant_bits bit_push_bit_iff kCwAllianceShift_def)

lemma bit_or_if:
  fixes w :: "'a::len word"
  shows "bit (if b then w OR x else w) n \<longleftrightarrow> bit w n \<or> (b \<and> bit x n)"
  by (simp add: bit_or_iff)

lemma bit_pack_control_word:
  "bit (pack_control_word v) n \<longleftrightarrow>
     (n = 0 \<and> cv_enabled v) \<or> (n = 1 \<and> (cv_mode v = Auto \<or> cv_mode v = Test)) \<or>
     (n = 2 \<and> (cv_mode v = Teleop \<or> cv_mode v = Test)) \<or> (n = 3 \<and> cv_e_stop v) \<or>
     (n = 4 \<and> cv_fms_connected v) \<or> (n = 5 \<and> cv_ds_connected v) \<or>
     (n = 6 \<and> cv_enabled v) \<or> (n = 7 \<and> cv_supports_opmodes v) \<or>
     (8 \<le> n \<and> n < 12 \<and> bit (cv_alliance v) (n - 8))"
  by (simp only: pack_control_word_def Let_def bit_or_if bit_or_iff mode_field_bits
    alliance_field_bits cw_constant_bits bit_0_eq bot_apply bot_bool_def) blast

section \<open>Reading the fields back\<close>

text \<open>
  The fields as the receiving side reads them (mask, then shift): the contract that the
  packing has to meet.
\<close>

definition cw_mode_field :: "u32 \<Rightarrow> u32" where
  "cw_mode_field w = drop_bit kCwRobotModeShift (w AND kCwRobotModeMask)"

definition cw_alliance_field :: "u32 \<Rightarrow> u32" where
  "cw_alliance_field w = drop_bit kCwAllianceShift (w AND kCwAllianceMask)"

definition cw_flag :: "u32 \<Rightarrow> u32 \<Rightarrow> bool" where
  "cw_flag w b \<longleftrightarrow> w AND b \<noteq> 0"

lemma and_single_bit:
  fixes w b :: "'a::len word"
  assumes "\<And>n. bit b n \<longleftrightarrow> n = k"
  shows "w AND b \<noteq> 0 \<longleftrightarrow> bit w k"
proof -
  have "w AND b = 0 \<longleftrightarrow> (\<forall>n. \<not> (bit w n \<and> bit b n))"
    using bit_imp_le_length by (auto simp: bit_eq_iff bit_and_iff)
  with assms show ?thesis by auto
qed

lemma cw_flag_pack:
  "cw_flag (pack_control_word v) kCwEnabledBit = cv_enabled v"
  "cw_flag (pack_control_word v) kCwEStopBit = cv_e_stop v"
  "cw_flag (pack_control_word v) kCwFmsConnectedBit = cv_fms_connected v"
  "cw_flag (pack_control_word v) kCwDsConnectedBit = cv_ds_connected v"
  "cw_flag (pack_control_word v) kCwWatchdogActiveBit = cv_enabled v"
  "cw_flag (pack_control_word v) kCwSupportsOpmodesBit = cv_supports_opmodes v"
  by (auto simp: cw_flag_def and_single_bit [OF cw_constant_bits(1)]
      and_single_bit [OF cw_constant_bits(3)] and_single_bit [OF cw_constant_bits(4)]
      and_single_bit [OF cw_constant_bits(5)] and_single_bit [OF cw_constant_bits(6)]
      and_single_bit [OF cw_constant_bits(7)] bit_pack_control_word)

lemma cw_mode_field_pack: "cw_mode_field (pack_control_word v) = mode_value (cv_mode v)"
proof (rule bit_word_eqI)
  fix n
  assume "n < LENGTH(32)"
  consider "n = 0" | "n = 1" | "2 \<le> n" by linarith
  then show "bit (cw_mode_field (pack_control_word v)) n = bit (mode_value (cv_mode v)) n"
    by cases (auto simp: cw_mode_field_def bit_drop_bit_eq bit_and_iff cw_constant_bits
      kCwRobotModeShift_def bit_pack_control_word mode_value_bits mode_value_high)
qed

lemma cw_alliance_field_pack:
  "cw_alliance_field (pack_control_word v) = cv_alliance v AND 15"
  by (rule bit_word_eqI) (auto simp: cw_alliance_field_def bit_drop_bit_eq bit_and_iff
    cw_constant_bits kCwAllianceShift_def bit_pack_control_word numeral_masks bit_mask_iff)

lemma mode_value_inject [simp]: "mode_value m = mode_value m' \<longleftrightarrow> m = m'"
  by (cases m; cases m'; simp add: mode_value_def)


section \<open>Encoding\<close>

text \<open>
  The fields of \<open>mrc_proto_ProtobufControlData\<close> that the daemon sets; the message's callback
  fields stay empty. A \<open>pb_encoder\<close> gives, for the capacity of the stream and the message,
  the outcome of \<open>pb_encode\<close> and the bytes the stream holds afterwards.
\<close>

record ProtobufControlData =
  ControlWord :: u32
  MatchTime :: i32
  CurrentOpMode :: int

type_synonym pb_encoder = "nat \<Rightarrow> ProtobufControlData \<Rightarrow> bool \<times> u8 list"

definition control_data_message :: "ControlDataView \<Rightarrow> ProtobufControlData" where
  "control_data_message view =
    \<lparr>ControlWord = pack_control_word view, MatchTime = cv_match_time_s view, CurrentOpMode = 0\<rparr>"

text \<open>Returns the byte count and the output buffer: its front holds what the stream wrote.\<close>

definition encode_control_data ::
  "pb_encoder \<Rightarrow> ControlDataView \<Rightarrow> u8 list \<Rightarrow> nat \<times> u8 list" where
  "encode_control_data pb_encode view out =
    (if out = [] then (0, out)
     else case pb_encode (length out) (control_data_message view) of
       (ok, bytes) \<Rightarrow> (if ok then length bytes else 0, bytes @ drop (length bytes) out))"

definition kControlDataMaxBytes :: nat where
  "kControlDataMaxBytes = 256"

text \<open>What nanopb documents of \<open>pb_encode\<close>: a stream never takes more than its capacity.\<close>

definition stream_within_capacity :: "pb_encoder \<Rightarrow> bool" where
  "stream_within_capacity pb_encode \<longleftrightarrow>
    (\<forall>cap msg. length (snd (pb_encode cap msg)) \<le> cap)"

lemma encode_control_data_empty [simp]: "encode_control_data pb view [] = (0, [])"
  by (simp add: encode_control_data_def)

lemma encode_control_data_length:
  assumes "stream_within_capacity pb" "encode_control_data pb view out = (n, out')"
  shows "n \<le> length out" and "length out' = length out"
proof -
  obtain ok bytes where b: "pb (length out) (control_data_message view) = (ok, bytes)"
    by (cases "pb (length out) (control_data_message view)")
  with assms(1) have le: "length bytes \<le> length out"
    by (metis snd_conv stream_within_capacity_def)
  from b le assms(2) show "n \<le> length out" and "length out' = length out"
    by (auto simp: encode_control_data_def split: if_splits)
qed

lemma encode_control_data_bytes:
  assumes "encode_control_data pb view out = (n, out')" "0 < n"
  shows "pb (length out) (control_data_message view) = (True, take n out')"
  using assms by (auto simp: encode_control_data_def split: if_splits prod.splits)

section \<open>Properties\<close>

text \<open>
  C9 (roundtrip): a receiver that masks and shifts the control word reads back every field of
  the view: the five independent flags, the mode, the alliance modulo 16; the watchdog bit is
  the enable bit, and the twenty bits above the alliance are clear.
\<close>

theorem control_word_roundtrip:
  "let w = pack_control_word v in
    cw_flag w kCwEnabledBit = cv_enabled v \<and> cw_flag w kCwEStopBit = cv_e_stop v \<and>
    cw_flag w kCwFmsConnectedBit = cv_fms_connected v \<and>
    cw_flag w kCwDsConnectedBit = cv_ds_connected v \<and>
    cw_flag w kCwSupportsOpmodesBit = cv_supports_opmodes v \<and>
    cw_flag w kCwWatchdogActiveBit = cv_enabled v \<and>
    cw_mode_field w = mode_value (cv_mode v) \<and>
    cw_alliance_field w = take_bit 4 (cv_alliance v) \<and> drop_bit 12 w = 0"
proof -
  have "drop_bit 12 (pack_control_word v) = 0"
    by (rule bit_word_eqI) (simp add: bit_drop_bit_eq bit_pack_control_word)
  then show ?thesis
    by (simp add: Let_def cw_flag_pack cw_mode_field_pack cw_alliance_field_pack
        take_bit_eq_mask numeral_masks)
qed

text \<open>
  Two views produce the same control word exactly when they agree on the
  flags, the mode and the low four bits of the alliance; the match time is not in the word.
\<close>

theorem control_word_determined:
  "pack_control_word v = pack_control_word v' \<longleftrightarrow>
     (cv_enabled v, cv_e_stop v, cv_fms_connected v, cv_ds_connected v, cv_supports_opmodes v,
        cv_mode v, take_bit 4 (cv_alliance v))
     = (cv_enabled v', cv_e_stop v', cv_fms_connected v', cv_ds_connected v',
        cv_supports_opmodes v', cv_mode v', take_bit 4 (cv_alliance v'))"
proof
  assume eq: "pack_control_word v = pack_control_word v'"
  have "mode_value (cv_mode v) = mode_value (cv_mode v')"
    using cw_mode_field_pack [of v] cw_mode_field_pack [of v'] eq by simp
  moreover have "take_bit 4 (cv_alliance v) = take_bit 4 (cv_alliance v')"
    using cw_alliance_field_pack [of v] cw_alliance_field_pack [of v'] eq
    by (simp add: take_bit_eq_mask numeral_masks)
  ultimately show "(cv_enabled v, cv_e_stop v, cv_fms_connected v, cv_ds_connected v,
      cv_supports_opmodes v, cv_mode v, take_bit 4 (cv_alliance v))
     = (cv_enabled v', cv_e_stop v', cv_fms_connected v', cv_ds_connected v',
        cv_supports_opmodes v', cv_mode v', take_bit 4 (cv_alliance v'))"
    using cw_flag_pack [of v] cw_flag_pack [of v'] eq by auto
next
  assume eq: "(cv_enabled v, cv_e_stop v, cv_fms_connected v, cv_ds_connected v,
      cv_supports_opmodes v, cv_mode v, take_bit 4 (cv_alliance v))
     = (cv_enabled v', cv_e_stop v', cv_fms_connected v', cv_ds_connected v',
        cv_supports_opmodes v', cv_mode v', take_bit 4 (cv_alliance v'))"
  then have a: "take_bit 4 (cv_alliance v) = take_bit 4 (cv_alliance v')" by simp
  have "bit (cv_alliance v) k = bit (cv_alliance v') k" if "k < 4" for k
    using arg_cong [OF a, of "\<lambda>w. bit w k"] that by (simp add: bit_take_bit_iff)
  then have field: "8 \<le> n \<and> n < 12 \<and> bit (cv_alliance v) (n - 8) \<longleftrightarrow>
      8 \<le> n \<and> n < 12 \<and> bit (cv_alliance v') (n - 8)" for n
    by (cases "8 \<le> n \<and> n < 12") (auto simp: less_diff_conv2)
  from eq have flags: "cv_enabled v = cv_enabled v'" "cv_e_stop v = cv_e_stop v'"
    "cv_fms_connected v = cv_fms_connected v'" "cv_ds_connected v = cv_ds_connected v'"
    "cv_supports_opmodes v = cv_supports_opmodes v'" "cv_mode v = cv_mode v'" by simp_all
  show "pack_control_word v = pack_control_word v'"
    by (rule bit_word_eqI) (simp only: bit_pack_control_word flags field)
qed

text \<open>
  \<open>encode_control_data\<close> never reports more bytes than the caller's buffer holds
  and never changes its length; a positive count means that \<open>pb_encode\<close> succeeded on the view's
  message and the count's prefix of the buffer is what it wrote; an empty buffer or a failed
  encoding gives 0.
\<close>

theorem encode_control_data_contract:
  assumes "stream_within_capacity pb_encode"
    and "encode_control_data pb_encode view out = (n, out')"
  shows "n \<le> length out \<and> length out' = length out \<and>
    (case pb_encode (length out) (control_data_message view) of (ok, bytes) \<Rightarrow>
       if out = [] \<or> \<not> ok then n = 0 else n = length bytes \<and> take n out' = bytes)"
  using encode_control_data_length [OF assms] assms(2)
  by (auto simp: encode_control_data_def split: prod.splits if_splits)

text \<open>A stand-in for the library: the control word's bytes, when they fit.\<close>

definition tiny_pb :: pb_encoder where
  "tiny_pb cap msg = (if cap < 2 then (False, [])
     else (True, [ucast (ControlWord msg), ucast (drop_bit 8 (ControlWord msg))]))"

definition enabled_teleop :: ControlDataView where
  "enabled_teleop = \<lparr>cv_enabled = True, cv_ds_connected = True, cv_fms_connected = False,
     cv_e_stop = False, cv_supports_opmodes = False, cv_mode = Teleop, cv_alliance = 1,
     cv_match_time_s = 135\<rparr>"

lemma encode_control_data_contract_witness:
  "fst (encode_control_data tiny_pb enabled_teleop [0, 0, 0]) = 2 \<and>
   take 2 (snd (encode_control_data tiny_pb enabled_teleop [0, 0, 0])) = [0x65, 0x01]"
proof -
  let ?e = "encode_control_data tiny_pb enabled_teleop [0, 0, 0]"
  have "stream_within_capacity tiny_pb"
    by (simp add: stream_within_capacity_def tiny_pb_def)
  from encode_control_data_contract [OF this, of enabled_teleop "[0, 0, 0]" "fst ?e" "snd ?e"]
  moreover have "tiny_pb (length [0, 0, 0 :: u8]) (control_data_message enabled_teleop) =
      (True, [0x65, 0x01])"
    by (simp add: tiny_pb_def control_data_message_def enabled_teleop_def pack_control_word_def
        mode_value_def kCw_defs Let_def)
  ultimately show ?thesis by (auto simp: numeral_2_eq_2)
qed

end
