(* ===== verification/Daemon_State.thy ===== *)
theory Daemon_State
  imports Control_Data_Encoder
begin

text \<open>
  daemon_state.{hpp,cpp}: the shared driver-station state. Every method locks the one mutex
  for its whole body, so a method is one atomic step on the record; a caller that makes
  several calls makes several steps (see the theory on interleavings).
\<close>

section \<open>State and operations\<close>

record DaemonState =
  ds_enabled :: bool
  ds_mode :: RobotMode
  ds_alliance :: i32
  ds_e_stop :: bool
  ds_match_time_s :: i32

definition initial_daemon_state :: DaemonState where
  "initial_daemon_state =
    \<lparr>ds_enabled = False, ds_mode = Unknown, ds_alliance = 0, ds_e_stop = False, ds_match_time_s = 0\<rparr>"

definition set_enabled :: "bool \<Rightarrow> DaemonState \<Rightarrow> DaemonState" where
  "set_enabled v s = s\<lparr>ds_enabled := v\<rparr>"

definition set_mode :: "RobotMode \<Rightarrow> DaemonState \<Rightarrow> DaemonState" where
  "set_mode m s = s\<lparr>ds_mode := m\<rparr>"

definition set_alliance :: "i32 \<Rightarrow> DaemonState \<Rightarrow> DaemonState" where
  "set_alliance a s = s\<lparr>ds_alliance := a\<rparr>"

definition set_e_stop :: "bool \<Rightarrow> DaemonState \<Rightarrow> DaemonState" where
  "set_e_stop v s = s\<lparr>ds_e_stop := v\<rparr>"

definition set_match_time :: "i32 \<Rightarrow> DaemonState \<Rightarrow> DaemonState" where
  "set_match_time t s = s\<lparr>ds_match_time_s := t\<rparr>"

definition snapshot_control :: "DaemonState \<Rightarrow> ControlDataView" where
  "snapshot_control s =
    \<lparr>cv_enabled = ds_enabled s, cv_ds_connected = True, cv_fms_connected = False,
     cv_e_stop = ds_e_stop s, cv_supports_opmodes = False, cv_mode = ds_mode s,
     cv_alliance = ds_alliance s, cv_match_time_s = ds_match_time_s s\<rparr>"

lemmas daemon_state_defs =
  set_enabled_def set_mode_def set_alliance_def set_e_stop_def set_match_time_def
  snapshot_control_def

section \<open>Each setter writes its own field and no other\<close>

lemma daemon_state_get_set [simp]:
  "ds_enabled (set_enabled v s) = v" "ds_mode (set_enabled v s) = ds_mode s"
  "ds_alliance (set_enabled v s) = ds_alliance s" "ds_e_stop (set_enabled v s) = ds_e_stop s"
  "ds_match_time_s (set_enabled v s) = ds_match_time_s s"
  "ds_enabled (set_mode m s) = ds_enabled s" "ds_mode (set_mode m s) = m"
  "ds_alliance (set_mode m s) = ds_alliance s" "ds_e_stop (set_mode m s) = ds_e_stop s"
  "ds_match_time_s (set_mode m s) = ds_match_time_s s"
  "ds_enabled (set_alliance a s) = ds_enabled s" "ds_mode (set_alliance a s) = ds_mode s"
  "ds_alliance (set_alliance a s) = a" "ds_e_stop (set_alliance a s) = ds_e_stop s"
  "ds_match_time_s (set_alliance a s) = ds_match_time_s s"
  "ds_enabled (set_e_stop v s) = ds_enabled s" "ds_mode (set_e_stop v s) = ds_mode s"
  "ds_alliance (set_e_stop v s) = ds_alliance s" "ds_e_stop (set_e_stop v s) = v"
  "ds_match_time_s (set_e_stop v s) = ds_match_time_s s"
  "ds_enabled (set_match_time t s) = ds_enabled s" "ds_mode (set_match_time t s) = ds_mode s"
  "ds_alliance (set_match_time t s) = ds_alliance s" "ds_e_stop (set_match_time t s) = ds_e_stop s"
  "ds_match_time_s (set_match_time t s) = t"
  by (simp_all add: daemon_state_defs)

lemma snapshot_control_fields [simp]:
  "cv_enabled (snapshot_control s) = ds_enabled s" "cv_ds_connected (snapshot_control s)"
  "\<not> cv_fms_connected (snapshot_control s)" "cv_e_stop (snapshot_control s) = ds_e_stop s"
  "\<not> cv_supports_opmodes (snapshot_control s)" "cv_mode (snapshot_control s) = ds_mode s"
  "cv_alliance (snapshot_control s) = ds_alliance s"
  "cv_match_time_s (snapshot_control s) = ds_match_time_s s"
  by (simp_all add: snapshot_control_def)

section \<open>Setter calls as data\<close>

text \<open>
  The vocabulary of atomic writes, used wherever a sequence of calls, not only its final
  effect, matters.
\<close>

datatype state_write =
    SetEnabled bool
  | SetMode RobotMode
  | SetAlliance i32
  | SetEStop bool
  | SetMatchTime i32

fun apply_write :: "state_write \<Rightarrow> DaemonState \<Rightarrow> DaemonState" where
  "apply_write (SetEnabled v) = set_enabled v"
| "apply_write (SetMode m) = set_mode m"
| "apply_write (SetAlliance a) = set_alliance a"
| "apply_write (SetEStop v) = set_e_stop v"
| "apply_write (SetMatchTime t) = set_match_time t"

text \<open>The last value written to each field, or the given one when it was never written.\<close>

definition last_or :: "'a \<Rightarrow> 'a list \<Rightarrow> 'a" where
  "last_or d xs = (if xs = [] then d else last xs)"

lemma last_or_Nil [simp]: "last_or d [] = d"
  by (simp add: last_or_def)

lemma last_or_Cons [simp]: "last_or d (x # xs) = last_or x xs"
  by (simp add: last_or_def)

lemma apply_writes:
  "ds_enabled (fold apply_write ws s) = last_or (ds_enabled s) [v. SetEnabled v \<leftarrow> ws]"
  "ds_mode (fold apply_write ws s) = last_or (ds_mode s) [m. SetMode m \<leftarrow> ws]"
  "ds_alliance (fold apply_write ws s) = last_or (ds_alliance s) [a. SetAlliance a \<leftarrow> ws]"
  "ds_e_stop (fold apply_write ws s) = last_or (ds_e_stop s) [v. SetEStop v \<leftarrow> ws]"
  "ds_match_time_s (fold apply_write ws s) = last_or (ds_match_time_s s) [t. SetMatchTime t \<leftarrow> ws]"
  by (induction ws arbitrary: s; simp split: state_write.split)+

section \<open>Properties\<close>

text \<open>
  After any sequence of setter calls on a new state, the control word of a
  snapshot shows the last value written to each field (its default when there was none), the
  watchdog follows the last enable, the driver station always counts as connected, and the
  field system and opmode bits are never set.
\<close>

theorem control_word_of_history:
  "let s = fold apply_write ws initial_daemon_state;
       w = pack_control_word (snapshot_control s) in
     cw_flag w kCwEnabledBit = last_or False [v. SetEnabled v \<leftarrow> ws] \<and>
     cw_flag w kCwWatchdogActiveBit = last_or False [v. SetEnabled v \<leftarrow> ws] \<and>
     cw_flag w kCwEStopBit = last_or False [v. SetEStop v \<leftarrow> ws] \<and>
     cw_mode_field w = mode_value (last_or Unknown [m. SetMode m \<leftarrow> ws]) \<and>
     cw_alliance_field w = last_or 0 [a. SetAlliance a \<leftarrow> ws] AND 15 \<and>
     cv_match_time_s (snapshot_control s) = last_or 0 [t. SetMatchTime t \<leftarrow> ws] \<and>
     cw_flag w kCwDsConnectedBit \<and> \<not> cw_flag w kCwFmsConnectedBit \<and>
     \<not> cw_flag w kCwSupportsOpmodesBit"
  by (simp add: Let_def cw_flag_pack cw_mode_field_pack cw_alliance_field_pack apply_writes
      initial_daemon_state_def)

end
