(* ===== verification/Match_Controller.thy ===== *)
theory Match_Controller
  imports Daemon_State
begin

text \<open>
  match_controller.{hpp,cpp}: the clock-driven match phases. Instants are steady-clock
  nanoseconds and durations milliseconds, as in the code; both are mathematical integers
  here. The controller holds a reference to the shared \<open>DaemonState\<close>, so an operation takes
  and returns the pair of both objects. The controller's own mutex covers every operation.
\<close>

section \<open>Data\<close>

datatype MatchPhase = Idle | PhaseAuto | AutoTeleopGap | PhaseTeleop | MatchEnded

definition match_phase_name :: "MatchPhase \<Rightarrow> string" where
  "match_phase_name p = (case p of
     Idle \<Rightarrow> ''idle''
   | PhaseAuto \<Rightarrow> ''auto''
   | AutoTeleopGap \<Rightarrow> ''auto_teleop_gap''
   | PhaseTeleop \<Rightarrow> ''teleop''
   | MatchEnded \<Rightarrow> ''match_ended'')"

record MatchDurations =
  auto_period :: int
  auto_teleop_gap :: int
  teleop_period :: int

definition default_durations :: MatchDurations where
  "default_durations =
    \<lparr>auto_period = 15000, auto_teleop_gap = 3000, teleop_period = 135000\<rparr>"

definition kMatchTickPeriod :: int where
  "kMatchTickPeriod = 50"

record MatchController =
  durations :: MatchDurations
  phase :: MatchPhase
  match_start :: int
  phase_start :: int

definition new_match_controller :: "MatchDurations \<Rightarrow> MatchController" where
  "new_match_controller d =
    \<lparr>durations = d, phase = Idle, match_start = 0, phase_start = 0\<rparr>"

section \<open>Operations\<close>

definition duration_for :: "MatchController \<Rightarrow> MatchPhase \<Rightarrow> int" where
  "duration_for c p = (case p of
     PhaseAuto \<Rightarrow> auto_period (durations c)
   | AutoTeleopGap \<Rightarrow> auto_teleop_gap (durations c)
   | PhaseTeleop \<Rightarrow> teleop_period (durations c)
   | Idle \<Rightarrow> 0
   | MatchEnded \<Rightarrow> 0)"

definition apply_phase ::
  "MatchPhase \<Rightarrow> MatchController \<times> DaemonState \<Rightarrow> MatchController \<times> DaemonState" where
  "apply_phase p = (\<lambda>(c, s).
    (c\<lparr>phase := p\<rparr>,
     case p of
       PhaseAuto \<Rightarrow> set_mode Auto (set_enabled True s)
     | PhaseTeleop \<Rightarrow> set_mode Teleop (set_enabled True s)
     | Idle \<Rightarrow> set_mode Unknown (set_enabled False s)
     | AutoTeleopGap \<Rightarrow> set_mode Unknown (set_enabled False s)
     | MatchEnded \<Rightarrow> set_mode Unknown (set_enabled False s)))"

definition match_seconds :: "int \<Rightarrow> MatchController \<Rightarrow> int" where
  "match_seconds now c =
    (if phase c = PhaseAuto \<or> phase c = PhaseTeleop
     then let remaining = ns_of_ms (duration_for c (phase c)) - (now - phase_start c);
              remaining = (if remaining < 0 then 0 else remaining)
          in ceil_s remaining
     else 0)"

definition publish_match_time ::
  "int \<Rightarrow> MatchController \<times> DaemonState \<Rightarrow> MatchController \<times> DaemonState" where
  "publish_match_time now = (\<lambda>(c, s). (c, set_match_time (word_of_int (match_seconds now c)) s))"

definition start_match ::
  "int \<Rightarrow> MatchController \<times> DaemonState \<Rightarrow> MatchController \<times> DaemonState" where
  "start_match now = (\<lambda>(c, s).
    publish_match_time now
      (apply_phase PhaseAuto (c\<lparr>match_start := now, phase_start := now\<rparr>, s)))"

definition stop_match ::
  "MatchController \<times> DaemonState \<Rightarrow> MatchController \<times> DaemonState" where
  "stop_match = (\<lambda>(c, s).
    let (c, s) = apply_phase Idle (c, s)
    in (c\<lparr>match_start := 0, phase_start := 0\<rparr>, set_match_time 0 s))"

definition skip_to_teleop ::
  "int \<Rightarrow> MatchController \<times> DaemonState \<Rightarrow> MatchController \<times> DaemonState" where
  "skip_to_teleop now = (\<lambda>(c, s).
    let c = c\<lparr>match_start := now - ns_of_ms (auto_period (durations c))
                             - ns_of_ms (auto_teleop_gap (durations c)),
              phase_start := now\<rparr>
    in publish_match_time now (apply_phase PhaseTeleop (c, s)))"

definition match_tick ::
  "int \<Rightarrow> MatchController \<times> DaemonState \<Rightarrow> MatchController \<times> DaemonState" where
  "match_tick now = (\<lambda>(c, s).
    if phase c = Idle \<or> phase c = MatchEnded then (c, s)
    else
      let elapsed = now - phase_start c;
          duration = ns_of_ms (duration_for c (phase c))
      in if elapsed < duration
         then publish_match_time now (apply_phase (phase c) (c, s))
         else
           let c = c\<lparr>phase_start := phase_start c + duration\<rparr>
           in publish_match_time now
                (case phase c of
                   PhaseAuto \<Rightarrow> apply_phase AutoTeleopGap (c, s)
                 | AutoTeleopGap \<Rightarrow> apply_phase PhaseTeleop (c, s)
                 | PhaseTeleop \<Rightarrow> apply_phase MatchEnded (c, s)
                 | Idle \<Rightarrow> (c, s)
                 | MatchEnded \<Rightarrow> (c, s)))"

record Snapshot =
  sn_phase :: MatchPhase
  elapsed_in_phase :: int
  total_elapsed :: int
  remaining_in_phase :: int

definition match_snapshot :: "int \<Rightarrow> MatchController \<Rightarrow> Snapshot" where
  "match_snapshot now c =
    (if phase c = Idle
     then \<lparr>sn_phase = phase c, elapsed_in_phase = 0, total_elapsed = 0, remaining_in_phase = 0\<rparr>
     else
       let duration = duration_for c (phase c);
           elapsed = cast_ms (now - phase_start c);
           total = cast_ms (now - match_start c);
           remaining = duration - elapsed;
           remaining = (if remaining < 0 then 0 else remaining)
       in \<lparr>sn_phase = phase c, elapsed_in_phase = elapsed, total_elapsed = total,
           remaining_in_phase = remaining\<rparr>)"

lemmas match_op_defs =
  apply_phase_def publish_match_time_def start_match_def stop_match_def skip_to_teleop_def
  match_tick_def

section \<open>Events\<close>

text \<open>
  Everything that can happen to the pair: the controller's own operations, and a write to
  the shared state by somebody else (web UI, gamepad ingest) between two of them.
\<close>

datatype match_event =
    StartMatch int
  | StopMatch
  | SkipToTeleop int
  | Tick int
  | Manual state_write

fun match_step ::
  "match_event \<Rightarrow> MatchController \<times> DaemonState \<Rightarrow> MatchController \<times> DaemonState" where
  "match_step (StartMatch now) cs = start_match now cs"
| "match_step StopMatch cs = stop_match cs"
| "match_step (SkipToTeleop now) cs = skip_to_teleop now cs"
| "match_step (Tick now) cs = match_tick now cs"
| "match_step (Manual w) cs = (fst cs, apply_write w (snd cs))"


section \<open>What a phase promises\<close>

text \<open>
  The abstract side: the enable bit and mode a phase commands, the phase that follows it,
  where it starts relative to the match start, and the phase an ideal clock would show.
\<close>

definition phase_command :: "MatchPhase \<Rightarrow> bool \<times> RobotMode" where
  "phase_command p =
    (if p = PhaseAuto then (True, Auto) else if p = PhaseTeleop then (True, Teleop)
     else (False, Unknown))"

fun next_phase :: "MatchPhase \<Rightarrow> MatchPhase" where
  "next_phase PhaseAuto = AutoTeleopGap"
| "next_phase AutoTeleopGap = PhaseTeleop"
| "next_phase PhaseTeleop = MatchEnded"
| "next_phase p = p"

fun phase_rank :: "MatchPhase \<Rightarrow> nat" where
  "phase_rank Idle = 0"
| "phase_rank PhaseAuto = 1"
| "phase_rank AutoTeleopGap = 2"
| "phase_rank PhaseTeleop = 3"
| "phase_rank MatchEnded = 4"

text \<open>Phases are ordered as a match goes through them.\<close>

lemma phase_rank_inject [simp]: "phase_rank p = phase_rank q \<longleftrightarrow> p = q"
  by (cases p; cases q) simp_all

instantiation MatchPhase :: linorder
begin

definition less_eq_MatchPhase :: "MatchPhase \<Rightarrow> MatchPhase \<Rightarrow> bool" where
  "less_eq_MatchPhase p q \<longleftrightarrow> phase_rank p \<le> phase_rank q"

definition less_MatchPhase :: "MatchPhase \<Rightarrow> MatchPhase \<Rightarrow> bool" where
  "less_MatchPhase p q \<longleftrightarrow> phase_rank p < phase_rank q"

instance
  by standard (auto simp: less_eq_MatchPhase_def less_MatchPhase_def)

end

fun phase_offset :: "MatchDurations \<Rightarrow> MatchPhase \<Rightarrow> int" where
  "phase_offset d AutoTeleopGap = ns_of_ms (auto_period d)"
| "phase_offset d PhaseTeleop = ns_of_ms (auto_period d) + ns_of_ms (auto_teleop_gap d)"
| "phase_offset d MatchEnded =
     ns_of_ms (auto_period d) + ns_of_ms (auto_teleop_gap d) + ns_of_ms (teleop_period d)"
| "phase_offset d p = 0"

definition phase_at :: "MatchDurations \<Rightarrow> int \<Rightarrow> MatchPhase" where
  "phase_at d t =
    (if t < phase_offset d AutoTeleopGap then PhaseAuto
     else if t < phase_offset d PhaseTeleop then AutoTeleopGap
     else if t < phase_offset d MatchEnded then PhaseTeleop
     else MatchEnded)"

definition running :: "MatchPhase \<Rightarrow> bool" where
  "running p \<longleftrightarrow> p \<noteq> Idle \<and> p \<noteq> MatchEnded"

lemma running_simps [simp]:
  "\<not> running Idle" "\<not> running MatchEnded" "running PhaseAuto" "running AutoTeleopGap"
  "running PhaseTeleop"
  by (simp_all add: running_def)

lemma phase_command_simps [simp]:
  "phase_command PhaseAuto = (True, Auto)" "phase_command PhaseTeleop = (True, Teleop)"
  "phase_command Idle = (False, Unknown)" "phase_command AutoTeleopGap = (False, Unknown)"
  "phase_command MatchEnded = (False, Unknown)"
  by (simp_all add: phase_command_def)

text \<open>The state agrees with a phase: its command, and the seconds the controller computes.\<close>

definition shows_phase :: "int \<Rightarrow> MatchController \<times> DaemonState \<Rightarrow> bool" where
  "shows_phase now cs \<longleftrightarrow>
    (ds_enabled (snd cs), ds_mode (snd cs)) = phase_command (phase (fst cs)) \<and>
    ds_match_time_s (snd cs) = word_of_int (match_seconds now (fst cs))"

text \<open>The fields of the shared state that the controller never writes.\<close>

definition same_others :: "DaemonState \<Rightarrow> DaemonState \<Rightarrow> bool" where
  "same_others s t \<longleftrightarrow> ds_alliance t = ds_alliance s \<and> ds_e_stop t = ds_e_stop s"

section \<open>One operation at a time\<close>

lemma apply_phase_controller [simp]:
  "fst (apply_phase p cs) = (fst cs)\<lparr>phase := p\<rparr>"
  by (cases cs) (simp add: apply_phase_def)

lemma apply_phase_command [simp]:
  "ds_enabled (snd (apply_phase p cs)) = fst (phase_command p)"
  "ds_mode (snd (apply_phase p cs)) = snd (phase_command p)"
  "ds_match_time_s (snd (apply_phase p cs)) = ds_match_time_s (snd cs)"
  by (cases cs; cases p; simp add: apply_phase_def)+

lemma same_others_refl [simp]: "same_others s s"
  by (simp add: same_others_def)

lemma apply_phase_others [simp]: "same_others s (snd (apply_phase p (c, s)))"
  by (cases p) (simp_all add: apply_phase_def same_others_def)

lemma publish_match_time_controller [simp]: "fst (publish_match_time now cs) = fst cs"
  by (cases cs) (simp add: publish_match_time_def)

lemma publish_match_time_state [simp]:
  "snd (publish_match_time now cs) =
     set_match_time (word_of_int (match_seconds now (fst cs))) (snd cs)"
  by (cases cs) (simp add: publish_match_time_def)

lemma publish_apply_phase_shows: "shows_phase now (publish_match_time now (apply_phase p cs))"
  by (simp add: shows_phase_def)

lemma same_others_set_match_time [simp]: "same_others s (set_match_time t s') = same_others s s'"
  by (simp add: same_others_def)

lemma duration_for_update [simp]:
  "duration_for (c\<lparr>phase := p\<rparr>) = duration_for c"
  "duration_for (c\<lparr>match_start := m, phase_start := t\<rparr>) = duration_for c"
  "duration_for (c\<lparr>phase_start := t\<rparr>) = duration_for c"
  by (simp_all add: duration_for_def fun_eq_iff split: MatchPhase.split)

lemma duration_for_cong: "durations c' = durations c \<Longrightarrow> duration_for c' = duration_for c"
  by (simp add: duration_for_def fun_eq_iff split: MatchPhase.split)

text \<open>A tick, by cases: nothing to do, still inside the phase, or past its deadline.\<close>

lemma match_tick_not_running: "\<not> running (phase c) \<Longrightarrow> match_tick now (c, s) = (c, s)"
  by (auto simp: match_tick_def running_def)

lemma match_tick_inside:
  assumes "running (phase c)" "now - phase_start c < ns_of_ms (duration_for c (phase c))"
  shows "match_tick now (c, s) = publish_match_time now (apply_phase (phase c) (c, s))"
  using assms by (auto simp: match_tick_def running_def)

lemma match_tick_past:
  assumes "running (phase c)" "ns_of_ms (duration_for c (phase c)) \<le> now - phase_start c"
  shows "match_tick now (c, s) = publish_match_time now (apply_phase (next_phase (phase c))
    (c\<lparr>phase_start := phase_start c + ns_of_ms (duration_for c (phase c))\<rparr>, s))"
  using assms by (cases "phase c") (auto simp: match_tick_def)

lemma match_tick_cases [case_names idle inside past]:
  assumes "\<not> running (phase c) \<Longrightarrow> P (c, s)"
    and "running (phase c) \<Longrightarrow> now - phase_start c < ns_of_ms (duration_for c (phase c)) \<Longrightarrow>
      P (publish_match_time now (apply_phase (phase c) (c, s)))"
    and "running (phase c) \<Longrightarrow> ns_of_ms (duration_for c (phase c)) \<le> now - phase_start c \<Longrightarrow>
      P (publish_match_time now (apply_phase (next_phase (phase c))
          (c\<lparr>phase_start := phase_start c + ns_of_ms (duration_for c (phase c))\<rparr>, s)))"
  shows "P (match_tick now (c, s))"
  using assms match_tick_not_running match_tick_inside match_tick_past
  by (metis linorder_not_le)

lemma match_tick_durations [simp]: "durations (fst (match_tick now cs)) = durations (fst cs)"
  by (cases cs) (simp, rule match_tick_cases, simp_all)

lemma match_tick_match_start [simp]: "match_start (fst (match_tick now cs)) = match_start (fst cs)"
  by (cases cs) (simp, rule match_tick_cases, simp_all)

lemma match_tick_others: "same_others s (snd (match_tick now (c, s)))"
  by (rule match_tick_cases) simp_all

lemma match_tick_shows:
  assumes "running (phase c)"
  shows "shows_phase now (match_tick now (c, s))"
  using assms
  by (cases "now - phase_start c < ns_of_ms (duration_for c (phase c))")
    (simp_all only: match_tick_inside match_tick_past linorder_not_less publish_apply_phase_shows)


section \<open>No drift: every phase starts on the schedule of its match\<close>

text \<open>
  Whatever the delays of the ticks, a phase's start is the match start plus the configured
  lengths of the phases before it. \<open>skip_to_teleop\<close> back-dates the match start to keep this.
\<close>

definition aligned :: "MatchController \<Rightarrow> bool" where
  "aligned c \<longleftrightarrow>
    phase c = Idle \<or> phase_start c = match_start c + phase_offset (durations c) (phase c)"

lemma phase_offset_next:
  "running p \<Longrightarrow> p = phase c \<Longrightarrow>
     phase_offset (durations c) (next_phase p) =
       phase_offset (durations c) p + ns_of_ms (duration_for c p)"
  by (cases p) (auto simp: duration_for_def)

lemma match_tick_aligned:
  assumes "aligned (fst cs)"
  shows "aligned (fst (match_tick now cs))"
proof (cases cs)
  case (Pair c s)
  show ?thesis unfolding Pair
  proof (rule match_tick_cases)
    assume r: "running (phase c)"
    then have "phase c \<noteq> Idle" by auto
    with assms Pair have "phase_start c = match_start c + phase_offset (durations c) (phase c)"
      by (simp add: aligned_def)
    with r show "aligned (fst (publish_match_time now (apply_phase (next_phase (phase c))
        (c\<lparr>phase_start := phase_start c + ns_of_ms (duration_for c (phase c))\<rparr>, s))))"
      by (simp add: aligned_def phase_offset_next)
  qed (use assms Pair in \<open>simp_all add: aligned_def\<close>)
qed

lemma start_match_controller [simp]:
  "fst (start_match now cs) =
     (fst cs)\<lparr>match_start := now, phase_start := now, phase := PhaseAuto\<rparr>"
  by (cases cs) (simp add: start_match_def)

lemma skip_to_teleop_controller [simp]:
  "fst (skip_to_teleop now cs) =
     (fst cs)\<lparr>match_start := now - phase_offset (durations (fst cs)) PhaseTeleop,
              phase_start := now, phase := PhaseTeleop\<rparr>"
  by (cases cs) (simp add: skip_to_teleop_def Let_def algebra_simps)

lemma stop_match_controller [simp]:
  "fst (stop_match cs) = (fst cs)\<lparr>match_start := 0, phase_start := 0, phase := Idle\<rparr>"
  by (cases cs) (simp add: stop_match_def apply_phase_def)

lemma match_step_aligned: "aligned (fst cs) \<Longrightarrow> aligned (fst (match_step e cs))"
proof (cases e)
  case (Tick now)
  then show "aligned (fst cs) \<Longrightarrow> ?thesis" by (simp add: match_tick_aligned)
qed (simp_all add: aligned_def)

lemma match_step_durations [simp]: "durations (fst (match_step e cs)) = durations (fst cs)"
  by (cases e) simp_all

definition fresh_match :: "MatchDurations \<Rightarrow> MatchController \<times> DaemonState \<Rightarrow> bool" where
  "fresh_match d cs \<longleftrightarrow> fst cs = new_match_controller d"

text \<open>\<open>idle_zero\<close>: an idle controller has forgotten its match.\<close>

definition match_inv :: "MatchDurations \<Rightarrow> MatchController \<times> DaemonState \<Rightarrow> bool" where
  "match_inv d cs \<longleftrightarrow> durations (fst cs) = d \<and> aligned (fst cs) \<and>
    (phase (fst cs) = Idle \<longrightarrow> match_start (fst cs) = 0 \<and> phase_start (fst cs) = 0)"

lemma next_phase_not_idle: "running p \<Longrightarrow> next_phase p \<noteq> Idle"
  by (cases p) auto

lemma match_step_idle_zero:
  assumes "phase (fst cs) = Idle \<longrightarrow> match_start (fst cs) = 0 \<and> phase_start (fst cs) = 0"
    and "phase (fst (match_step e cs)) = Idle"
  shows "match_start (fst (match_step e cs)) = 0 \<and> phase_start (fst (match_step e cs)) = 0"
proof (cases e)
  case (Tick now)
  obtain c s where cs: "cs = (c, s)" by (cases cs)
  have "\<not> running (phase c)"
  proof
    assume r: "running (phase c)"
    then have "phase (fst (match_tick now (c, s))) \<noteq> Idle"
      by (rule_tac match_tick_cases) (auto dest: next_phase_not_idle)
    with assms(2) Tick cs show False by simp
  qed
  with assms Tick cs show ?thesis by (simp add: match_tick_not_running)
qed (use assms in simp_all)

interpretation mc: event_machine "fresh_match d" match_step "match_inv d" for d
proof unfold_locales
  show "fresh_match d cs \<Longrightarrow> match_inv d cs" for cs
    by (simp add: fresh_match_def match_inv_def new_match_controller_def aligned_def)
  show "match_inv d cs \<Longrightarrow> match_inv d (match_step e cs)" for e cs
    unfolding match_inv_def
    using match_step_idle_zero [of cs e] match_step_aligned [of cs e] match_step_durations [of e cs]
    by simp
qed


section \<open>Refinement of the ideal schedule\<close>

definition durations_ok :: "MatchDurations \<Rightarrow> bool" where
  "durations_ok d \<longleftrightarrow> 0 \<le> auto_period d \<and> 0 \<le> auto_teleop_gap d \<and> 0 \<le> teleop_period d"

text \<open>Instants that follow each other, starting at \<open>p\<close>, at most \<open>g\<close> nanoseconds apart.\<close>

fun spaced :: "int \<Rightarrow> int \<Rightarrow> int list \<Rightarrow> bool" where
  "spaced g p [] \<longleftrightarrow> True"
| "spaced g p (t # ts) \<longleftrightarrow> p \<le> t \<and> t - p \<le> g \<and> spaced g t ts"

text \<open>Events of a match nobody restarts, stops or skips: ticks and foreign writes.\<close>

definition undisturbed :: "match_event \<Rightarrow> bool" where
  "undisturbed e \<longleftrightarrow> (case e of Tick _ \<Rightarrow> True | Manual _ \<Rightarrow> True | _ \<Rightarrow> False)"

lemma undisturbed_simps [simp]:
  "undisturbed (Tick t)" "undisturbed (Manual w)" "\<not> undisturbed (StartMatch t)"
  "\<not> undisturbed StopMatch" "\<not> undisturbed (SkipToTeleop t)"
  by (simp_all add: undisturbed_def)

lemma undisturbed_cases [consumes 1, case_names Tick Manual]:
  assumes "undisturbed e"
  obtains t where "e = Tick t" | w where "e = Manual w"
  using assms by (cases e) auto

fun tick_times :: "match_event list \<Rightarrow> int list" where
  "tick_times [] = []"
| "tick_times (Tick t # es) = t # tick_times es"
| "tick_times (_ # es) = tick_times es"

lemma tick_times_append: "tick_times (es @ fs) = tick_times es @ tick_times fs"
  by (induction es rule: tick_times.induct) simp_all

lemma undisturbed_match_start [simp]:
  "undisturbed e \<Longrightarrow> match_start (fst (match_step e cs)) = match_start (fst cs)"
  by (cases e rule: undisturbed_cases) simp_all

lemma phase_at_bounds:
  assumes "durations_ok d"
  shows "phase_at d t = PhaseAuto \<longleftrightarrow> t < phase_offset d AutoTeleopGap"
    and "phase_at d t = AutoTeleopGap \<longleftrightarrow>
      phase_offset d AutoTeleopGap \<le> t \<and> t < phase_offset d PhaseTeleop"
    and "phase_at d t = PhaseTeleop \<longleftrightarrow>
      phase_offset d PhaseTeleop \<le> t \<and> t < phase_offset d MatchEnded"
    and "phase_at d t = MatchEnded \<longleftrightarrow> phase_offset d MatchEnded \<le> t"
    and "phase_at d t \<noteq> Idle"
  using assms by (auto simp: phase_at_def durations_ok_def ns_of_ms_def)

lemma match_tick_phase:
  "phase (fst (match_tick now (c, s))) =
     (if running (phase c) \<and> ns_of_ms (duration_for c (phase c)) \<le> now - phase_start c
      then next_phase (phase c) else phase c)"
  by (rule match_tick_cases) auto

lemma match_tick_refines:
  assumes d: "durations_ok (durations c)" and al: "aligned c"
    and ph: "phase c = phase_at (durations c) (p - match_start c)"
    and now: "p \<le> now" "now - p \<le> ns_of_ms (auto_teleop_gap (durations c))"
      "now - p \<le> ns_of_ms (teleop_period (durations c))"
  shows "phase (fst (match_tick now (c, s))) = phase_at (durations c) (now - match_start c)"
proof -
  note at = phase_at_bounds[OF d]
  have start: "phase_start c = match_start c + phase_offset (durations c) (phase c)"
    using al ph at(5) by (auto simp: aligned_def)
  show ?thesis
    by (cases "phase c")
      (use start ph now at(1-4) [of "p - match_start c"] at(1-4) [of "now - match_start c"]
        at(5) [of "p - match_start c"]
       in \<open>auto simp: match_tick_phase duration_for_def ns_of_ms_def\<close>)
qed

lemma match_run_refines:
  assumes "durations_ok (durations (fst cs))" "aligned (fst cs)"
    and "phase (fst cs) = phase_at (durations (fst cs)) (p - match_start (fst cs))"
    and "list_all undisturbed es" "spaced g p (tick_times es)"
    and "g \<le> ns_of_ms (auto_teleop_gap (durations (fst cs)))"
      "g \<le> ns_of_ms (teleop_period (durations (fst cs)))"
  shows "phase (fst (fold match_step es cs)) =
    phase_at (durations (fst cs)) (last (p # tick_times es) - match_start (fst cs))"
  using assms
proof (induction es arbitrary: cs p)
  case Nil
  then show ?case by simp
next
  case (Cons e es)
  obtain c s where cs: "cs = (c, s)" by (cases cs)
  from Cons.prems(4) have "undisturbed e" by simp
  then show ?case
  proof (cases e rule: undisturbed_cases)
    case (Tick t)
    with Cons.prems cs have "phase (fst (match_tick t (c, s))) = phase_at (durations c) (t - match_start c)"
      by (intro match_tick_refines [where p = p]) auto
    with Cons.IH [of "match_tick t (c, s)" t] Cons.prems cs Tick
    show ?thesis by (simp add: match_tick_aligned)
  next
    case (Manual w)
    with Cons.IH [of "(c, apply_write w s)" p] Cons.prems cs
    show ?thesis by simp
  qed
qed

lemma undisturbed_fold [simp]:
  "list_all undisturbed es \<Longrightarrow> match_start (fst (fold match_step es cs)) = match_start (fst cs)"
  "durations (fst (fold match_step es cs)) = durations (fst cs)"
  by (induction es arbitrary: cs) simp_all

section \<open>Progress: an overdue match ends\<close>

lemma phase_at_mono:
  assumes "durations_ok d" "a \<le> b"
  shows "phase_at d a \<le> phase_at d b"
  using assms by (auto simp: phase_at_def durations_ok_def ns_of_ms_def less_eq_MatchPhase_def)

lemma phase_rank_next: "running p \<Longrightarrow> phase_rank (next_phase p) = Suc (phase_rank p)"
  by (cases p) auto

lemma phase_rank_MatchEnded: "phase_rank p = 4 \<longleftrightarrow> p = MatchEnded"
  by (cases p) auto

lemma phase_rank_le: "phase_rank p \<le> 4"
  by (cases p) auto

lemma phase_end_le:
  assumes "durations_ok d" "running p" "p = phase c" "d = durations c"
  shows "phase_offset d p + ns_of_ms (duration_for c p) \<le> phase_offset d MatchEnded"
  using assms by (cases p) (auto simp: duration_for_def durations_ok_def ns_of_ms_def)

lemma overdue_tick_advances:
  assumes d: "durations_ok (durations c)" and al: "aligned c" and r: "running (phase c)"
    and late: "match_start c + phase_offset (durations c) MatchEnded \<le> now"
  shows "phase (fst (match_tick now (c, s))) = next_phase (phase c)"
proof -
  from r have "phase c \<noteq> Idle" by auto
  with al have "phase_start c = match_start c + phase_offset (durations c) (phase c)"
    by (simp add: aligned_def)
  with phase_end_le [OF d r refl refl] late r show ?thesis
    by (simp add: match_tick_phase)
qed

lemma overdue_match_ends:
  assumes "durations_ok (durations (fst cs))" "aligned (fst cs)" "phase (fst cs) \<noteq> Idle"
    and "list_all undisturbed es"
    and "list_all (\<lambda>t. match_start (fst cs) + phase_offset (durations (fst cs)) MatchEnded \<le> t)
      (tick_times es)"
    and "4 \<le> phase_rank (phase (fst cs)) + length (tick_times es)"
  shows "phase (fst (fold match_step es cs)) = MatchEnded"
  using assms
proof (induction es arbitrary: cs)
  case Nil
  then show ?case using phase_rank_MatchEnded phase_rank_le [of "phase (fst cs)"] by auto
next
  case (Cons e es)
  obtain c s where cs: "cs = (c, s)" by (cases cs)
  from Cons.prems(4) have "undisturbed e" by simp
  then show ?case
  proof (cases e rule: undisturbed_cases)
    case (Tick t)
    show ?thesis
    proof (cases "running (phase c)")
      case True
      with Cons.prems cs Tick have "phase (fst (match_tick t (c, s))) = next_phase (phase c)"
        by (intro overdue_tick_advances) auto
      with Cons.IH [of "match_tick t (c, s)"] Cons.prems cs Tick True phase_rank_next
      show ?thesis by (simp add: match_tick_aligned next_phase_not_idle)
    next
      case False
      with Cons.prems(3) cs have "phase c = MatchEnded" by (auto simp: running_def)
      moreover from this have "match_tick t (c, s) = (c, s)" by (simp add: match_tick_not_running)
      ultimately show ?thesis
        using Cons.IH [of "(c, s)"] Cons.prems cs Tick by simp
    qed
  next
    case (Manual w)
    with Cons.IH [of "(c, apply_write w s)"] Cons.prems cs
    show ?thesis by simp
  qed
qed


section \<open>Who owns the shared state while no match runs\<close>

fun foreign_writes :: "match_event list \<Rightarrow> state_write list" where
  "foreign_writes [] = []"
| "foreign_writes (Manual w # es) = w # foreign_writes es"
| "foreign_writes (_ # es) = foreign_writes es"

lemma not_running_fold:
  assumes "\<not> running (phase c)" "list_all undisturbed es"
  shows "fold match_step es (c, s) = (c, fold apply_write (foreign_writes es) s)"
  using assms(2)
proof (induction es arbitrary: s)
  case (Cons e es)
  from Cons.prems have "undisturbed e" by simp
  then show ?case
    by (cases e rule: undisturbed_cases)
      (use Cons match_tick_not_running [OF assms(1)] in auto)
qed simp

section \<open>The remaining time\<close>

definition time_left :: "int \<Rightarrow> MatchController \<Rightarrow> int" where
  "time_left now c = max 0 (phase_start c + ns_of_ms (duration_for c (phase c)) - now)"

lemma match_seconds_enabled:
  "phase c = PhaseAuto \<or> phase c = PhaseTeleop \<Longrightarrow> match_seconds now c = ceil_s (time_left now c)"
  by (auto simp: match_seconds_def time_left_def Let_def max_def)
    (simp_all add: algebra_simps)

lemma match_seconds_range:
  assumes "phase c = PhaseAuto \<or> phase c = PhaseTeleop" "phase_start c \<le> now"
    and "0 \<le> duration_for c (phase c)" "duration_for c (phase c) \<le> 2147483647000"
  shows "0 \<le> match_seconds now c" and "match_seconds now c < 2147483648"
proof -
  have "time_left now c \<le> 2147483647 * 1000000000"
    using assms(2-4) by (auto simp: time_left_def ns_of_ms_def)
  then show "0 \<le> match_seconds now c" and "match_seconds now c < 2147483648"
    using ceil_s_le [of "time_left now c" 2147483647] ceil_s_nonneg [of "time_left now c"]
    by (auto simp: match_seconds_enabled [OF assms(1)] time_left_def)
qed

lemma match_tick_phase_start_le:
  assumes "running (phase c)" "phase_start c \<le> now"
  shows "phase_start (fst (match_tick now (c, s))) \<le> now"
  using assms(2) by (rule_tac match_tick_cases) auto

lemma published_seconds:
  assumes "shows_phase now cs" "phase (fst cs) = PhaseAuto \<or> phase (fst cs) = PhaseTeleop"
    and "phase_start (fst cs) \<le> now"
    and "0 \<le> duration_for (fst cs) (phase (fst cs))"
      "duration_for (fst cs) (phase (fst cs)) \<le> 2147483647000"
  shows "sint (ds_match_time_s (snd cs)) = ceil_s (time_left now (fst cs))"
  using assms match_seconds_range [OF assms(2-5)]
  by (simp add: shows_phase_def sint_word_of_int_32 match_seconds_enabled)

section \<open>Properties\<close>


definition short_match :: MatchDurations where
  "short_match = \<lparr>auto_period = 2000, auto_teleop_gap = 1000, teleop_period = 3000\<rparr>"



text \<open>
  C18 (invariant): after any sequence of starts, stops, skips, ticks (at any instants, however
  late) and foreign writes, the current phase started exactly at the match start plus the
  configured lengths of the phases before it: delays never accumulate.
\<close>

theorem match_no_drift:
  "let c = fst (fold match_step es (new_match_controller d, s)) in
     phase c = Idle \<or> phase_start c = match_start c + phase_offset d (phase c)"
  using mc.inv_run [of d "(new_match_controller d, s)" es]
  by (auto simp: fresh_match_def match_inv_def aligned_def Let_def)

lemma phase_start_le_now:
  assumes "list_all undisturbed es" "phase_start (fst cs) \<le> p" "sorted (p # tick_times es)"
  shows "phase_start (fst (fold match_step es cs)) \<le> last (p # tick_times es)"
  using assms
proof (induction es arbitrary: cs p)
  case (Cons e es)
  obtain c s where cs: "cs = (c, s)" by (cases cs)
  from Cons.prems(1) have "undisturbed e" by simp
  then show ?case
  proof (cases e rule: undisturbed_cases)
    case (Tick t)
    with Cons.prems cs have "phase_start (fst (match_tick t (c, s))) \<le> t"
      by (cases "running (phase c)")
        (auto simp: match_tick_not_running intro: match_tick_phase_start_le)
    with Cons.IH [of "match_tick t (c, s)" t] Cons.prems cs Tick show ?thesis by simp
  next
    case (Manual w)
    with Cons.IH [of "(c, apply_write w s)" p] Cons.prems cs show ?thesis by simp
  qed
qed simp

lemma match_fold_aligned: "aligned (fst cs) \<Longrightarrow> aligned (fst (fold match_step es cs))"
  by (induction es arbitrary: cs) (simp_all add: match_step_aligned)

lemma phase_rank_at:
  assumes "durations_ok d" "p \<noteq> Idle" "phase_offset d p \<le> t"
  shows "phase_rank p \<le> phase_rank (phase_at d t)"
  using assms by (cases p) (auto simp: phase_at_def durations_ok_def ns_of_ms_def)

lemma match_step_not_idle:
  "undisturbed e \<Longrightarrow> phase (fst cs) \<noteq> Idle \<Longrightarrow> phase (fst (match_step e cs)) \<noteq> Idle"
  by (cases e rule: undisturbed_cases; cases cs)
    (auto simp: match_tick_phase next_phase_not_idle)

lemma match_fold_not_idle:
  "list_all undisturbed es \<Longrightarrow> phase (fst cs) \<noteq> Idle \<Longrightarrow>
     phase (fst (fold match_step es cs)) \<noteq> Idle"
  by (induction es arbitrary: cs) (simp_all add: match_step_not_idle)

text \<open>
  However late the ticks come, the phase shown is never ahead of the ideal
  schedule: teleop is never enabled early, and the match never ends early.
\<close>

theorem match_never_early:
  assumes "durations_ok (durations c)" "list_all undisturbed es" "sorted (t0 # tick_times es)"
  shows "phase_rank (phase (fst (fold match_step (StartMatch t0 # es) (c, s))))
    \<le> phase_rank (phase_at (durations c) (last (t0 # tick_times es) - t0))"
proof -
  let ?st = "start_match t0 (c, s)"
  let ?c = "fst (fold match_step es ?st)"
  have al: "aligned ?c" and ni: "phase ?c \<noteq> Idle"
    using match_fold_aligned [of ?st es] match_fold_not_idle [OF assms(2), of ?st]
    by (simp_all add: aligned_def)
  have "phase_start ?c \<le> last (t0 # tick_times es)"
    using assms by (intro phase_start_le_now) auto
  with al ni assms(2) have "phase_offset (durations c) (phase ?c) \<le> last (t0 # tick_times es) - t0"
    by (simp add: aligned_def)
  with phase_rank_at [OF assms(1) ni] show ?thesis by simp
qed

lemma match_never_early_witness:
  "phase_rank (phase (fst (fold match_step (StartMatch 5 # [Tick 1500000005, Tick 9000000005])
     (new_match_controller short_match, initial_daemon_state)))) \<le> 4"
  using match_never_early [of "new_match_controller short_match" "[Tick 1500000005, Tick 9000000005]"
    5 initial_daemon_state]
  by (simp add: new_match_controller_def short_match_def ns_of_ms_def phase_at_def durations_ok_def)

text \<open>
  A tick of a running match writes the enable bit and mode of the resulting
  phase and its remaining time, whatever the shared state held before (a manual override is
  undone), and leaves alliance and e-stop alone.
\<close>

theorem match_tick_reasserts:
  assumes "running (phase c)"
  shows "let (c', s') = match_tick now (c, s) in
    phase c' \<in> {phase c, next_phase (phase c)} \<and>
    (ds_enabled s', ds_mode s') = phase_command (phase c') \<and>
    ds_match_time_s s' = word_of_int (match_seconds now c') \<and>
    ds_alliance s' = ds_alliance s \<and> ds_e_stop s' = ds_e_stop s"
  using match_tick_shows [OF assms, of now s] match_tick_others [of s now c]
    match_tick_phase [of now c s]
  by (auto simp: shows_phase_def same_others_def split: prod.splits if_splits)

definition short_auto :: MatchController where
  "short_auto = \<lparr>durations = short_match, phase = PhaseAuto, match_start = 0, phase_start = 0\<rparr>"

lemma match_tick_reasserts_witness:
  "let (c', s') = match_tick 100 (short_auto, initial_daemon_state)
   in ds_enabled s' \<and> ds_mode s' = Auto"
  using match_tick_reasserts [of short_auto 100 initial_daemon_state]
    match_tick_phase [of 100 short_auto initial_daemon_state]
  by (auto simp: short_auto_def short_match_def duration_for_def ns_of_ms_def
      split: prod.splits)

text \<open>
  C38 (liveness): once the scheduled end is past, at most three more ticks take a match from
  any phase to \<open>MatchEnded\<close>, and it stays there, whatever is written to the shared state.
\<close>

theorem match_ends:
  assumes "durations_ok (durations (fst cs))" "aligned (fst cs)" "phase (fst cs) \<noteq> Idle"
    and "list_all undisturbed es" "3 \<le> length (tick_times es)"
    and "list_all (\<lambda>t. match_start (fst cs) + phase_offset (durations (fst cs)) MatchEnded \<le> t)
      (tick_times es)"
  shows "phase (fst (fold match_step es cs)) = MatchEnded"
proof -
  have "1 \<le> phase_rank (phase (fst cs))"
    using assms(3) by (cases "phase (fst cs)") auto
  with assms show ?thesis by (intro overdue_match_ends) auto
qed

lemma match_ends_witness:
  "phase (fst (fold match_step
     [Tick 6000000001, Manual (SetEnabled True), Tick 6000000002, Tick 7000000000]
     (start_match 1 (new_match_controller short_match, initial_daemon_state)))) = MatchEnded"
  by (rule match_ends)
    (simp_all add: new_match_controller_def short_match_def durations_ok_def aligned_def ns_of_ms_def)

text \<open>
  \<open>skip_to_teleop\<close> is a fast-forward: it leaves both objects exactly as a
  match started one auto period and one gap earlier and ticked at its two deadlines would.
\<close>

theorem skip_to_teleop_is_fast_forward:
  "skip_to_teleop now (c, s) =
     match_tick now
       (match_tick (now - ns_of_ms (auto_teleop_gap (durations c)))
         (start_match (now - ns_of_ms (auto_period (durations c))
             - ns_of_ms (auto_teleop_gap (durations c))) (c, s)))"
  by (simp add: skip_to_teleop_def match_tick_def start_match_def apply_phase_def
      publish_match_time_def duration_for_def match_seconds_def Let_def daemon_state_defs)

text \<open>
  While no match is running the controller is a bystander: any interleaving of
  ticks and foreign writes leaves the controller as it was and the shared state as the
  foreign writes alone make it. This holds in \<open>MatchEnded\<close> as well as in \<open>Idle\<close>.
\<close>

theorem manual_control_owns_state:
  assumes "phase c \<in> {Idle, MatchEnded}" "list_all undisturbed es"
  shows "fold match_step es (c, s) = (c, fold apply_write (foreign_writes es) s)"
  using assms by (intro not_running_fold) (auto simp: running_def)

lemma manual_control_owns_state_witness:
  "ds_enabled (snd (fold match_step [Tick 5, Manual (SetEnabled True), Tick 9]
     (new_match_controller short_match, initial_daemon_state)))"
  using manual_control_owns_state [of "new_match_controller short_match"
    "[Tick 5, Manual (SetEnabled True), Tick 9]" initial_daemon_state]
  by (simp add: new_match_controller_def)

text \<open>
  In an enabled phase the published match time is the exact number of whole
  seconds left, rounded up, never negative, and zero only when the phase is used up; the
  conversion to \<open>int32_t\<close> loses nothing for periods up to \<open>2^31 - 1\<close> seconds.
\<close>

theorem match_time_is_ceiling:
  assumes "running (phase c)" "phase_start c \<le> now"
    and "cs' = match_tick now (c, s)" "phase (fst cs') \<in> {PhaseAuto, PhaseTeleop}"
    and "0 \<le> duration_for c (phase (fst cs'))" "duration_for c (phase (fst cs')) \<le> 2147483647000"
  shows "let left = time_left now (fst cs'); secs = sint (ds_match_time_s (snd cs')) in
    0 \<le> secs \<and> left \<le> secs * 1000000000 \<and> secs * 1000000000 < left + 1000000000
    \<and> (secs = 0 \<longleftrightarrow> left = 0)"
proof -
  have sh: "shows_phase now cs'" and le: "phase_start (fst cs') \<le> now"
    using assms match_tick_shows match_tick_phase_start_le by auto
  have "durations (fst cs') = durations c" using assms(3) by simp
  then have "duration_for (fst cs') = duration_for c" by (rule duration_for_cong)
  then have "sint (ds_match_time_s (snd cs')) = ceil_s (time_left now (fst cs'))"
    using published_seconds [OF sh _ le] assms(4-6) by auto
  moreover have "0 \<le> time_left now (fst cs')" by (simp add: time_left_def)
  ultimately show ?thesis
    using ceil_s_bounds [of "time_left now (fst cs')"] ceil_s_nonneg [of "time_left now (fst cs')"]
      ceil_s_pos_iff [of "time_left now (fst cs')"]
    by (auto simp: Let_def)
qed

lemma match_time_is_ceiling_witness:
  "sint (ds_match_time_s (snd (match_tick 1500000000 (short_auto, initial_daemon_state)))) = 1"
proof -
  have ph: "phase (fst (match_tick 1500000000 (short_auto, initial_daemon_state))) = PhaseAuto"
    by (simp add: match_tick_phase short_auto_def duration_for_def short_match_def ns_of_ms_def)
  have "time_left 1500000000 (fst (match_tick 1500000000 (short_auto, initial_daemon_state)))
      = 500000000"
    by (simp add: time_left_def match_tick_def short_auto_def duration_for_def short_match_def
        ns_of_ms_def)
  with ph show ?thesis
    using match_time_is_ceiling [where c = short_auto and now = 1500000000
      and s = initial_daemon_state, OF _ _ refl]
    by (simp add: short_auto_def duration_for_def short_match_def Let_def)
qed

lemma cast_ms_add: "0 \<le> t \<Longrightarrow> 0 \<le> ms \<Longrightarrow> cast_ms (ns_of_ms ms + t) = ms + cast_ms t"
  by (simp add: cast_ms_def ns_of_ms_def cdiv_nonneg)

lemma phase_offset_ms:
  assumes "durations_ok d"
  shows "\<exists>ms \<ge> 0. phase_offset d p = ns_of_ms ms"
proof -
  define ms where "ms = (case p of
      AutoTeleopGap \<Rightarrow> auto_period d
    | PhaseTeleop \<Rightarrow> auto_period d + auto_teleop_gap d
    | MatchEnded \<Rightarrow> auto_period d + auto_teleop_gap d + teleop_period d
    | _ \<Rightarrow> 0)"
  have "phase_offset d p = ns_of_ms ms" and "0 \<le> ms"
    using assms by (cases p; simp add: ms_def ns_of_ms_def durations_ok_def)+
  then show ?thesis by blast
qed

text \<open>
  The times of a status snapshot fit together: inside an unexpired phase the
  elapsed and remaining milliseconds add up to the configured length, past it the remaining
  time is 0, and the total is the phase's scheduled offset plus the time elapsed in it.
\<close>

theorem match_snapshot_consistent:
  assumes "durations_ok (durations c)" "aligned c" "phase c \<noteq> Idle" "phase_start c \<le> now"
  shows "let sn = match_snapshot now c; len = duration_for c (phase c) in
    sn_phase sn = phase c \<and> 0 \<le> elapsed_in_phase sn \<and> 0 \<le> remaining_in_phase sn \<and>
    (if now - phase_start c \<le> ns_of_ms len then elapsed_in_phase sn + remaining_in_phase sn = len
     else remaining_in_phase sn = 0) \<and>
    ns_of_ms (total_elapsed sn) =
      phase_offset (durations c) (phase c) + ns_of_ms (elapsed_in_phase sn)"
proof -
  define t where "t = now - phase_start c"
  have t: "0 \<le> t" using assms(4) by (simp add: t_def)
  obtain ms where ms: "0 \<le> ms" "phase_offset (durations c) (phase c) = ns_of_ms ms"
    using phase_offset_ms [OF assms(1)] by blast
  have "now - match_start c = ns_of_ms ms + t"
    using assms(2,3) ms by (simp add: aligned_def t_def)
  then have total: "cast_ms (now - match_start c) = ms + cast_ms t"
    using t ms by (simp add: cast_ms_add)
  define len where "len = duration_for c (phase c)"
  have le: "t \<le> ns_of_ms len \<Longrightarrow> cast_ms t \<le> len"
    using cast_ms_mono [OF t, of "ns_of_ms len"] by simp
  have ge: "\<not> t \<le> ns_of_ms len \<Longrightarrow> len \<le> cast_ms t"
    using cast_ms_bounds(2) [OF t] by (auto simp: ns_of_ms_def)
  show ?thesis
    using assms(3) le ge total ms cast_ms_nonneg [OF t]
    by (simp add: match_snapshot_def Let_def flip: t_def len_def) (auto simp: ns_of_ms_def)
qed

lemma match_snapshot_consistent_witness:
  "total_elapsed (match_snapshot 500000000 short_auto) = 500
   \<and> elapsed_in_phase (match_snapshot 500000000 short_auto)
     + remaining_in_phase (match_snapshot 500000000 short_auto) = 2000"
  using match_snapshot_consistent [of short_auto 500000000]
  by (simp add: short_auto_def short_match_def durations_ok_def aligned_def duration_for_def
      ns_of_ms_def Let_def match_snapshot_def cast_ms_def cdiv_nonneg)

end
