(* ===== verification/Gpio_Backend.thy ===== *)
theory Gpio_Backend
  imports Surrogate_Prelude
begin

text \<open>
  The GPIO interface \<open>IGpioBackend\<close> of smartio_state.hpp as a record of operations (the
  virtual table), the laws a client may rely on as locales, and the two providers of the
  repository: the no-op backend and the libgpiod backend. The libgpiod library itself is
  outside src/ and enters as a function that answers each call from the history of calls.
\<close>

section \<open>The interface\<close>

record 'b IGpioBackend =
  release_line :: "i32 \<Rightarrow> ('b, unit) act"
  request_input :: "i32 \<Rightarrow> ('b, unit) act"
  request_output :: "i32 \<Rightarrow> bool \<Rightarrow> ('b, unit) act"
  set_value :: "i32 \<Rightarrow> bool \<Rightarrow> ('b, unit) act"
  get_value :: "i32 \<Rightarrow> ('b, bool) act"

text \<open>What a GPIO line is used for: nothing (\<open>None\<close>), an input, or an output at a level.\<close>

datatype line_use = UseInput | UseOutput bool

definition drive :: "i32 \<Rightarrow> bool \<Rightarrow> (i32 \<rightharpoonup> line_use) \<Rightarrow> (i32 \<rightharpoonup> line_use)" where
  "drive g v u = (case u g of Some (UseOutput _) \<Rightarrow> u(g \<mapsto> UseOutput v) | _ \<Rightarrow> u)"

lemma drive_other [simp]: "h \<noteq> g \<Longrightarrow> drive g v u h = u h"
  by (auto simp: drive_def split: option.splits line_use.splits)

lemma drive_output [simp]: "u g = Some (UseOutput w) \<Longrightarrow> drive g v u g = Some (UseOutput v)"
  by (simp add: drive_def)

lemma drive_None: "drive g v u g = None \<longleftrightarrow> u g = None"
  by (auto simp: drive_def split: option.splits line_use.splits)

text \<open>
  The weak contract, enough for safety: an operation touches no line but its own; a line
  is in no use other than the last one asked for; a call that throws leaves every other
  line alone.
\<close>

locale gpio_backend =
  fixes B :: "'b IGpioBackend"
    and uses :: "'b \<Rightarrow> i32 \<rightharpoonup> line_use"
    and invar :: "'b \<Rightarrow> bool"
  assumes release_law: "invar b \<Longrightarrow> release_line B g b = (Inr ok, b') \<Longrightarrow>
      invar b' \<and> uses b' = (uses b)(g := None)"
    and input_law: "invar b \<Longrightarrow> request_input B g b = (Inr ok, b') \<Longrightarrow>
      invar b' \<and> (\<exists>u \<in> {None, Some UseInput}. uses b' = (uses b)(g := u))"
    and output_law: "invar b \<Longrightarrow> request_output B g v b = (Inr ok, b') \<Longrightarrow>
      invar b' \<and> (\<exists>u \<in> {None, Some (UseOutput v)}. uses b' = (uses b)(g := u))"
    and set_law: "invar b \<Longrightarrow> set_value B g v b = (Inr ok, b') \<Longrightarrow>
      invar b' \<and> uses b' = drive g v (uses b)"
    and get_law: "invar b \<Longrightarrow> get_value B g b = (Inr x, b') \<Longrightarrow> invar b' \<and> uses b' = uses b"
    and release_throw: "invar b \<Longrightarrow> release_line B g b = (Inl e, b') \<Longrightarrow>
      invar b' \<and> (\<exists>u. uses b' = (uses b)(g := u))"
    and input_throw: "invar b \<Longrightarrow> request_input B g b = (Inl e, b') \<Longrightarrow>
      invar b' \<and> (\<exists>u. uses b' = (uses b)(g := u))"
    and output_throw: "invar b \<Longrightarrow> request_output B g v b = (Inl e, b') \<Longrightarrow>
      invar b' \<and> (\<exists>u. uses b' = (uses b)(g := u))"
    and set_throw: "invar b \<Longrightarrow> set_value B g v b = (Inl e, b') \<Longrightarrow>
      invar b' \<and> uses b' = uses b"
    and get_throw: "invar b \<Longrightarrow> get_value B g b = (Inl e, b') \<Longrightarrow> invar b' \<and> uses b' = uses b"

text \<open>The full contract: a request that returns has really taken the line.\<close>

locale gpio_driver = gpio_backend +
  assumes input_takes: "invar b \<Longrightarrow> request_input B g b = (Inr ok, b') \<Longrightarrow> uses b' g \<noteq> None"
    and output_takes: "invar b \<Longrightarrow> request_output B g v b = (Inr ok, b') \<Longrightarrow> uses b' g \<noteq> None"
begin

lemma input_exact:
  assumes "invar b" "request_input B g b = (Inr ok, b')"
  shows "uses b' = (uses b)(g \<mapsto> UseInput)"
proof -
  from input_law [OF assms] obtain u where
    "u \<in> {None, Some UseInput}" "uses b' = (uses b)(g := u)" by blast
  with input_takes [OF assms] show ?thesis by auto
qed

lemma output_exact:
  assumes "invar b" "request_output B g v b = (Inr ok, b')"
  shows "uses b' = (uses b)(g \<mapsto> UseOutput v)"
proof -
  from output_law [OF assms] obtain u where
    "u \<in> {None, Some (UseOutput v)}" "uses b' = (uses b)(g := u)" by blast
  with output_takes [OF assms] show ?thesis by auto
qed

end

section \<open>NullGpioBackend\<close>

definition null_gpio_backend :: "unit IGpioBackend" where
  "null_gpio_backend =
    \<lparr>release_line = (\<lambda>_. ret ()),
     request_input = (\<lambda>_. ret ()),
     request_output = (\<lambda>_ _. ret ()),
     set_value = (\<lambda>_ _. ret ()),
     get_value = (\<lambda>_. ret False)\<rparr>"

interpretation null: gpio_backend null_gpio_backend "\<lambda>_. Map.empty" "\<lambda>_. True"
  by unfold_locales (auto simp: null_gpio_backend_def drive_def)

section \<open>LibgpiodBackend\<close>

text \<open>
  The calls the backend makes on \<open>gpiod::chip\<close> and \<open>gpiod::line\<close>; levels are C ints. The
  library is a pair of functions of the history of calls: whether the next call throws, and
  the level a read returns. Nothing is assumed of them.
\<close>

datatype gpiod_call =
    Get_line i32
  | Request_in i32
  | Request_out i32 i32
  | Release i32
  | Set_value i32 i32
  | Get_value i32

text \<open>A call made, and whether it returned.\<close>

type_synonym gpiod_event = "gpiod_call \<times> bool"

record gpiod_lib =
  throws :: "gpiod_event list \<Rightarrow> gpiod_call \<Rightarrow> cxx_exn option"
  level :: "gpiod_event list \<Rightarrow> i32 \<Rightarrow> i32"

text \<open>A \<open>gpiod::line\<close> handle: default-constructed, or referring to the line of an offset.\<close>

datatype gpiod_line = Null_line | Line i32

text \<open>
  The map \<open>lines_\<close> holds a \<open>unique_ptr\<close> (an option) per requested GPIO; \<open>calls\<close> is the history of
  the chip the backend owns.
\<close>

record LibgpiodBackend =
  lines :: "i32 \<rightharpoonup> gpiod_line option"
  calls :: "gpiod_event list"

definition new_libgpiod_backend :: LibgpiodBackend where
  "new_libgpiod_backend = \<lparr>lines = Map.empty, calls = []\<rparr>"

definition gpiod_do :: "gpiod_lib \<Rightarrow> gpiod_call \<Rightarrow> (LibgpiodBackend, unit) act" where
  "gpiod_do L c = (\<lambda>s. case throws L (calls s) c of
      Some e \<Rightarrow> (Inl e, s\<lparr>calls := calls s @ [(c, False)]\<rparr>)
    | None \<Rightarrow> (Inr (), s\<lparr>calls := calls s @ [(c, True)]\<rparr>))"

text \<open>The value of \<open>it->second && *it->second\<close>, with the offset the handle refers to.\<close>

definition usable :: "gpiod_line option \<Rightarrow> i32 option" where
  "usable p = (case p of Some (Line off) \<Rightarrow> Some off | _ \<Rightarrow> None)"

definition gpiod_release_line :: "gpiod_lib \<Rightarrow> i32 \<Rightarrow> (LibgpiodBackend, unit) act" where
  "gpiod_release_line L gpio = (\<lambda>s. case lines s gpio of
      None \<Rightarrow> (Inr (), s)
    | Some p \<Rightarrow>
        andThen (case usable p of Some off \<Rightarrow> gpiod_do L (Release off) | None \<Rightarrow> ret ())
          (\<lambda>_. modify (\<lambda>s. s\<lparr>lines := (lines s)(gpio := None)\<rparr>)) s)"

definition gpiod_request_input :: "gpiod_lib \<Rightarrow> i32 \<Rightarrow> (LibgpiodBackend, unit) act" where
  "gpiod_request_input L gpio =
    andThen (gpiod_release_line L gpio) (\<lambda>_.
    andThen (gpiod_do L (Get_line gpio)) (\<lambda>_.
    andThen (gpiod_do L (Request_in gpio)) (\<lambda>_.
      modify (\<lambda>s. s\<lparr>lines := (lines s)(gpio \<mapsto> Some (Line gpio))\<rparr>))))"

definition gpiod_request_output :: "gpiod_lib \<Rightarrow> i32 \<Rightarrow> bool \<Rightarrow> (LibgpiodBackend, unit) act" where
  "gpiod_request_output L gpio initial_value =
    andThen (gpiod_release_line L gpio) (\<lambda>_.
    andThen (gpiod_do L (Get_line gpio)) (\<lambda>_.
    andThen (gpiod_do L (Request_out gpio (if initial_value then 1 else 0))) (\<lambda>_.
      modify (\<lambda>s. s\<lparr>lines := (lines s)(gpio \<mapsto> Some (Line gpio))\<rparr>))))"

definition gpiod_set_value :: "gpiod_lib \<Rightarrow> i32 \<Rightarrow> bool \<Rightarrow> (LibgpiodBackend, unit) act" where
  "gpiod_set_value L gpio v = (\<lambda>s. case lines s gpio of
      None \<Rightarrow> (Inr (), s)
    | Some p \<Rightarrow> (case usable p of
        None \<Rightarrow> (Inr (), s)
      | Some off \<Rightarrow> gpiod_do L (Set_value off (if v then 1 else 0)) s))"

definition gpiod_get_value :: "gpiod_lib \<Rightarrow> i32 \<Rightarrow> (LibgpiodBackend, bool) act" where
  "gpiod_get_value L gpio = (\<lambda>s. case lines s gpio of
      None \<Rightarrow> (Inr False, s)
    | Some p \<Rightarrow> (case usable p of
        None \<Rightarrow> (Inr False, s)
      | Some off \<Rightarrow>
          andThen (gpiod_do L (Get_value off)) (\<lambda>_ t. (Inr (level L (calls s) off \<noteq> 0), t)) s))"

definition libgpiod_backend :: "gpiod_lib \<Rightarrow> LibgpiodBackend IGpioBackend" where
  "libgpiod_backend L =
    \<lparr>release_line = gpiod_release_line L,
     request_input = gpiod_request_input L,
     request_output = gpiod_request_output L,
     set_value = gpiod_set_value L,
     get_value = gpiod_get_value L\<rparr>"

text \<open>
  The constructor: opening the chip throws, or gives a handle that may still be false.
\<close>

definition open_libgpiod_backend ::
  "(string \<Rightarrow> cxx_exn + bool) \<Rightarrow> string \<Rightarrow> cxx_exn + LibgpiodBackend" where
  "open_libgpiod_backend open_chip chip_path = (case open_chip chip_path of
      Inl e \<Rightarrow> Inl e
    | Inr usable_chip \<Rightarrow>
        if \<not> usable_chip then Inl (Runtime_error (''libgpiod: failed to open '' @ chip_path))
        else Inr new_libgpiod_backend)"

text \<open>The destructor, for the order \<open>ks\<close> in which the hash map is iterated.\<close>

fun gpiod_destroy :: "gpiod_lib \<Rightarrow> i32 list \<Rightarrow> (LibgpiodBackend, unit) act" where
  "gpiod_destroy L [] = ret ()"
| "gpiod_destroy L (k # ks) = (\<lambda>s. case lines s k of
      None \<Rightarrow> gpiod_destroy L ks s
    | Some p \<Rightarrow>
        andThen (case usable p of Some off \<Rightarrow> gpiod_do L (Release off) | None \<Rightarrow> ret ())
          (\<lambda>_. gpiod_destroy L ks) s)"

lemmas gpiod_defs =
  gpiod_do_def gpiod_release_line_def gpiod_request_input_def gpiod_request_output_def
  gpiod_set_value_def gpiod_get_value_def


section \<open>What the history says about each line\<close>

text \<open>
  The documented meaning of the calls: a request that returned takes the line, a release that
  returned frees it, a write that returned sets the level of an output.
\<close>

fun log_use :: "gpiod_event \<Rightarrow> (i32 \<rightharpoonup> line_use) \<Rightarrow> (i32 \<rightharpoonup> line_use)" where
  "log_use (Request_in g, True) u = u(g \<mapsto> UseInput)"
| "log_use (Request_out g v, True) u = u(g \<mapsto> UseOutput (v \<noteq> 0))"
| "log_use (Release g, True) u = u(g := None)"
| "log_use (Set_value g v, True) u = drive g (v \<noteq> 0) u"
| "log_use _ u = u"

definition line_uses :: "LibgpiodBackend \<Rightarrow> i32 \<rightharpoonup> line_use" where
  "line_uses s = fold log_use (calls s) Map.empty"

text \<open>
  The map holds exactly the lines in use, each with a handle of its own offset; so the null
  checks of the code never fire.
\<close>

definition handles :: "(i32 \<rightharpoonup> line_use) \<Rightarrow> (i32 \<rightharpoonup> gpiod_line option)" where
  "handles u = (\<lambda>g. map_option (\<lambda>_. Some (Line g)) (u g))"

text \<open>
  The usage rules of the library: only a free line is requested, and only a requested one is
  written, read or released. \<open>history_legal\<close>: every call kept them when it was made.
\<close>

fun legal :: "gpiod_call \<Rightarrow> (i32 \<rightharpoonup> line_use) \<Rightarrow> bool" where
  "legal (Get_line g) u \<longleftrightarrow> True"
| "legal (Request_in g) u \<longleftrightarrow> u g = None"
| "legal (Request_out g v) u \<longleftrightarrow> u g = None"
| "legal (Release g) u \<longleftrightarrow> u g \<noteq> None"
| "legal (Set_value g v) u \<longleftrightarrow> u g \<noteq> None"
| "legal (Get_value g) u \<longleftrightarrow> u g \<noteq> None"

definition history_legal :: "gpiod_event list \<Rightarrow> bool" where
  "history_legal es \<longleftrightarrow>
    (\<forall>i < length es. legal (fst (es ! i)) (fold log_use (take i es) Map.empty))"

lemma history_legal_snoc [simp]:
  "history_legal (es @ [(c, ok)]) \<longleftrightarrow>
     history_legal es \<and> legal c (fold log_use es Map.empty)"
  by (auto simp: history_legal_def nth_append less_Suc_eq)

definition gpiod_inv :: "LibgpiodBackend \<Rightarrow> bool" where
  "gpiod_inv s \<longleftrightarrow> lines s = handles (line_uses s) \<and> history_legal (calls s)"

lemma handles_simps [simp]:
  "handles (u(g := None)) = (handles u)(g := None)"
  "handles (u(g \<mapsto> w)) = (handles u)(g \<mapsto> Some (Line g))"
  "handles (drive g v u) = handles u"
  "handles Map.empty = Map.empty"
  "handles u g = None \<longleftrightarrow> u g = None"
  by (auto simp: handles_def drive_def fun_eq_iff split: option.splits line_use.splits)

lemma handles_Some: "handles u g = Some p \<longleftrightarrow> p = Some (Line g) \<and> u g \<noteq> None"
  by (auto simp: handles_def)

lemma line_uses_update_lines [simp]: "line_uses (s\<lparr>lines := m\<rparr>) = line_uses s"
  by (simp add: line_uses_def)

lemma log_use_throw [simp]: "log_use (c, False) u = u"
  by (cases c) simp_all

lemma gpiod_do_effect:
  "gpiod_do L c s = (r, s') \<Longrightarrow>
     lines s' = lines s \<and> line_uses s' = log_use (c, \<not> isl r) (line_uses s) \<and>
     (history_legal (calls s') \<longleftrightarrow> history_legal (calls s) \<and> legal c (line_uses s))"
  by (auto simp: gpiod_do_def line_uses_def split: option.splits)

lemma line_uses_new [simp]: "line_uses new_libgpiod_backend = Map.empty"
  by (simp add: new_libgpiod_backend_def line_uses_def)

lemma gpiod_inv_new [simp]: "gpiod_inv new_libgpiod_backend"
  by (simp add: gpiod_inv_def) (simp add: new_libgpiod_backend_def history_legal_def)

lemma gpiod_inv_None: "gpiod_inv s \<Longrightarrow> lines s g = None \<longleftrightarrow> line_uses s g = None"
  by (simp add: gpiod_inv_def)

lemma gpiod_inv_Some:
  "gpiod_inv s \<Longrightarrow> lines s g = Some p \<Longrightarrow> usable p = Some g \<and> line_uses s g \<noteq> None"
  by (simp add: gpiod_inv_def handles_Some usable_def)

lemma gpiod_release_effect:
  assumes "gpiod_inv s" "gpiod_release_line L g s = (r, s')"
  shows "gpiod_inv s' \<and> line_uses s' = (if isl r then line_uses s else (line_uses s)(g := None))"
proof (cases "lines s g")
  case None
  with assms show ?thesis
    by (auto simp: gpiod_release_line_def gpiod_inv_None)
next
  case (Some p)
  obtain r1 s1 where do: "gpiod_do L (Release g) s = (r1, s1)" by fastforce
  from Some do assms gpiod_do_effect [OF do] gpiod_inv_Some [OF assms(1) Some] show ?thesis
    by (cases r1) (auto simp: gpiod_release_line_def andThen_def gpiod_inv_def)
qed

lemma same_upd: "f' = f \<Longrightarrow> \<exists>u. f' = f(g := u)"
  by (metis fun_upd_triv)

lemma gpiod_request_effect:
  assumes inv: "gpiod_inv s"
    and c: "\<And>u. log_use (c, True) u = u(g \<mapsto> w)" "\<And>u. legal c u \<longleftrightarrow> u g = None"
    and run: "andThen (gpiod_release_line L g) (\<lambda>_. andThen (gpiod_do L (Get_line g)) (\<lambda>_.
      andThen (gpiod_do L c) (\<lambda>_. modify (\<lambda>s. s\<lparr>lines := (lines s)(g \<mapsto> Some (Line g))\<rparr>)))) s
      = (r, s')"
  shows "gpiod_inv s' \<and> (if isl r then \<exists>u. line_uses s' = (line_uses s)(g := u)
    else line_uses s' = (line_uses s)(g \<mapsto> w))"
  using run
proof (cases rule: andThen_cases)
  case (throw e)
  from gpiod_release_effect [OF inv throw(1)] throw(2) show ?thesis
    by (simp add: same_upd)
next
  case (step _ s1)
  from gpiod_release_effect [OF inv step(1)]
  have s1: "gpiod_inv s1" "line_uses s1 = (line_uses s)(g := None)" by simp_all
  from step(2) show ?thesis
  proof (cases rule: andThen_cases)
    case (throw e)
    from gpiod_do_effect [OF throw(1)] throw(2) s1 show ?thesis
      by (auto simp: gpiod_inv_def)
  next
    case (step _ s2)
    from gpiod_do_effect [OF step(1)] s1
    have s2: "gpiod_inv s2" "line_uses s2 = (line_uses s)(g := None)"
      by (auto simp: gpiod_inv_def)
    from step(2) show ?thesis
    proof (cases rule: andThen_cases)
      case (throw e)
      from gpiod_do_effect [OF throw(1)] throw(2) s2 c(2) show ?thesis
        by (auto simp: gpiod_inv_def)
    next
      case (step _ s3)
      from gpiod_do_effect [OF step(1)] s2 c
      have "line_uses s3 = (line_uses s)(g \<mapsto> w)" "lines s3 = lines s2"
        "history_legal (calls s3)" by (simp_all add: gpiod_inv_def)
      with step(2) s2 show ?thesis by (auto simp: gpiod_inv_def)
    qed
  qed
qed

lemma gpiod_request_input_effect:
  assumes "gpiod_inv s" "gpiod_request_input L g s = (r, s')"
  shows "gpiod_inv s' \<and> (if isl r then \<exists>u. line_uses s' = (line_uses s)(g := u)
    else line_uses s' = (line_uses s)(g \<mapsto> UseInput))"
  using assms by (intro gpiod_request_effect [where c = "Request_in g"])
    (simp_all add: gpiod_request_input_def)

lemma gpiod_request_output_effect:
  assumes "gpiod_inv s" "gpiod_request_output L g v s = (r, s')"
  shows "gpiod_inv s' \<and> (if isl r then \<exists>u. line_uses s' = (line_uses s)(g := u)
    else line_uses s' = (line_uses s)(g \<mapsto> UseOutput v))"
  using assms by (intro gpiod_request_effect [where c = "Request_out g (if v then 1 else 0)"])
    (simp_all add: gpiod_request_output_def)

lemma gpiod_set_effect:
  assumes "gpiod_inv s" "gpiod_set_value L g v s = (r, s')"
  shows "gpiod_inv s' \<and>
    line_uses s' = (if isl r then line_uses s else drive g v (line_uses s))"
proof (cases "lines s g")
  case None
  with assms show ?thesis by (auto simp: gpiod_set_value_def gpiod_inv_None drive_def)
next
  case (Some p)
  with assms gpiod_inv_Some [OF assms(1) Some]
  have "gpiod_do L (Set_value g (if v then 1 else 0)) s = (r, s')"
    by (simp add: gpiod_set_value_def)
  from gpiod_do_effect [OF this] assms(1) gpiod_inv_Some [OF assms(1) Some] show ?thesis
    by (cases v) (auto simp: gpiod_inv_def)
qed

lemma gpiod_get_effect:
  assumes "gpiod_inv s" "gpiod_get_value L g s = (r, s')"
  shows "gpiod_inv s' \<and> line_uses s' = line_uses s"
proof (cases "lines s g")
  case None
  with assms show ?thesis by (auto simp: gpiod_get_value_def)
next
  case (Some p)
  obtain r1 s1 where do: "gpiod_do L (Get_value g) s = (r1, s1)" by fastforce
  with Some assms gpiod_inv_Some [OF assms(1) Some] have "s' = s1"
    by (auto simp: gpiod_get_value_def andThen_def split: sum.splits)
  with gpiod_do_effect [OF do] assms(1) gpiod_inv_Some [OF assms(1) Some] show ?thesis
    by (auto simp: gpiod_inv_def)
qed

lemma libgpiod_ops [simp]:
  "release_line (libgpiod_backend L) = gpiod_release_line L"
  "request_input (libgpiod_backend L) = gpiod_request_input L"
  "request_output (libgpiod_backend L) = gpiod_request_output L"
  "set_value (libgpiod_backend L) = gpiod_set_value L"
  "get_value (libgpiod_backend L) = gpiod_get_value L"
  by (simp_all add: libgpiod_backend_def)

interpretation lib: gpio_driver "libgpiod_backend L" line_uses gpiod_inv for L
proof unfold_locales
  fix b b' :: LibgpiodBackend and g v e x and ok :: unit
  assume inv: "gpiod_inv b"
  note rel = gpiod_release_effect [OF inv] and inp = gpiod_request_input_effect [OF inv]
    and out = gpiod_request_output_effect [OF inv] and set = gpiod_set_effect [OF inv]
    and get = gpiod_get_effect [OF inv]
  show "release_line (libgpiod_backend L) g b = (Inr ok, b') \<Longrightarrow>
      gpiod_inv b' \<and> line_uses b' = (line_uses b)(g := None)"
    using rel by fastforce
  show "request_input (libgpiod_backend L) g b = (Inr ok, b') \<Longrightarrow>
      gpiod_inv b' \<and> (\<exists>u \<in> {None, Some UseInput}. line_uses b' = (line_uses b)(g := u))"
    and "request_input (libgpiod_backend L) g b = (Inr ok, b') \<Longrightarrow> line_uses b' g \<noteq> None"
    using inp by fastforce+
  show "request_output (libgpiod_backend L) g v b = (Inr ok, b') \<Longrightarrow>
      gpiod_inv b' \<and> (\<exists>u \<in> {None, Some (UseOutput v)}. line_uses b' = (line_uses b)(g := u))"
    and "request_output (libgpiod_backend L) g v b = (Inr ok, b') \<Longrightarrow> line_uses b' g \<noteq> None"
    using out by fastforce+
  show "set_value (libgpiod_backend L) g v b = (Inr ok, b') \<Longrightarrow>
      gpiod_inv b' \<and> line_uses b' = drive g v (line_uses b)"
    using set by fastforce
  show "get_value (libgpiod_backend L) g b = (Inr x, b') \<Longrightarrow>
      gpiod_inv b' \<and> line_uses b' = line_uses b"
    using get by fastforce
  show "release_line (libgpiod_backend L) g b = (Inl e, b') \<Longrightarrow>
      gpiod_inv b' \<and> (\<exists>u. line_uses b' = (line_uses b)(g := u))"
    using rel [of L g "Inl e" b'] by (simp add: same_upd)
  show "request_input (libgpiod_backend L) g b = (Inl e, b') \<Longrightarrow>
      gpiod_inv b' \<and> (\<exists>u. line_uses b' = (line_uses b)(g := u))"
    using inp [of L g "Inl e" b'] by simp
  show "request_output (libgpiod_backend L) g v b = (Inl e, b') \<Longrightarrow>
      gpiod_inv b' \<and> (\<exists>u. line_uses b' = (line_uses b)(g := u))"
    using out [of L g v "Inl e" b'] by simp
  show "set_value (libgpiod_backend L) g v b = (Inl e, b') \<Longrightarrow>
      gpiod_inv b' \<and> line_uses b' = line_uses b"
    using set [of L g v "Inl e" b'] by simp
  show "get_value (libgpiod_backend L) g b = (Inl e, b') \<Longrightarrow>
      gpiod_inv b' \<and> line_uses b' = line_uses b"
    using get [of L g "Inl e" b'] by simp
qed


section \<open>Runs of a backend\<close>

text \<open>Any sequence of calls through the interface, by callers that survive its exceptions.\<close>

datatype gpio_op =
    OpRelease i32
  | OpInput i32
  | OpOutput i32 bool
  | OpSet i32 bool
  | OpGet i32

fun gpio_step :: "'b IGpioBackend \<Rightarrow> gpio_op \<Rightarrow> 'b \<Rightarrow> 'b" where
  "gpio_step B (OpRelease g) b = snd (release_line B g b)"
| "gpio_step B (OpInput g) b = snd (request_input B g b)"
| "gpio_step B (OpOutput g v) b = snd (request_output B g v b)"
| "gpio_step B (OpSet g v) b = snd (set_value B g v b)"
| "gpio_step B (OpGet g) b = snd (get_value B g b)"

fun op_line :: "gpio_op \<Rightarrow> i32" where
  "op_line (OpRelease g) = g"
| "op_line (OpInput g) = g"
| "op_line (OpOutput g v) = g"
| "op_line (OpSet g v) = g"
| "op_line (OpGet g) = g"

context gpio_backend
begin

text \<open>Every outcome, thrown or returned, keeps the invariant and every other line.\<close>

lemma release_frame:
  "invar b \<Longrightarrow> release_line B g b = (r, b') \<Longrightarrow> invar b' \<and> (\<exists>u. uses b' = (uses b)(g := u))"
  by (cases r) (blast dest: release_law release_throw)+

lemma input_frame:
  "invar b \<Longrightarrow> request_input B g b = (r, b') \<Longrightarrow> invar b' \<and> (\<exists>u. uses b' = (uses b)(g := u))"
  by (cases r) (blast dest: input_law input_throw)+

lemma output_frame:
  "invar b \<Longrightarrow> request_output B g v b = (r, b') \<Longrightarrow> invar b' \<and> (\<exists>u. uses b' = (uses b)(g := u))"
  by (cases r) (blast dest: output_law output_throw)+

lemma set_frame:
  assumes "invar b" "set_value B g v b = (r, b')"
  shows "invar b' \<and> (\<forall>h. h \<noteq> g \<longrightarrow> uses b' h = uses b h)"
proof (cases r)
  case (Inl e)
  with assms set_throw [of b g v e b'] show ?thesis by simp
next
  case (Inr ok)
  with assms set_law [of b g v ok b'] show ?thesis by simp
qed

lemma get_frame:
  "invar b \<Longrightarrow> get_value B g b = (r, b') \<Longrightarrow> invar b' \<and> uses b' = uses b"
  by (cases r) (blast dest: get_law get_throw)+

lemma step_frame:
  assumes "invar b"
  shows "invar (gpio_step B x b) \<and> (\<forall>h. h \<noteq> op_line x \<longrightarrow> uses (gpio_step B x b) h = uses b h)"
proof (cases x)
  case (OpRelease g)
  with release_frame [OF assms, of g "fst (release_line B g b)" "gpio_step B x b"]
  show ?thesis by auto
next
  case (OpInput g)
  with input_frame [OF assms, of g "fst (request_input B g b)" "gpio_step B x b"]
  show ?thesis by auto
next
  case (OpOutput g v)
  with output_frame [OF assms, of g v "fst (request_output B g v b)" "gpio_step B x b"]
  show ?thesis by auto
next
  case (OpSet g v)
  with set_frame [OF assms, of g v "fst (set_value B g v b)" "gpio_step B x b"]
  show ?thesis by auto
next
  case (OpGet g)
  with get_frame [OF assms, of g "fst (get_value B g b)" "gpio_step B x b"]
  show ?thesis by auto
qed

lemma run_invar: "invar b \<Longrightarrow> invar (fold (gpio_step B) xs b)"
  by (induction xs arbitrary: b) (simp_all add: step_frame)

lemma run_frame:
  "invar b \<Longrightarrow> h \<notin> op_line ` set xs \<Longrightarrow> uses (fold (gpio_step B) xs b) h = uses b h"
  by (induction xs arbitrary: b) (simp_all add: step_frame)

end

section \<open>Destruction\<close>

lemma gpiod_destroy_effect:
  assumes "gpiod_destroy L ks s = (Inr (), s')" "\<And>k p. lines s k = Some p \<Longrightarrow> p = Some (Line k)"
  shows "line_uses s' = (\<lambda>g. if g \<in> set ks \<and> lines s g \<noteq> None then None else line_uses s g)"
  using assms
proof (induction ks arbitrary: s)
  case (Cons k ks)
  show ?case
  proof (cases "lines s k")
    case None
    with Cons.IH [of s] Cons.prems show ?thesis by (auto simp: fun_eq_iff)
  next
    case (Some p)
    with Cons.prems(2) [OF Some] have "usable p = Some k" by (simp add: usable_def)
    with Some Cons.prems(1) obtain s1 where
      do: "gpiod_do L (Release k) s = (Inr (), s1)" and rest: "gpiod_destroy L ks s1 = (Inr (), s')"
      by (auto simp: andThen_Inr)
    from gpiod_do_effect [OF do]
    have s1: "lines s1 = lines s" "line_uses s1 = (line_uses s)(k := None)" by simp_all
    from Cons.IH [OF rest] Cons.prems(2) s1 Some show ?thesis
      by (auto simp: fun_eq_iff)
  qed
qed simp

section \<open>Properties\<close>

text \<open>
  C10 (safety): whatever sequence of interface calls is made on a new backend, and whichever of
  the library's calls throw, the library's usage rules are kept throughout (no line is
  requested twice, none is written, read or released unless requested), and \<open>lines_\<close> holds
  exactly the lines in use, each with its own handle.
\<close>

theorem libgpiod_usage_rules:
  "let s = fold (gpio_step (libgpiod_backend L)) xs new_libgpiod_backend in
     history_legal (calls s) \<and>
     (\<forall>g. lines s g = (if line_uses s g = None then None else Some (Some (Line g))))"
  using lib.run_invar [OF gpiod_inv_new, of L xs]
  by (auto simp: Let_def gpiod_inv_def handles_def)

text \<open>
  Calls about other GPIOs never change what a line is used for, even when they
  throw half way.
\<close>

theorem libgpiod_lines_independent:
  assumes "gpiod_inv s" "g \<notin> op_line ` set xs"
  shows "line_uses (fold (gpio_step (libgpiod_backend L)) xs s) g = line_uses s g"
  using assms by (rule lib.run_frame)

definition quiet_lib :: gpiod_lib where
  "quiet_lib = \<lparr>throws = (\<lambda>_ _. None), level = (\<lambda>_ _. 0)\<rparr>"

lemma libgpiod_lines_independent_witness:
  "line_uses (fold (gpio_step (libgpiod_backend quiet_lib)) [OpInput 17, OpRelease 17]
     (gpio_step (libgpiod_backend quiet_lib) (OpOutput 26 True) new_libgpiod_backend)) 26
   = Some (UseOutput True)"
proof -
  let ?s = "gpio_step (libgpiod_backend quiet_lib) (OpOutput 26 True) new_libgpiod_backend"
  have "gpiod_inv ?s"
    by (simp add: lib.step_frame del: gpio_step.simps)
  then have "line_uses (fold (gpio_step (libgpiod_backend quiet_lib)) [OpInput 17, OpRelease 17] ?s) 26
      = line_uses ?s 26"
    by (rule libgpiod_lines_independent) simp
  also have "\<dots> = Some (UseOutput True)"
    by (simp add: gpiod_defs andThen_def quiet_lib_def new_libgpiod_backend_def line_uses_def)
  finally show ?thesis .
qed

text \<open>
  The destructor, iterating over the map's entries in any order, leaves no line
  requested.
\<close>

theorem libgpiod_destructor_frees_all:
  assumes "gpiod_inv s" "set ks = dom (lines s)" "gpiod_destroy L ks s = (Inr (), s')"
  shows "line_uses s' = Map.empty"
proof -
  have "\<And>k p. lines s k = Some p \<Longrightarrow> p = Some (Line k)"
    using assms(1) by (simp add: gpiod_inv_def handles_Some)
  from gpiod_destroy_effect [OF assms(3) this] assms(1,2) show ?thesis
    by (auto simp: fun_eq_iff gpiod_inv_None)
qed

lemma libgpiod_destructor_frees_all_witness:
  "line_uses (snd (gpiod_destroy quiet_lib [26]
     (gpio_step (libgpiod_backend quiet_lib) (OpOutput 26 True) new_libgpiod_backend))) = Map.empty"
proof (rule libgpiod_destructor_frees_all)
  let ?s = "gpio_step (libgpiod_backend quiet_lib) (OpOutput 26 True) new_libgpiod_backend"
  show "gpiod_inv ?s" by (simp add: lib.step_frame del: gpio_step.simps)
  show "set [26] = dom (lines ?s)"
    by (simp add: gpiod_defs andThen_def quiet_lib_def new_libgpiod_backend_def)
  show "gpiod_destroy quiet_lib [26] ?s = (Inr (), snd (gpiod_destroy quiet_lib [26] ?s))"
    by (simp add: gpiod_defs andThen_def quiet_lib_def new_libgpiod_backend_def usable_def)
qed

end
