(* ===== verification/Smartio_State.thy ===== *)
theory Smartio_State
  imports Gpio_Backend
begin

text \<open>
  smartio_state.{hpp,cpp}: the state machine of one SmartIo channel. A channel owns its mode
  and the last commanded output and shares the backend with the other channels, so its
  operations act on the pair of the channel and the backend, and stop where the backend
  throws. The lemmas are proved once for every backend that keeps the interface's contract.
\<close>

section \<open>State and operations\<close>

datatype ChannelMode = Unconfigured | DigitalInput | DigitalOutput

record SmartIoChannel =
  ch_channel :: i32
  ch_gpio :: i32
  ch_mode :: ChannelMode
  ch_last_output :: bool

definition new_channel :: "i32 \<Rightarrow> i32 \<Rightarrow> SmartIoChannel" where
  "new_channel channel gpio =
    \<lparr>ch_channel = channel, ch_gpio = gpio, ch_mode = Unconfigured, ch_last_output = False\<rparr>"

definition on_backend :: "('b, 'a) act \<Rightarrow> (SmartIoChannel \<times> 'b, 'a) act" where
  "on_backend m = (\<lambda>(c, b). case m b of (r, b') \<Rightarrow> (r, (c, b')))"

definition set_channel_mode :: "ChannelMode \<Rightarrow> (SmartIoChannel \<times> 'b, unit) act" where
  "set_channel_mode m = modify (\<lambda>(c, b). (c\<lparr>ch_mode := m\<rparr>, b))"

text \<open>The \<open>switch\<close> on the HAL type; \<open>None\<close> is its default branch.\<close>

definition requested_mode :: "i32 \<Rightarrow> ChannelMode option" where
  "requested_mode hal_type =
    (if hal_type = 0 then Some DigitalInput
     else if hal_type = 1 then Some DigitalOutput
     else None)"

definition on_type_changed ::
  "'b IGpioBackend \<Rightarrow> i32 \<Rightarrow> (SmartIoChannel \<times> 'b, unit) act" where
  "on_type_changed B hal_type = (\<lambda>(c, b). case requested_mode hal_type of
      None \<Rightarrow>
        if ch_mode c \<noteq> Unconfigured
        then andThen (on_backend (release_line B (ch_gpio c)))
               (\<lambda>_. set_channel_mode Unconfigured) (c, b)
        else (Inr (), (c, b))
    | Some requested \<Rightarrow>
        if requested = ch_mode c then (Inr (), (c, b))
        else
          andThen (if ch_mode c \<noteq> Unconfigured then on_backend (release_line B (ch_gpio c))
                   else ret ()) (\<lambda>_.
          andThen (if requested = DigitalInput then on_backend (request_input B (ch_gpio c))
                   else on_backend (request_output B (ch_gpio c) (ch_last_output c))) (\<lambda>_.
            set_channel_mode requested)) (c, b))"

definition on_valset ::
  "'b IGpioBackend \<Rightarrow> i32 \<Rightarrow> (SmartIoChannel \<times> 'b, unit) act" where
  "on_valset B hal_value = (\<lambda>(c, b).
    let v = (hal_value \<noteq> 0);
        c = c\<lparr>ch_last_output := v\<rparr>
    in if ch_mode c \<noteq> DigitalOutput then (Inr (), (c, b))
       else on_backend (set_value B (ch_gpio c) v) (c, b))"

definition sample_input :: "'b IGpioBackend \<Rightarrow> (SmartIoChannel \<times> 'b, bool) act" where
  "sample_input B = (\<lambda>(c, b).
    if ch_mode c \<noteq> DigitalInput then (Inr False, (c, b))
    else on_backend (get_value B (ch_gpio c)) (c, b))"

text \<open>What the HAL does to a channel, as a list of requests run until one throws.\<close>

datatype hal_op = HalType i32 | HalVal i32 | HalSample

fun hal_step :: "'b IGpioBackend \<Rightarrow> hal_op \<Rightarrow> (SmartIoChannel \<times> 'b, unit) act" where
  "hal_step B (HalType t) = on_type_changed B t"
| "hal_step B (HalVal v) = on_valset B v"
| "hal_step B HalSample = andThen (sample_input B) (\<lambda>_. ret ())"

fun hal_run :: "'b IGpioBackend \<Rightarrow> hal_op list \<Rightarrow> (SmartIoChannel \<times> 'b, unit) act" where
  "hal_run B [] = ret ()"
| "hal_run B (x # xs) = andThen (hal_step B x) (\<lambda>_. hal_run B xs)"

section \<open>The abstract channel\<close>

text \<open>
  The contract: the mode is decided by the last type, the level by the last value, and the
  line is used accordingly.
\<close>

definition mode_of_type :: "i32 \<Rightarrow> ChannelMode" where
  "mode_of_type t = (case requested_mode t of None \<Rightarrow> Unconfigured | Some m \<Rightarrow> m)"

definition expected_use :: "SmartIoChannel \<Rightarrow> line_use option" where
  "expected_use c = (case ch_mode c of
      Unconfigured \<Rightarrow> None
    | DigitalInput \<Rightarrow> Some UseInput
    | DigitalOutput \<Rightarrow> Some (UseOutput (ch_last_output c)))"

fun abstract_op :: "hal_op \<Rightarrow> SmartIoChannel \<Rightarrow> SmartIoChannel" where
  "abstract_op (HalType t) c = c\<lparr>ch_mode := mode_of_type t\<rparr>"
| "abstract_op (HalVal v) c = c\<lparr>ch_last_output := (v \<noteq> 0)\<rparr>"
| "abstract_op HalSample c = c"

lemma expected_use_simps [simp]:
  "ch_mode c = Unconfigured \<Longrightarrow> expected_use c = None"
  "ch_mode c = DigitalInput \<Longrightarrow> expected_use c = Some UseInput"
  "ch_mode c = DigitalOutput \<Longrightarrow> expected_use c = Some (UseOutput (ch_last_output c))"
  by (simp_all add: expected_use_def)

lemma mode_of_type_cases:
  "requested_mode t = None \<Longrightarrow> mode_of_type t = Unconfigured"
  "requested_mode t = Some m \<Longrightarrow> mode_of_type t = m \<and> m \<noteq> Unconfigured"
  by (auto simp: mode_of_type_def requested_mode_def split: if_splits)

lemma abstract_op_gpio [simp]: "ch_gpio (abstract_op x c) = ch_gpio c"
  by (cases x) simp_all

lemma on_backend_Inr [act_simps]:
  "on_backend m (c, b) = (Inr x, (c', b')) \<longleftrightarrow> c' = c \<and> m b = (Inr x, b')"
  by (auto simp: on_backend_def split: prod.splits)

lemma on_backend_Inl [act_simps]:
  "on_backend m (c, b) = (Inl e, (c', b')) \<longleftrightarrow> c' = c \<and> m b = (Inl e, b')"
  by (auto simp: on_backend_def split: prod.splits)

lemma set_channel_mode_apply [simp]:
  "set_channel_mode m (c, b) = (Inr (), (c\<lparr>ch_mode := m\<rparr>, b))"
  by (simp add: set_channel_mode_def)

section \<open>A returning request does what the abstract channel does\<close>

lemma on_type_changed_returns:
  assumes "on_type_changed B t (c, b) = (Inr ok, (c', b'))"
  shows "c' = c\<lparr>ch_mode := mode_of_type t\<rparr>"
  using assms mode_of_type_cases [of t]
  by (cases "requested_mode t")
    (auto simp: on_type_changed_def act_simps split: if_splits)

lemma on_valset_channel:
  "on_valset B v (c, b) = (r, (c', b')) \<Longrightarrow> c' = c\<lparr>ch_last_output := (v \<noteq> 0)\<rparr>"
  by (auto simp: on_valset_def Let_def on_backend_def split: if_splits prod.splits)

lemma sample_input_channel: "sample_input B (c, b) = (r, (c', b')) \<Longrightarrow> c' = c"
  by (auto simp: sample_input_def on_backend_def split: if_splits prod.splits)

context gpio_driver
begin

lemma on_type_changed_use:
  assumes inv: "invar b" and use: "uses b (ch_gpio c) = expected_use c"
    and run: "on_type_changed B t (c, b) = (Inr ok, (c', b'))"
  shows "invar b' \<and> uses b' = (uses b)(ch_gpio c := expected_use c')"
proof (cases "requested_mode t")
  case None
  show ?thesis
  proof (cases "ch_mode c = Unconfigured")
    case True
    with None run use inv show ?thesis
      by (auto simp: on_type_changed_def)
  next
    case False
    with None run have "c' = c\<lparr>ch_mode := Unconfigured\<rparr>"
      and "release_line B (ch_gpio c) b = (Inr (), b')"
      by (auto simp: on_type_changed_def act_simps)
    with release_law [OF inv] show ?thesis by fastforce
  qed
next
  case (Some m)
  then have m: "m \<noteq> Unconfigured" using mode_of_type_cases(2) by blast
  show ?thesis
  proof (cases "m = ch_mode c")
    case True
    with Some run use inv show ?thesis
      by (auto simp: on_type_changed_def)
  next
    case False
    with Some run obtain b1 where
      b1: "b1 = b \<and> ch_mode c = Unconfigured \<or> (\<exists>ok. release_line B (ch_gpio c) b = (Inr ok, b1))"
      and c': "c' = c\<lparr>ch_mode := m\<rparr>"
      and req: "m = DigitalInput \<and> (\<exists>ok. request_input B (ch_gpio c) b1 = (Inr ok, b')) \<or>
        m \<noteq> DigitalInput \<and> (\<exists>ok. request_output B (ch_gpio c) (ch_last_output c) b1 = (Inr ok, b'))"
      by (auto simp: on_type_changed_def act_simps split: if_splits)
    from b1 have inv1: "invar b1" and u1: "uses b1 = (uses b)(ch_gpio c := None)"
      using inv use release_law [OF inv] by (auto simp: fun_upd_idem)
    from req show ?thesis
    proof
      assume "m = DigitalInput \<and> (\<exists>ok. request_input B (ch_gpio c) b1 = (Inr ok, b'))"
      with c' u1 input_law [OF inv1] input_exact [OF inv1] show ?thesis by fastforce
    next
      assume *: "m \<noteq> DigitalInput \<and>
        (\<exists>ok. request_output B (ch_gpio c) (ch_last_output c) b1 = (Inr ok, b'))"
      with m have "m = DigitalOutput" by (cases m) auto
      with * c' u1 output_law [OF inv1] output_exact [OF inv1] show ?thesis by fastforce
    qed
  qed
qed

lemma on_valset_use:
  assumes inv: "invar b" and use: "uses b (ch_gpio c) = expected_use c"
    and run: "on_valset B v (c, b) = (Inr ok, (c', b'))"
  shows "invar b' \<and> uses b' = (uses b)(ch_gpio c := expected_use c')"
proof -
  have c': "c' = c\<lparr>ch_last_output := (v \<noteq> 0)\<rparr>" using run by (rule on_valset_channel)
  show ?thesis
  proof (cases "ch_mode c = DigitalOutput")
    case True
    with run have "set_value B (ch_gpio c) (v \<noteq> 0) b = (Inr ok, b')"
      by (simp add: on_valset_def Let_def act_simps)
    with set_law [OF inv] have "invar b'" "uses b' = drive (ch_gpio c) (v \<noteq> 0) (uses b)"
      by blast+
    with True c' use show ?thesis by (simp add: drive_def)
  next
    case False
    with run have "b' = b" by (simp add: on_valset_def Let_def)
    moreover have "expected_use c' = expected_use c"
      using False c' by (cases "ch_mode c") simp_all
    ultimately show ?thesis using inv use by (simp add: fun_upd_idem)
  qed
qed

lemma sample_input_use:
  assumes "invar b" "sample_input B (c, b) = (Inr x, (c', b'))"
  shows "invar b' \<and> uses b' = uses b"
  using assms get_law [OF assms(1)]
  by (auto simp: sample_input_def act_simps split: if_splits)

lemma hal_step_refines:
  assumes "invar b" "uses b (ch_gpio c) = expected_use c"
    and "hal_step B x (c, b) = (Inr ok, (c', b'))"
  shows "invar b' \<and> c' = abstract_op x c \<and> uses b' = (uses b)(ch_gpio c := expected_use c')"
proof (cases x)
  case (HalType t)
  with assms on_type_changed_use [OF assms(1,2)] on_type_changed_returns [of B t c b]
  show ?thesis by auto
next
  case (HalVal v)
  with assms on_valset_use [OF assms(1,2)] on_valset_channel [of B v c b]
  show ?thesis by auto
next
  case HalSample
  with assms(3) obtain y where "sample_input B (c, b) = (Inr y, (c', b'))"
    by (auto simp: act_simps)
  with sample_input_use [OF assms(1)] sample_input_channel [of B c b] HalSample assms(2)
  show ?thesis by (auto simp: fun_upd_idem)
qed

lemma hal_run_refines:
  assumes "invar b" "uses b (ch_gpio c) = expected_use c"
    and "hal_run B xs (c, b) = (Inr ok, (c', b'))"
  shows "invar b' \<and> c' = fold abstract_op xs c \<and> uses b' = (uses b)(ch_gpio c := expected_use c')"
  using assms
proof (induction xs arbitrary: c b)
  case Nil
  then show ?case by (simp add: fun_upd_idem)
next
  case (Cons x xs)
  from Cons.prems(3) obtain ok1 c1 b1 where
    step: "hal_step B x (c, b) = (Inr ok1, (c1, b1))" and rest: "hal_run B xs (c1, b1) = (Inr ok, (c', b'))"
    by (auto simp: act_simps)
  from hal_step_refines [OF Cons.prems(1,2) step]
  have s: "invar b1" "c1 = abstract_op x c" "uses b1 = (uses b)(ch_gpio c := expected_use c1)"
    by simp_all
  then have "uses b1 (ch_gpio c1) = expected_use c1" by simp
  from Cons.IH [OF s(1) this rest] s show ?case by (auto simp: fun_eq_iff)
qed

end


section \<open>A channel is confined to its own line, whatever throws\<close>

definition confined ::
  "('b \<Rightarrow> i32 \<rightharpoonup> line_use) \<Rightarrow> ('b \<Rightarrow> bool) \<Rightarrow> i32 \<Rightarrow> (SmartIoChannel \<times> 'b, 'a) act \<Rightarrow> bool"
where
  "confined uses invar g m \<longleftrightarrow> (\<forall>c b r c' b'.
     ch_gpio c = g \<longrightarrow> invar b \<longrightarrow> m (c, b) = (r, (c', b')) \<longrightarrow>
       ch_gpio c' = g \<and> invar b' \<and> (\<forall>h. h \<noteq> g \<longrightarrow> uses b' h = uses b h))"

lemma confinedD:
  assumes "confined uses invar g m" "ch_gpio c = g" "invar b" "m (c, b) = (r, (c', b'))"
  shows "ch_gpio c' = g \<and> invar b' \<and> (\<forall>h. h \<noteq> g \<longrightarrow> uses b' h = uses b h)"
  using assms unfolding confined_def by blast

lemma confined_andThen:
  assumes "confined uses invar g m" "\<And>a. confined uses invar g (f a)"
  shows "confined uses invar g (andThen m f)"
  unfolding confined_def
proof (intro allI impI)
  fix c b r c' b'
  assume g: "ch_gpio c = g" and inv: "invar b" and run: "andThen m f (c, b) = (r, (c', b'))"
  from run show "ch_gpio c' = g \<and> invar b' \<and> (\<forall>h. h \<noteq> g \<longrightarrow> uses b' h = uses b h)"
  proof (cases rule: andThen_cases)
    case (throw e)
    from confinedD [OF assms(1) g inv throw(1)] show ?thesis .
  next
    case (step a u)
    obtain c1 b1 where u: "u = (c1, b1)" by (cases u)
    from confinedD [OF assms(1) g inv step(1) [unfolded u]]
    have 1: "ch_gpio c1 = g" "invar b1" "\<forall>h. h \<noteq> g \<longrightarrow> uses b1 h = uses b h" by simp_all
    from confinedD [OF assms(2) 1(1,2) step(2) [unfolded u]] 1(3) show ?thesis by simp
  qed
qed

lemma confined_ret [simp]: "confined uses invar g (ret a)"
  by (simp add: confined_def)

lemma confined_Pair [simp]: "confined uses invar g (Pair r)"
  by (simp add: confined_def)

lemma confined_set_mode [simp]: "confined uses invar g (set_channel_mode m)"
  by (simp add: confined_def)

lemma confined_on_backend:
  assumes "\<And>b r b'. invar b \<Longrightarrow> m b = (r, b') \<Longrightarrow>
    invar b' \<and> (\<forall>h. h \<noteq> g \<longrightarrow> uses b' h = uses b h)"
  shows "confined uses invar g (on_backend m)"
  using assms by (auto simp: confined_def on_backend_def split: prod.splits)

context gpio_backend
begin

lemma confined_release: "confined uses invar g (on_backend (release_line B g))"
  by (rule confined_on_backend) (use release_frame in force)

lemma confined_input: "confined uses invar g (on_backend (request_input B g))"
  by (rule confined_on_backend) (use input_frame in force)

lemma confined_output: "confined uses invar g (on_backend (request_output B g v))"
  by (rule confined_on_backend) (use output_frame in force)

lemma confined_set: "confined uses invar g (on_backend (set_value B g v))"
  by (rule confined_on_backend) (rule set_frame)

lemma confined_get: "confined uses invar g (on_backend (get_value B g))"
  by (rule confined_on_backend) (simp add: get_frame)

lemmas confined_ops = confined_release confined_input confined_output confined_set confined_get

lemma on_type_changed_confined: "confined uses invar g (on_type_changed B t)"
  unfolding confined_def
proof (intro allI impI)
  fix c b r c' b'
  assume g: "ch_gpio c = g" and inv: "invar b" and run: "on_type_changed B t (c, b) = (r, (c', b'))"
  show "ch_gpio c' = g \<and> invar b' \<and> (\<forall>h. h \<noteq> g \<longrightarrow> uses b' h = uses b h)"
  proof (cases "requested_mode t")
    case None
    have "confined uses invar g
        (andThen (on_backend (release_line B g)) (\<lambda>_. set_channel_mode Unconfigured))"
      by (intro confined_andThen confined_ops confined_set_mode)
    from confinedD [OF this g inv] None run g inv show ?thesis
      by (cases "ch_mode c = Unconfigured") (auto simp: on_type_changed_def)
  next
    case (Some m)
    let ?act = "andThen (if ch_mode c \<noteq> Unconfigured then on_backend (release_line B g)
                   else ret ()) (\<lambda>_.
          andThen (if m = DigitalInput then on_backend (request_input B g)
                   else on_backend (request_output B g (ch_last_output c))) (\<lambda>_.
            set_channel_mode m))"
    have "confined uses invar g ?act"
      by (intro confined_andThen confined_set_mode) (simp_all add: confined_ops)
    from confinedD [OF this g inv] Some run g inv show ?thesis
      by (cases "m = ch_mode c") (auto simp: on_type_changed_def)
  qed
qed

lemma on_valset_confined: "confined uses invar g (on_valset B v)"
  unfolding confined_def
proof (intro allI impI)
  fix c b r c' b'
  assume g: "ch_gpio c = g" and inv: "invar b" and run: "on_valset B v (c, b) = (r, (c', b'))"
  show "ch_gpio c' = g \<and> invar b' \<and> (\<forall>h. h \<noteq> g \<longrightarrow> uses b' h = uses b h)"
  proof (cases "ch_mode c = DigitalOutput")
    case True
    with run g have "on_backend (set_value B g (v \<noteq> 0)) (c\<lparr>ch_last_output := (v \<noteq> 0)\<rparr>, b) =
        (r, (c', b'))"
      by (simp add: on_valset_def Let_def)
    from confinedD [OF confined_ops(4) _ inv this] g show ?thesis by simp
  qed (use run g inv in \<open>auto simp: on_valset_def Let_def\<close>)
qed

lemma sample_input_confined: "confined uses invar g (sample_input B)"
  unfolding confined_def
proof (intro allI impI)
  fix c b r c' b'
  assume g: "ch_gpio c = g" and inv: "invar b" and run: "sample_input B (c, b) = (r, (c', b'))"
  show "ch_gpio c' = g \<and> invar b' \<and> (\<forall>h. h \<noteq> g \<longrightarrow> uses b' h = uses b h)"
  proof (cases "ch_mode c = DigitalInput")
    case True
    with run g have "on_backend (get_value B g) (c, b) = (r, (c', b'))"
      by (simp add: sample_input_def)
    from confinedD [OF confined_ops(5) g inv this] show ?thesis .
  qed (use run g inv in \<open>auto simp: sample_input_def\<close>)
qed

lemma hal_step_confined: "confined uses invar g (hal_step B x)"
  by (cases x)
    (simp_all add: on_type_changed_confined on_valset_confined sample_input_confined
      confined_andThen)

lemma hal_run_confined: "confined uses invar g (hal_run B xs)"
  by (induction xs) (simp_all add: confined_andThen hal_step_confined)

end


section \<open>Repeated and dropped requests\<close>

lemma on_type_changed_same:
  "requested_mode t = Some (ch_mode c) \<Longrightarrow> on_type_changed B t (c, b) = (Inr (), (c, b))"
  by (simp add: on_type_changed_def)

lemma on_type_changed_twice:
  assumes "on_type_changed B t s = (Inr ok, s')"
  shows "on_type_changed B t s' = (Inr (), s')"
proof -
  obtain c b c' b' where s: "s = (c, b)" "s' = (c', b')" by (cases s; cases s')
  with assms have "c' = c\<lparr>ch_mode := mode_of_type t\<rparr>" by (simp add: on_type_changed_returns)
  then show ?thesis
    by (cases "requested_mode t") (simp_all add: s on_type_changed_def mode_of_type_def)
qed

section \<open>Properties\<close>

text \<open>
  C19 (refinement): as long as no library call throws, a channel on the libgpiod backend is the
  abstract channel: after any sequence of HAL types, values and samples its mode is that of
  the last type, its remembered output that of the last value (also of values dropped while it
  was not an output), and its line is used exactly as they say: free, input, or output driven
  at that level. Every other line is as it was.
\<close>

theorem channel_drives_its_line:
  assumes "gpiod_inv b" "line_uses b (ch_gpio c) = expected_use c"
    and "hal_run (libgpiod_backend L) xs (c, b) = (Inr (), (c', b'))"
  shows "c' = fold abstract_op xs c \<and> line_uses b' = (line_uses b)(ch_gpio c := expected_use c')"
  using lib.hal_run_refines [OF assms] by simp

lemma channel_drives_its_line_witness:
  "line_uses (snd (snd (hal_run (libgpiod_backend quiet_lib)
      [HalType 0, HalVal 255, HalType 1] (new_channel 0 17, new_libgpiod_backend)))) 17
   = Some (UseOutput True)"
proof -
  let ?r = "hal_run (libgpiod_backend quiet_lib) [HalType 0, HalVal 255, HalType 1]
    (new_channel 0 17, new_libgpiod_backend)"
  have "?r = (Inr (), (fst (snd ?r), snd (snd ?r)))"
    by (simp add: on_type_changed_def on_valset_def requested_mode_def new_channel_def andThen_def
        on_backend_def gpiod_defs quiet_lib_def new_libgpiod_backend_def usable_def)
  from channel_drives_its_line [OF _ _ this] show ?thesis
    by (simp add: new_channel_def expected_use_def mode_of_type_def requested_mode_def)
qed

text \<open>
  Whatever the library throws and whenever, a channel never changes the use of a
  line other than its own, and the backend's own bookkeeping stays right.
\<close>

theorem channel_confined_to_its_line:
  assumes "gpiod_inv b" "hal_run (libgpiod_backend L) xs (c, b) = (r, (c', b'))"
  shows "gpiod_inv b' \<and> (\<forall>h. h \<noteq> ch_gpio c \<longrightarrow> line_uses b' h = line_uses b h)"
  using confinedD [OF lib.hal_run_confined refl assms] by simp

definition busy_lib :: gpiod_lib where
  "busy_lib = \<lparr>throws = (\<lambda>_ call. case call of
      Request_out _ _ \<Rightarrow> Some System_error | _ \<Rightarrow> None), level = (\<lambda>_ _. 1)\<rparr>"

lemma channel_confined_to_its_line_witness:
  "line_uses (snd (snd (hal_run (libgpiod_backend busy_lib)
      [HalType 0, HalType 1] (new_channel 0 17, new_libgpiod_backend)))) 26 = None"
proof -
  let ?r = "hal_run (libgpiod_backend busy_lib) [HalType 0, HalType 1]
    (new_channel 0 17, new_libgpiod_backend)"
  have "?r = (fst ?r, (fst (snd ?r), snd (snd ?r)))" by simp
  from channel_confined_to_its_line [OF gpiod_inv_new this] show ?thesis
    by (simp add: new_channel_def)
qed

text \<open>
  Reconfiguring to the type the channel already has is invisible to every
  backend: a repeated type can be struck from any sequence of requests.
\<close>

theorem repeated_type_is_silent:
  "hal_run B (HalType t # HalType t # xs) s = hal_run B (HalType t # xs) s"
proof -
  obtain r s' where "on_type_changed B t s = (r, s')" by (meson surj_pair)
  then show ?thesis
    by (cases r) (simp_all add: andThen_def on_type_changed_twice)
qed

text \<open>
  A value that arrives before the channel is an output reaches no backend,
  but is the level the line starts with when the channel becomes an output: the two requests
  amount to releasing the line if it was held and requesting it at that level.
\<close>

theorem early_value_is_reinstated:
  assumes "ch_mode c \<noteq> DigitalOutput"
  shows "hal_run B [HalVal v, HalType 1] (c, b) =
    andThen (if ch_mode c = DigitalInput then on_backend (release_line B (ch_gpio c)) else ret ())
      (\<lambda>_. andThen (on_backend (request_output B (ch_gpio c) (v \<noteq> 0)))
        (\<lambda>_. set_channel_mode DigitalOutput)) (c\<lparr>ch_last_output := (v \<noteq> 0)\<rparr>, b)"
proof -
  let ?c = "c\<lparr>ch_last_output := (v \<noteq> 0)\<rparr>"
  have "on_valset B v (c, b) = (Inr (), (?c, b))"
    using assms by (simp add: on_valset_def Let_def)
  then have "hal_run B [HalVal v, HalType 1] (c, b) = on_type_changed B 1 (?c, b)"
    by (simp add: andThen_step andThen_ret_unit)
  with assms show ?thesis
    by (cases "ch_mode c") (simp_all add: on_type_changed_def requested_mode_def)
qed

lemma early_value_is_reinstated_witness:
  "line_uses (snd (snd (hal_run (libgpiod_backend quiet_lib)
      [HalVal 255, HalType 1] (new_channel 0 17, new_libgpiod_backend)))) 17
   = Some (UseOutput True)"
  by (subst early_value_is_reinstated)
    (simp_all add: new_channel_def andThen_def on_backend_def gpiod_defs quiet_lib_def
      new_libgpiod_backend_def line_uses_def)

end
