(* ===== verification/Nt_Topics.thy ===== *)
theory Nt_Topics
  imports Surrogate_Prelude
begin

text \<open>
  nt_topics.hpp: the topic paths, and the view of NetworkTables the components share. The
  ntcore library is outside src/: what one pass of a component reads of it is a map from topic
  names to the latest value of each type, given per pass, and as documented a subscriber's
  \<open>Get\<close> returns the default it was created with while its topic holds no value.
\<close>

section \<open>Topic paths\<close>

definition kServerReady :: string where "kServerReady = ''/Netcomm/Control/ServerReady''"
definition kControlData :: string where "kControlData = ''/Netcomm/Control/ControlData''"
definition kBattery :: string where "kBattery = ''/sys/battery''"
definition kCtrlEnabled :: string where "kCtrlEnabled = ''/dev/control/enabled''"
definition kCtrlMode :: string where "kCtrlMode = ''/dev/control/mode''"
definition kCtrlAlliance :: string where "kCtrlAlliance = ''/dev/control/alliance''"
definition kCtrlEStop :: string where "kCtrlEStop = ''/dev/control/estop''"
definition kDiagHeartbeat :: string where "kDiagHeartbeat = ''/dev/diag/heartbeat''"
definition kDiagP99 :: string where "kDiagP99 = ''/dev/diag/cadence_p99_ms''"
definition kDiagP50 :: string where "kDiagP50 = ''/dev/diag/cadence_p50_ms''"
definition kDiagUptime :: string where "kDiagUptime = ''/dev/diag/uptime_s''"
definition kDiagBuildInfo :: string where "kDiagBuildInfo = ''/dev/diag/build_info''"
definition kTypeProtoControlData :: string where
  "kTypeProtoControlData = ''proto:mrc.proto.ProtobufControlData''"

section \<open>Subscribers\<close>

type_synonym 'v nt_values = "string \<Rightarrow> 'v option"

record 'v Subscriber =
  sub_topic :: string
  sub_default :: 'v

definition sub_get :: "'v nt_values \<Rightarrow> 'v Subscriber \<Rightarrow> 'v" where
  "sub_get nt s = (case nt (sub_topic s) of None \<Rightarrow> sub_default s | Some v \<Rightarrow> v)"

definition subscribe :: "string \<Rightarrow> 'v \<Rightarrow> 'v Subscriber" where
  "subscribe topic d = \<lparr>sub_topic = topic, sub_default = d\<rparr>"

definition topic_or :: "'v \<Rightarrow> 'v nt_values \<Rightarrow> string \<Rightarrow> 'v" where
  "topic_or d nt topic = (case nt topic of None \<Rightarrow> d | Some v \<Rightarrow> v)"

lemma sub_get_subscribe [simp]: "sub_get nt (subscribe topic d) = topic_or d nt topic"
  by (simp add: sub_get_def subscribe_def topic_or_def split: option.split)

lemma topic_or_simps [simp]:
  "nt topic = None \<Longrightarrow> topic_or d nt topic = d" "nt topic = Some v \<Longrightarrow> topic_or d nt topic = v"
  by (simp_all add: topic_or_def)

end
