(* ===== verification/Smartio_Bridge.thy ===== *)
theory Smartio_Bridge
  imports Smartio_State Cxx_Text Nt_Topics
begin

text \<open>
  smartio_bridge.{hpp,cpp}: one glue record per (channel, gpio) mapping, polled by \<open>tick\<close>.
  A tick is given the integers that NetworkTables then holds; what it publishes is a list of
  (topic, value) pairs.
\<close>

section \<open>State and operations\<close>

definition kSentinel :: i64 where
  "kSentinel = - 9999"

record PinMapping =
  pm_channel :: i32
  pm_gpio :: i32

record ChannelGlue =
  g_channel :: SmartIoChannel
  type_sub :: "i64 Subscriber"
  valset_sub :: "i64 Subscriber"
  valget_pub :: string
  last_type :: i64
  last_valset :: i64

definition io_topic :: "i32 \<Rightarrow> string \<Rightarrow> string" where
  "io_topic channel leaf = ''/io/'' @ int_string (sint channel) @ leaf"

definition new_glue :: "PinMapping \<Rightarrow> ChannelGlue" where
  "new_glue m =
    \<lparr>g_channel = new_channel (pm_channel m) (pm_gpio m),
     type_sub = subscribe (io_topic (pm_channel m) ''/type'') kSentinel,
     valset_sub = subscribe (io_topic (pm_channel m) ''/valset'') kSentinel,
     valget_pub = io_topic (pm_channel m) ''/valget'',
     last_type = kSentinel, last_valset = kSentinel\<rparr>"

definition new_smartio_bridge :: "PinMapping list \<Rightarrow> ChannelGlue list" where
  "new_smartio_bridge mappings = map new_glue mappings"

text \<open>A tick works on the glue, the shared backend and the publications made so far.\<close>

type_synonym published = "(string \<times> i64) list"

definition on_channel ::
  "(SmartIoChannel \<times> 'b, 'a) act \<Rightarrow> (ChannelGlue \<times> 'b \<times> published, 'a) act" where
  "on_channel m = (\<lambda>(g, b, out). case m (g_channel g, b) of
      (r, (c, b')) \<Rightarrow> (r, (g\<lparr>g_channel := c\<rparr>, b', out)))"

definition tick_type ::
  "'b IGpioBackend \<Rightarrow> i64 nt_values \<Rightarrow> (ChannelGlue \<times> 'b \<times> published, unit) act" where
  "tick_type B nt = (\<lambda>(g, b, out).
    let t = sub_get nt (type_sub g) in
    if t \<noteq> last_type g \<and> t \<noteq> kSentinel
    then andThen (on_channel (on_type_changed B (int_of_int64 t)))
           (\<lambda>_. modify (\<lambda>(g, b, out). (g\<lparr>last_type := t\<rparr>, b, out))) (g, b, out)
    else (Inr (), (g, b, out)))"

definition tick_valset ::
  "'b IGpioBackend \<Rightarrow> i64 nt_values \<Rightarrow> (ChannelGlue \<times> 'b \<times> published, unit) act" where
  "tick_valset B nt = (\<lambda>(g, b, out).
    let v = sub_get nt (valset_sub g) in
    if v \<noteq> last_valset g \<and> v \<noteq> kSentinel
    then andThen (on_channel (on_valset B (int_of_int64 v)))
           (\<lambda>_. modify (\<lambda>(g, b, out). (g\<lparr>last_valset := v\<rparr>, b, out))) (g, b, out)
    else (Inr (), (g, b, out)))"

definition tick_sample ::
  "'b IGpioBackend \<Rightarrow> (ChannelGlue \<times> 'b \<times> published, unit) act" where
  "tick_sample B = (\<lambda>(g, b, out).
    if ch_mode (g_channel g) = DigitalInput
    then andThen (on_channel (sample_input B))
           (\<lambda>hi. modify (\<lambda>(g, b, out). (g, b, out @ [(valget_pub g, if hi then 255 else 0)])))
           (g, b, out)
    else (Inr (), (g, b, out)))"

definition glue_tick ::
  "'b IGpioBackend \<Rightarrow> i64 nt_values \<Rightarrow> (ChannelGlue \<times> 'b \<times> published, unit) act" where
  "glue_tick B nt = andThen (tick_type B nt) (\<lambda>_. andThen (tick_valset B nt) (\<lambda>_. tick_sample B))"

text \<open>The loop over \<open>channels_\<close>; an exception leaves the remaining channels untouched.\<close>

fun bridge_tick ::
  "'b IGpioBackend \<Rightarrow> i64 nt_values \<Rightarrow> (ChannelGlue list \<times> 'b \<times> published, unit) act" where
  "bridge_tick B nt ([], b, out) = (Inr (), ([], b, out))"
| "bridge_tick B nt (g # gs, b, out) =
    (case glue_tick B nt (g, b, out) of
       (Inl e, (g', b', out')) \<Rightarrow> (Inl e, (g' # gs, b', out'))
     | (Inr _, (g', b', out')) \<Rightarrow>
         (case bridge_tick B nt (gs, b', out') of
            (r, (gs', b'', out'')) \<Rightarrow> (r, (g' # gs', b'', out''))))"

text \<open>The periodic thread: one tick per element, each with what NetworkTables then holds.\<close>

fun bridge_run ::
  "'b IGpioBackend \<Rightarrow> i64 nt_values list \<Rightarrow> (ChannelGlue list \<times> 'b \<times> published, unit) act" where
  "bridge_run B [] = ret ()"
| "bridge_run B (nt # nts) = andThen (bridge_tick B nt) (\<lambda>_. bridge_run B nts)"

definition channel_count :: "ChannelGlue list \<Rightarrow> nat" where
  "channel_count gs = length gs"

definition channels_configured :: "ChannelGlue list \<Rightarrow> nat" where
  "channels_configured gs = length (filter (\<lambda>g. ch_mode (g_channel g) \<noteq> Unconfigured) gs)"

definition kBridgeTickPeriod :: int where
  "kBridgeTickPeriod = 20"

section \<open>The abstract bridge\<close>

text \<open>
  What a channel should be: its last type and value are the latest proper ones seen on its
  topics, its mode and level are what those values mean.
\<close>

definition seen :: "i64 \<Rightarrow> i64 \<Rightarrow> i64" where
  "seen new old = (if new = kSentinel then old else new)"

definition mode_seen :: "i64 \<Rightarrow> ChannelMode" where
  "mode_seen t = (if t = kSentinel then Unconfigured else mode_of_type (int_of_int64 t))"

definition level_seen :: "i64 \<Rightarrow> bool" where
  "level_seen v \<longleftrightarrow> v \<noteq> kSentinel \<and> int_of_int64 v \<noteq> 0"

definition glue_ok :: "ChannelGlue \<Rightarrow> bool" where
  "glue_ok g \<longleftrightarrow> ch_mode (g_channel g) = mode_seen (last_type g)
    \<and> ch_last_output (g_channel g) = level_seen (last_valset g)"

definition abstract_type :: "i64 nt_values \<Rightarrow> ChannelGlue \<Rightarrow> ChannelGlue" where
  "abstract_type nt g = (let t = seen (sub_get nt (type_sub g)) (last_type g) in
     g\<lparr>last_type := t, g_channel := (g_channel g)\<lparr>ch_mode := mode_seen t\<rparr>\<rparr>)"

definition abstract_valset :: "i64 nt_values \<Rightarrow> ChannelGlue \<Rightarrow> ChannelGlue" where
  "abstract_valset nt g = (let v = seen (sub_get nt (valset_sub g)) (last_valset g) in
     g\<lparr>last_valset := v, g_channel := (g_channel g)\<lparr>ch_last_output := level_seen v\<rparr>\<rparr>)"

definition abstract_glue :: "i64 nt_values \<Rightarrow> ChannelGlue \<Rightarrow> ChannelGlue" where
  "abstract_glue nt g = abstract_valset nt (abstract_type nt g)"

definition glue_gpio :: "ChannelGlue \<Rightarrow> i32" where
  "glue_gpio g = ch_gpio (g_channel g)"

lemma glue_ok_new [simp]: "glue_ok (new_glue m)"
  by (simp add: glue_ok_def new_glue_def new_channel_def mode_seen_def level_seen_def)

lemma glue_ok_abstract:
  "glue_ok g \<Longrightarrow> glue_ok (abstract_type nt g)" "glue_ok g \<Longrightarrow> glue_ok (abstract_valset nt g)"
  "glue_ok g \<Longrightarrow> glue_ok (abstract_glue nt g)"
  by (simp_all add: glue_ok_def abstract_type_def abstract_valset_def abstract_glue_def Let_def)

lemma abstract_glue_gpio [simp]:
  "glue_gpio (abstract_type nt g) = glue_gpio g" "glue_gpio (abstract_valset nt g) = glue_gpio g"
  "glue_gpio (abstract_glue nt g) = glue_gpio g"
  by (simp_all add: abstract_type_def abstract_valset_def abstract_glue_def glue_gpio_def Let_def)

lemma glue_id:
  "g\<lparr>last_type := last_type g, g_channel := (g_channel g)\<lparr>ch_mode := ch_mode (g_channel g)\<rparr>\<rparr> = g"
  "g\<lparr>last_valset := last_valset g,
     g_channel := (g_channel g)\<lparr>ch_last_output := ch_last_output (g_channel g)\<rparr>\<rparr> = g"
  by simp_all

lemma abstract_type_same:
  "glue_ok g \<Longrightarrow> seen (sub_get nt (type_sub g)) (last_type g) = last_type g \<Longrightarrow> abstract_type nt g = g"
  by (simp add: abstract_type_def glue_ok_def flip: glue_id)

lemma abstract_valset_same:
  "glue_ok g \<Longrightarrow> seen (sub_get nt (valset_sub g)) (last_valset g) = last_valset g \<Longrightarrow>
     abstract_valset nt g = g"
  by (simp add: abstract_valset_def glue_ok_def flip: glue_id)

lemma on_channel_Inr [act_simps]:
  "on_channel m (g, b, out) = (Inr x, (g', b', out')) \<longleftrightarrow>
     (\<exists>c. m (g_channel g, b) = (Inr x, (c, b')) \<and> g' = g\<lparr>g_channel := c\<rparr> \<and> out' = out)"
  by (auto simp: on_channel_def split: prod.splits)

lemma on_channel_Inl [act_simps]:
  "on_channel m (g, b, out) = (Inl x, (g', b', out')) \<longleftrightarrow>
     (\<exists>c. m (g_channel g, b) = (Inl x, (c, b')) \<and> g' = g\<lparr>g_channel := c\<rparr> \<and> out' = out)"
  by (auto simp: on_channel_def split: prod.splits)

section \<open>A tick that returns is an abstract tick\<close>

definition tracks :: "(i32 \<rightharpoonup> line_use) \<Rightarrow> ChannelGlue \<Rightarrow> bool" where
  "tracks u g \<longleftrightarrow> glue_ok g \<and> u (glue_gpio g) = expected_use (g_channel g)"

lemma tracks_other: "h \<noteq> glue_gpio g \<Longrightarrow> tracks (u(h := x)) g = tracks u g"
  by (simp add: tracks_def)

lemma tracks_rest:
  assumes "\<forall>x \<in> set (g # gs). tracks u x" "distinct (map glue_gpio (g # gs))"
  shows "\<forall>x \<in> set gs. tracks (u(glue_gpio g := w)) x"
proof
  fix x
  assume x: "x \<in> set gs"
  with assms(2) have "glue_gpio g \<noteq> glue_gpio x" by auto
  with assms(1) x show "tracks (u(glue_gpio g := w)) x" by (simp add: tracks_other)
qed

context gpio_driver
begin

lemma tick_type_refines:
  assumes "invar b" "tracks (uses b) g" "tick_type B nt (g, b, out) = (Inr ok, (g', b', out'))"
  shows "g' = abstract_type nt g \<and> out' = out \<and> invar b' \<and>
    uses b' = (uses b)(glue_gpio g := expected_use (g_channel g'))"
proof (cases "sub_get nt (type_sub g) \<noteq> last_type g \<and> sub_get nt (type_sub g) \<noteq> kSentinel")
  case True
  with assms(3) obtain ok' c where
    run: "on_type_changed B (int_of_int64 (sub_get nt (type_sub g))) (g_channel g, b) = (Inr ok', (c, b'))"
    and g': "g' = g\<lparr>g_channel := c, last_type := sub_get nt (type_sub g)\<rparr>" "out' = out"
    by (auto simp: tick_type_def Let_def act_simps)
  from assms(2) have "uses b (ch_gpio (g_channel g)) = expected_use (g_channel g)"
    by (simp add: tracks_def glue_gpio_def)
  from on_type_changed_use [OF assms(1) this run] on_type_changed_returns [OF run] g' True
  show ?thesis by (simp add: abstract_type_def Let_def seen_def mode_seen_def glue_gpio_def)
next
  case False
  with assms(3) have same: "g' = g" "b' = b" "out' = out"
    by (auto simp: tick_type_def Let_def)
  from assms(2) False have "abstract_type nt g = g"
    by (intro abstract_type_same) (auto simp: tracks_def seen_def)
  with same assms(1,2) show ?thesis by (simp add: tracks_def fun_upd_idem)
qed

lemma tick_valset_refines:
  assumes "invar b" "tracks (uses b) g" "tick_valset B nt (g, b, out) = (Inr ok, (g', b', out'))"
  shows "g' = abstract_valset nt g \<and> out' = out \<and> invar b' \<and>
    uses b' = (uses b)(glue_gpio g := expected_use (g_channel g'))"
proof (cases "sub_get nt (valset_sub g) \<noteq> last_valset g \<and> sub_get nt (valset_sub g) \<noteq> kSentinel")
  case True
  with assms(3) obtain ok' c where
    run: "on_valset B (int_of_int64 (sub_get nt (valset_sub g))) (g_channel g, b) = (Inr ok', (c, b'))"
    and g': "g' = g\<lparr>g_channel := c, last_valset := sub_get nt (valset_sub g)\<rparr>" "out' = out"
    by (auto simp: tick_valset_def Let_def act_simps)
  from assms(2) have "uses b (ch_gpio (g_channel g)) = expected_use (g_channel g)"
    by (simp add: tracks_def glue_gpio_def)
  from on_valset_use [OF assms(1) this run] on_valset_channel [OF run] g' True
  show ?thesis by (simp add: abstract_valset_def Let_def seen_def level_seen_def glue_gpio_def)
next
  case False
  with assms(3) have same: "g' = g" "b' = b" "out' = out"
    by (auto simp: tick_valset_def Let_def)
  from assms(2) False have "abstract_valset nt g = g"
    by (intro abstract_valset_same) (auto simp: tracks_def seen_def)
  with same assms(1,2) show ?thesis by (simp add: tracks_def fun_upd_idem)
qed

lemma tick_sample_refines:
  assumes "invar b" "tick_sample B (g, b, out) = (Inr ok, (g', b', out'))"
  shows "g' = g \<and> invar b' \<and> uses b' = uses b"
proof (cases "ch_mode (g_channel g) = DigitalInput")
  case True
  with assms(2) obtain x c where
    run: "sample_input B (g_channel g, b) = (Inr x, (c, b'))" and g': "g' = g\<lparr>g_channel := c\<rparr>"
    by (auto simp: tick_sample_def act_simps)
  with sample_input_use [OF assms(1) run] sample_input_channel [OF run] show ?thesis by simp
next
  case False
  with assms show ?thesis by (simp add: tick_sample_def)
qed

lemma glue_tick_refines:
  assumes "invar b" "tracks (uses b) g" "glue_tick B nt (g, b, out) = (Inr ok, (g', b', out'))"
  shows "g' = abstract_glue nt g \<and> invar b' \<and>
    uses b' = (uses b)(glue_gpio g := expected_use (g_channel g'))"
proof -
  from assms(3) obtain ok1 g1 b1 out1 ok2 g2 b2 out2 where
    s: "tick_type B nt (g, b, out) = (Inr ok1, (g1, b1, out1))"
    "tick_valset B nt (g1, b1, out1) = (Inr ok2, (g2, b2, out2))"
    "tick_sample B (g2, b2, out2) = (Inr ok, (g', b', out'))"
    by (auto simp: glue_tick_def act_simps)
  from tick_type_refines [OF assms(1,2) s(1)] have 1: "g1 = abstract_type nt g" "invar b1"
    "uses b1 = (uses b)(glue_gpio g := expected_use (g_channel g1))" by simp_all
  then have "tracks (uses b1) g1" using assms(2) by (simp add: tracks_def glue_ok_abstract)
  from tick_valset_refines [OF 1(2) this s(2)] 1 have 2: "g2 = abstract_glue nt g" "invar b2"
    "uses b2 = (uses b)(glue_gpio g := expected_use (g_channel g2))"
    by (simp_all add: abstract_glue_def)
  from tick_sample_refines [OF 2(2) s(3)] 2 show ?thesis by simp
qed

lemma glue_tick_tracks:
  assumes "invar b" "tracks (uses b) g" "glue_tick B nt (g, b, out) = (Inr ok, (g', b', out'))"
  shows "tracks (uses b') g'"
  using glue_tick_refines [OF assms] assms(2)
  by (simp add: tracks_def glue_ok_abstract)

lemma bridge_tick_refines:
  assumes "invar b" "\<forall>g \<in> set gs. tracks (uses b) g" "distinct (map glue_gpio gs)"
    and "bridge_tick B nt (gs, b, out) = (Inr ok, (gs', b', out'))"
  shows "gs' = map (abstract_glue nt) gs \<and> invar b' \<and> (\<forall>g \<in> set gs'. tracks (uses b') g) \<and>
    (\<forall>h. h \<notin> glue_gpio ` set gs \<longrightarrow> uses b' h = uses b h)"
  using assms
proof (induction gs arbitrary: b out gs')
  case (Cons g gs)
  from Cons.prems(4) obtain ok1 g1 b1 out1 gs1 where
    s1: "glue_tick B nt (g, b, out) = (Inr ok1, (g1, b1, out1))"
    and s2: "bridge_tick B nt (gs, b1, out1) = (Inr ok, (gs1, b', out'))" and gs': "gs' = g1 # gs1"
    by (auto split: prod.splits sum.splits)
  from Cons.prems(2) have tr: "tracks (uses b) g" by simp
  from glue_tick_refines [OF Cons.prems(1) tr s1] have r1: "g1 = abstract_glue nt g" "invar b1"
    "uses b1 = (uses b)(glue_gpio g := expected_use (g_channel g1))" by simp_all
  have "\<forall>x \<in> set gs. tracks (uses b1) x"
    unfolding r1(3) by (rule tracks_rest [OF Cons.prems(2,3)])
  from Cons.IH [OF r1(2) this _ s2] Cons.prems(3) have r2: "gs1 = map (abstract_glue nt) gs"
    "invar b'" "\<forall>x \<in> set gs1. tracks (uses b') x" "\<forall>h. h \<notin> glue_gpio ` set gs \<longrightarrow> uses b' h = uses b1 h"
    by simp_all
  have "tracks (uses b1) g1" by (rule glue_tick_tracks [OF Cons.prems(1) tr s1])
  moreover have "uses b' (glue_gpio g1) = uses b1 (glue_gpio g1)"
    using r2(4) Cons.prems(3) r1(1) by auto
  ultimately have "tracks (uses b') g1" by (simp add: tracks_def)
  with r1 r2 gs' show ?case by auto
qed simp

lemma bridge_run_refines:
  assumes "invar b" "\<forall>g \<in> set gs. tracks (uses b) g" "distinct (map glue_gpio gs)"
    and "bridge_run B nts (gs, b, out) = (Inr ok, (gs', b', out'))"
  shows "gs' = map (fold abstract_glue nts) gs \<and> invar b' \<and> (\<forall>g \<in> set gs'. tracks (uses b') g)"
  using assms
proof (induction nts arbitrary: gs b out)
  case Nil
  then show ?case by simp
next
  case (Cons nt nts)
  from Cons.prems(4) obtain ok1 gs1 b1 out1 where
    s: "bridge_tick B nt (gs, b, out) = (Inr ok1, (gs1, b1, out1))"
    and rest: "bridge_run B nts (gs1, b1, out1) = (Inr ok, (gs', b', out'))"
    by (auto simp: act_simps)
  from bridge_tick_refines [OF Cons.prems(1-3) s] have r: "gs1 = map (abstract_glue nt) gs"
    "invar b1" "\<forall>g \<in> set gs1. tracks (uses b1) g" by simp_all
  from r(1) Cons.prems(3) have "distinct (map glue_gpio gs1)" by (simp add: o_def)
  from Cons.IH [OF r(2,3) this rest] r(1) show ?case by simp
qed

end

section \<open>What a tick can touch, whatever throws\<close>

definition glue_confined ::
  "('b \<Rightarrow> i32 \<rightharpoonup> line_use) \<Rightarrow> ('b \<Rightarrow> bool) \<Rightarrow> (ChannelGlue \<times> 'b \<times> published, 'a) act \<Rightarrow> bool"
where
  "glue_confined uses invar m \<longleftrightarrow> (\<forall>g b out r g' b' out'.
     invar b \<longrightarrow> m (g, b, out) = (r, (g', b', out')) \<longrightarrow>
       glue_gpio g' = glue_gpio g \<and> invar b' \<and> (\<forall>h. h \<noteq> glue_gpio g \<longrightarrow> uses b' h = uses b h))"

lemma glue_confinedD:
  assumes "glue_confined uses invar m" "invar b" "m (g, b, out) = (r, (g', b', out'))"
  shows "glue_gpio g' = glue_gpio g \<and> invar b' \<and> (\<forall>h. h \<noteq> glue_gpio g \<longrightarrow> uses b' h = uses b h)"
  using assms unfolding glue_confined_def by blast

lemma glue_confined_andThen:
  assumes "glue_confined uses invar m" "\<And>a. glue_confined uses invar (f a)"
  shows "glue_confined uses invar (andThen m f)"
  unfolding glue_confined_def
proof (intro allI impI)
  fix g b out r g' b' out'
  assume inv: "invar b" and run: "andThen m f (g, b, out) = (r, (g', b', out'))"
  from run show "glue_gpio g' = glue_gpio g \<and> invar b' \<and> (\<forall>h. h \<noteq> glue_gpio g \<longrightarrow> uses b' h = uses b h)"
  proof (cases rule: andThen_cases)
    case (throw e)
    from glue_confinedD [OF assms(1) inv throw(1)] show ?thesis .
  next
    case (step a u)
    obtain g1 b1 out1 where u: "u = (g1, b1, out1)" by (cases u)
    from glue_confinedD [OF assms(1) inv step(1) [unfolded u]]
    have 1: "glue_gpio g1 = glue_gpio g" "invar b1"
      "\<forall>h. h \<noteq> glue_gpio g \<longrightarrow> uses b1 h = uses b h" by simp_all
    from glue_confinedD [OF assms(2) 1(2) step(2) [unfolded u]] 1 show ?thesis by simp
  qed
qed

lemma glue_confined_on_channel:
  assumes "\<And>g. confined uses invar g m"
  shows "glue_confined uses invar (on_channel m)"
  unfolding glue_confined_def
proof (intro allI impI)
  fix g b out r g' b' out'
  assume inv: "invar b" and run: "on_channel m (g, b, out) = (r, (g', b', out'))"
  then obtain c where c: "m (g_channel g, b) = (r, (c, b'))" "g' = g\<lparr>g_channel := c\<rparr>"
    by (auto simp: on_channel_def split: prod.splits)
  from confinedD [OF assms refl inv c(1)] c(2)
  show "glue_gpio g' = glue_gpio g \<and> invar b' \<and> (\<forall>h. h \<noteq> glue_gpio g \<longrightarrow> uses b' h = uses b h)"
    by (simp add: glue_gpio_def)
qed

lemma glue_confined_modify:
  "(\<And>g. glue_gpio (f g) = glue_gpio g) \<Longrightarrow>
     glue_confined uses invar (modify (\<lambda>(g, b, out). (f g, b, h g out)))"
  by (simp add: glue_confined_def)

lemma glue_confined_if:
  assumes "\<And>t. glue_confined uses invar (m t)"
  shows "glue_confined uses invar (\<lambda>(g, b, out).
    if P g then m (k g) (g, b, out) else (Inr (), (g, b, out)))"
  unfolding glue_confined_def
proof (intro allI impI)
  fix g b out r g' b' out'
  assume "invar b"
    and "(\<lambda>(g, b, out). if P g then m (k g) (g, b, out) else (Inr (), (g, b, out))) (g, b, out)
      = (r, (g', b', out'))"
  then show "glue_gpio g' = glue_gpio g \<and> invar b' \<and> (\<forall>h. h \<noteq> glue_gpio g \<longrightarrow> uses b' h = uses b h)"
    by (cases "P g") (use glue_confinedD [OF assms, of b "k g" g out] in auto)
qed

context gpio_backend
begin

lemma tick_type_confined: "glue_confined uses invar (tick_type B nt)"
  unfolding tick_type_def Let_def
  by (rule glue_confined_if, intro glue_confined_andThen glue_confined_on_channel
      on_type_changed_confined glue_confined_modify) (simp add: glue_gpio_def)

lemma tick_valset_confined: "glue_confined uses invar (tick_valset B nt)"
  unfolding tick_valset_def Let_def
  by (rule glue_confined_if, intro glue_confined_andThen glue_confined_on_channel
      on_valset_confined glue_confined_modify) (simp add: glue_gpio_def)

lemma tick_sample_confined: "glue_confined uses invar (tick_sample B)"
  unfolding tick_sample_def
  by (rule glue_confined_if, intro glue_confined_andThen glue_confined_on_channel
      sample_input_confined glue_confined_modify [where f = "\<lambda>g. g"]) simp

lemma glue_tick_confined: "glue_confined uses invar (glue_tick B nt)"
  unfolding glue_tick_def
  by (intro glue_confined_andThen tick_type_confined tick_valset_confined tick_sample_confined)

lemma bridge_tick_frame:
  assumes "invar b" "bridge_tick B nt (gs, b, out) = (r, (gs', b', out'))"
  shows "map glue_gpio gs' = map glue_gpio gs \<and> invar b' \<and>
    (\<forall>h. h \<notin> glue_gpio ` set gs \<longrightarrow> uses b' h = uses b h)"
  using assms
proof (induction gs arbitrary: b out gs' r)
  case (Cons g gs)
  obtain r1 g1 b1 out1 where s1: "glue_tick B nt (g, b, out) = (r1, (g1, b1, out1))"
    by (cases "glue_tick B nt (g, b, out)") auto
  from glue_confinedD [OF glue_tick_confined Cons.prems(1) s1]
  have 1: "glue_gpio g1 = glue_gpio g" "invar b1"
    "\<forall>h. h \<noteq> glue_gpio g \<longrightarrow> uses b1 h = uses b h" by simp_all
  show ?case
  proof (cases r1)
    case (Inl e)
    with Cons.prems(2) s1 1 show ?thesis by auto
  next
    case (Inr ok)
    with Cons.prems(2) s1 obtain gs1 where
      s2: "bridge_tick B nt (gs, b1, out1) = (r, (gs1, b', out'))" "gs' = g1 # gs1"
      by (auto split: prod.splits)
    from Cons.IH [OF 1(2) s2(1)] 1 s2(2) show ?thesis by auto
  qed
qed simp

lemma bridge_run_frame:
  assumes "invar b" "bridge_run B nts (gs, b, out) = (r, (gs', b', out'))"
  shows "invar b' \<and> (\<forall>h. h \<notin> glue_gpio ` set gs \<longrightarrow> uses b' h = uses b h)"
  using assms
proof (induction nts arbitrary: gs b out)
  case (Cons nt nts)
  from Cons.prems(2) [unfolded bridge_run.simps] show ?case
  proof (cases rule: andThen_cases)
    case (throw e)
    from bridge_tick_frame [OF Cons.prems(1) throw(1)] show ?thesis by simp
  next
    case (step a u)
    obtain gs1 b1 out1 where u: "u = (gs1, b1, out1)" by (cases u)
    from bridge_tick_frame [OF Cons.prems(1) step(1) [unfolded u]]
    have 1: "map glue_gpio gs1 = map glue_gpio gs" "invar b1"
      "\<forall>h. h \<notin> glue_gpio ` set gs \<longrightarrow> uses b1 h = uses b h" by simp_all
    from 1(1) have "glue_gpio ` set gs1 = glue_gpio ` set gs" by (metis set_map)
    with Cons.IH [OF 1(2) step(2) [unfolded u]] 1(3) show ?thesis by simp
  qed
qed simp

end

section \<open>What a tick publishes and what a steady tick calls\<close>

lemma abstract_glue_keeps [simp]:
  "valget_pub (abstract_glue nt g) = valget_pub g" "type_sub (abstract_glue nt g) = type_sub g"
  "valset_sub (abstract_glue nt g) = valset_sub g"
  "last_type (abstract_glue nt g) = seen (sub_get nt (type_sub g)) (last_type g)"
  "last_valset (abstract_glue nt g) = seen (sub_get nt (valset_sub g)) (last_valset g)"
  by (simp_all add: abstract_glue_def abstract_type_def abstract_valset_def Let_def)

lemma fold_abstract_glue:
  "type_sub (fold abstract_glue nts g) = type_sub g"
  "valset_sub (fold abstract_glue nts g) = valset_sub g"
  "glue_gpio (fold abstract_glue nts g) = glue_gpio g"
  "last_type (fold abstract_glue nts g) = fold (\<lambda>nt. seen (sub_get nt (type_sub g))) nts (last_type g)"
  "last_valset (fold abstract_glue nts g) =
     fold (\<lambda>nt. seen (sub_get nt (valset_sub g))) nts (last_valset g)"
  by (induction nts arbitrary: g) simp_all

definition published_level :: "(i32 \<Rightarrow> i32) \<Rightarrow> ChannelGlue \<Rightarrow> published" where
  "published_level lv g = (if ch_mode (g_channel g) = DigitalInput
     then [(valget_pub g, if lv (glue_gpio g) \<noteq> 0 then 255 else 0)] else [])"

lemma gpiod_get_level:
  assumes "gpiod_inv b" "line_uses b k \<noteq> None" "\<And>h j. level L h j = lv j"
    and "gpiod_get_value L k b = (Inr x, b')"
  shows "x \<longleftrightarrow> lv k \<noteq> 0"
proof -
  from assms(1,2) have "lines b k = Some (Some (Line k))"
    by (simp add: gpiod_inv_def handles_def)
  with assms(3,4) show ?thesis
    by (auto simp: gpiod_get_value_def usable_def andThen_Inr)
qed

lemma tick_sample_publishes:
  assumes "gpiod_inv b" "tracks (line_uses b) g" "\<And>h j. level L h j = lv j"
    and "tick_sample (libgpiod_backend L) (g, b, out) = (Inr ok, (g', b', out'))"
  shows "out' = out @ published_level lv g"
proof (cases "ch_mode (g_channel g) = DigitalInput")
  case True
  with assms(4) obtain x c where
    run: "sample_input (libgpiod_backend L) (g_channel g, b) = (Inr x, (c, b'))"
    and out': "out' = out @ [(valget_pub g, if x then 255 else 0)]"
    by (auto simp: tick_sample_def act_simps)
  from True run have "gpiod_get_value L (glue_gpio g) b = (Inr x, b')"
    by (simp add: sample_input_def glue_gpio_def act_simps)
  moreover from True assms(2) have "line_uses b (glue_gpio g) \<noteq> None"
    by (simp add: tracks_def)
  ultimately have "x \<longleftrightarrow> lv (glue_gpio g) \<noteq> 0"
    using gpiod_get_level assms(1,3) by blast
  with out' True show ?thesis by (simp add: published_level_def)
next
  case False
  with assms(4) show ?thesis by (simp add: tick_sample_def published_level_def)
qed

lemma glue_tick_publishes:
  assumes "gpiod_inv b" "tracks (line_uses b) g" "\<And>h j. level L h j = lv j"
    and "glue_tick (libgpiod_backend L) nt (g, b, out) = (Inr ok, (g', b', out'))"
  shows "out' = out @ published_level lv g'"
proof -
  let ?B = "libgpiod_backend L"
  from assms(4) obtain ok1 g1 b1 out1 ok2 g2 b2 out2 where
    s: "tick_type ?B nt (g, b, out) = (Inr ok1, (g1, b1, out1))"
    "tick_valset ?B nt (g1, b1, out1) = (Inr ok2, (g2, b2, out2))"
    "tick_sample ?B (g2, b2, out2) = (Inr ok, (g', b', out'))"
    by (auto simp: glue_tick_def act_simps)
  from lib.tick_type_refines [OF assms(1,2) s(1)] have 1: "gpiod_inv b1" "out1 = out"
    "tracks (line_uses b1) g1"
    using assms(2) by (simp_all add: tracks_def glue_ok_abstract)
  from lib.tick_valset_refines [OF 1(1,3) s(2)] have 2: "gpiod_inv b2" "out2 = out1"
    "tracks (line_uses b2) g2"
    using 1(3) by (simp_all add: tracks_def glue_ok_abstract)
  from lib.tick_sample_refines [OF 2(1) s(3)] have "g' = g2" by simp
  with tick_sample_publishes [OF 2(1,3) assms(3) s(3)] 1(2) 2(2) show ?thesis by simp
qed

lemma bridge_tick_publishes:
  assumes "gpiod_inv b" "\<forall>g \<in> set gs. tracks (line_uses b) g" "distinct (map glue_gpio gs)"
    and "\<And>h j. level L h j = lv j"
    and "bridge_tick (libgpiod_backend L) nt (gs, b, out) = (Inr ok, (gs', b', out'))"
  shows "out' = out @ concat (map (published_level lv) gs')"
  using assms(1-3,5)
proof (induction gs arbitrary: b out gs')
  case (Cons g gs)
  let ?B = "libgpiod_backend L"
  from Cons.prems(4) obtain ok1 g1 b1 out1 gs1 where
    s1: "glue_tick ?B nt (g, b, out) = (Inr ok1, (g1, b1, out1))"
    and s2: "bridge_tick ?B nt (gs, b1, out1) = (Inr ok, (gs1, b', out'))" and gs': "gs' = g1 # gs1"
    by (auto split: prod.splits sum.splits)
  from Cons.prems(2) have tr: "tracks (line_uses b) g" by simp
  from lib.glue_tick_refines [OF Cons.prems(1) tr s1] have r1: "gpiod_inv b1"
    "line_uses b1 = (line_uses b)(glue_gpio g := expected_use (g_channel g1))" by simp_all
  have "\<forall>x \<in> set gs. tracks (line_uses b1) x"
    unfolding r1(2) by (rule tracks_rest [OF Cons.prems(2,3)])
  from Cons.IH [OF r1(1) this _ s2] Cons.prems(3)
    glue_tick_publishes [OF Cons.prems(1) tr assms(4) s1] gs'
  show ?case by simp
qed simp

lemma published_levels: "concat (map (published_level lv) gs) =
  map (\<lambda>g. (valget_pub g, if lv (glue_gpio g) \<noteq> 0 then 255 else 0))
    (filter (\<lambda>g. ch_mode (g_channel g) = DigitalInput) gs)"
  by (induction gs) (simp_all add: published_level_def)

definition steady :: "i64 nt_values \<Rightarrow> ChannelGlue \<Rightarrow> bool" where
  "steady nt g \<longleftrightarrow> sub_get nt (type_sub g) \<in> {last_type g, kSentinel}
     \<and> sub_get nt (valset_sub g) \<in> {last_valset g, kSentinel}"

definition is_read :: "gpiod_event \<Rightarrow> bool" where
  "is_read e = (case fst e of Get_value _ \<Rightarrow> True | _ \<Rightarrow> False)"

lemma gpiod_get_only_reads:
  assumes "gpiod_get_value L k b = (r, b')"
  shows "lines b' = lines b \<and> (\<exists>es. calls b' = calls b @ es \<and> list_all is_read es)"
proof -
  have "calls b' = calls b \<or> (\<exists>off ok. calls b' = calls b @ [(Get_value off, ok)])"
    and "lines b' = lines b"
    using assms by (auto simp: gpiod_get_value_def gpiod_do_def andThen_def
      split: option.splits prod.splits if_splits sum.splits)
  then show ?thesis by (auto simp: is_read_def)
qed

lemma glue_tick_steady:
  assumes "steady nt g"
    and "glue_tick (libgpiod_backend L) nt (g, b, out) = (r, (g', b', out'))"
  shows "g' = g \<and> lines b' = lines b \<and> (\<exists>es. calls b' = calls b @ es \<and> list_all is_read es)"
proof -
  from assms have "tick_sample (libgpiod_backend L) (g, b, out) = (r, (g', b', out'))"
    by (auto simp: glue_tick_def tick_type_def tick_valset_def steady_def Let_def andThen_step)
  then have "g' = g \<and> (b' = b \<or> (\<exists>k r. gpiod_get_value L k b = (r, b')))"
    by (auto simp: tick_sample_def sample_input_def on_channel_def on_backend_def andThen_def
      split: if_splits prod.splits sum.splits)
  then show ?thesis using gpiod_get_only_reads by fastforce
qed

lemma bridge_tick_steady:
  assumes "\<forall>g \<in> set gs. steady nt g"
    and "bridge_tick (libgpiod_backend L) nt (gs, b, out) = (r, (gs', b', out'))"
  shows "gs' = gs \<and> lines b' = lines b \<and> (\<exists>es. calls b' = calls b @ es \<and> list_all is_read es)"
  using assms
proof (induction gs arbitrary: b out gs' r)
  case (Cons g gs)
  let ?B = "libgpiod_backend L"
  obtain r1 g1 b1 out1 where s1: "glue_tick ?B nt (g, b, out) = (r1, (g1, b1, out1))"
    by (cases "glue_tick ?B nt (g, b, out)") auto
  from Cons.prems(1) have "steady nt g" by simp
  from glue_tick_steady [OF this s1] obtain es where
    1: "g1 = g" "lines b1 = lines b" "calls b1 = calls b @ es" "list_all is_read es" by blast
  show ?case
  proof (cases r1)
    case (Inl e)
    with Cons.prems(2) s1 1 show ?thesis by auto
  next
    case (Inr ok)
    with Cons.prems(2) s1 obtain gs1 where
      s2: "bridge_tick ?B nt (gs, b1, out1) = (r, (gs1, b', out'))" "gs' = g1 # gs1"
      by (auto split: prod.splits)
    from Cons.prems(1) have "\<forall>g \<in> set gs. steady nt g" by simp
    from Cons.IH [OF this s2(1)] obtain es2 where
      "gs1 = gs" "lines b' = lines b1" "calls b' = calls b1 @ es2" "list_all is_read es2" by blast
    with 1 s2(2) show ?thesis by simp
  qed
qed auto

section \<open>Properties\<close>

definition use_seen :: "i64 \<Rightarrow> i64 \<Rightarrow> line_use option" where
  "use_seen t v = (case mode_seen t of
      Unconfigured \<Rightarrow> None
    | DigitalInput \<Rightarrow> Some UseInput
    | DigitalOutput \<Rightarrow> Some (UseOutput (level_seen v)))"

lemma tracks_use_seen: "tracks u g \<Longrightarrow> u (glue_gpio g) = use_seen (last_type g) (last_valset g)"
  by (cases "mode_seen (last_type g)")
    (simp_all add: tracks_def glue_ok_def use_seen_def expected_use_def)

lemma new_glue_topics:
  "sub_get nt (type_sub (new_glue m)) = topic_or kSentinel nt (io_topic (pm_channel m) ''/type'')"
  "sub_get nt (valset_sub (new_glue m)) = topic_or kSentinel nt (io_topic (pm_channel m) ''/valset'')"
  "last_type (new_glue m) = kSentinel" "last_valset (new_glue m) = kSentinel"
  "glue_gpio (new_glue m) = pm_gpio m" "expected_use (g_channel (new_glue m)) = None"
  by (simp_all add: new_glue_def glue_gpio_def new_channel_def)

lemma new_bridge_tracks:
  assumes "distinct (map pm_gpio ms)"
  shows "\<forall>g \<in> set (new_smartio_bridge ms). tracks Map.empty g"
    and "distinct (map glue_gpio (new_smartio_bridge ms))"
  using assms by (auto simp: new_smartio_bridge_def tracks_def new_glue_topics o_def)

text \<open>A bridge on distinct GPIOs and a fresh libgpiod backend, after any returning ticks.\<close>

lemma started_bridge_tracks:
  assumes "distinct (map pm_gpio ms)"
    and "bridge_run (libgpiod_backend L) nts (new_smartio_bridge ms, new_libgpiod_backend, [])
      = (Inr (), (gs, b, out))"
  shows "gs = map (fold abstract_glue nts) (new_smartio_bridge ms)" and "gpiod_inv b"
    and "\<forall>g \<in> set gs. tracks (line_uses b) g"
proof -
  from new_bridge_tracks [OF assms(1)] have tr: "\<forall>g \<in> set (new_smartio_bridge ms).
      tracks (line_uses new_libgpiod_backend) g" "distinct (map glue_gpio (new_smartio_bridge ms))"
    by simp_all
  note r = lib.bridge_run_refines [OF gpiod_inv_new tr assms(2)]
  from r show "gs = map (fold abstract_glue nts) (new_smartio_bridge ms)" by (rule conjunct1)
  from r show "gpiod_inv b" and "\<forall>g \<in> set gs. tracks (line_uses b) g" by blast+
qed

lemma started_bridge_use:
  assumes "distinct (map pm_gpio ms)" "m \<in> set ms"
    and "bridge_run (libgpiod_backend L) nts (new_smartio_bridge ms, new_libgpiod_backend, [])
      = (Inr (), (gs, b, out))"
  shows "line_uses b (pm_gpio m) =
    use_seen (fold (\<lambda>nt. seen (topic_or kSentinel nt (io_topic (pm_channel m) ''/type''))) nts kSentinel)
      (fold (\<lambda>nt. seen (topic_or kSentinel nt (io_topic (pm_channel m) ''/valset''))) nts kSentinel)"
proof -
  let ?g = "fold abstract_glue nts (new_glue m)"
  from started_bridge_tracks(1) [OF assms(1,3)] assms(2) have "?g \<in> set gs"
    by (auto simp: new_smartio_bridge_def)
  with started_bridge_tracks(3) [OF assms(1,3)] have "tracks (line_uses b) ?g" by blast
  from tracks_use_seen [OF this] show ?thesis
    by (simp add: fold_abstract_glue new_glue_topics)
qed

text \<open>
  C2 (refinement): start a bridge on distinct GPIOs and a fresh libgpiod backend and let it
  tick on any sequence of NetworkTables contents; if no library call threw, every mapped GPIO
  is used exactly as the latest proper values seen on its channel's \<open>type\<close> and \<open>valset\<close>
  topics say, truncated to \<open>int\<close>: input for 0, output at the level of \<open>valset\<close> for 1, free
  otherwise, however the values came and went in between.
\<close>

theorem bridge_drives_latest:
  assumes "distinct (map pm_gpio ms)" "i < length ms"
    and "bridge_run (libgpiod_backend L) nts (new_smartio_bridge ms, new_libgpiod_backend, [])
      = (Inr (), (gs, b, out))"
  shows "line_uses b (pm_gpio (ms ! i)) =
    use_seen (fold (\<lambda>nt. seen (topic_or kSentinel nt (io_topic (pm_channel (ms ! i)) ''/type''))) nts kSentinel)
      (fold (\<lambda>nt. seen (topic_or kSentinel nt (io_topic (pm_channel (ms ! i)) ''/valset''))) nts kSentinel)"
  using started_bridge_use [OF assms(1) _ assms(3), of "ms ! i"] assms(2) by simp

definition demo_pins :: "PinMapping list" where
  "demo_pins = [\<lparr>pm_channel = 0, pm_gpio = 17\<rparr>, \<lparr>pm_channel = 5, pm_gpio = 26\<rparr>]"

definition demo_nt :: "i64 nt_values" where
  "demo_nt = [''/io/0/type'' \<mapsto> 1, ''/io/0/valset'' \<mapsto> 255, ''/io/5/type'' \<mapsto> 0]"

lemma demo_topics:
  "io_topic 0 l = ''/io/0'' @ l" "io_topic 5 l = ''/io/5'' @ l"
  by (simp_all add: io_topic_def int_string_def decimal.simps)

lemma demo_run:
  "bridge_run (libgpiod_backend quiet_lib) [demo_nt] (new_smartio_bridge demo_pins, new_libgpiod_backend, [])
   = (Inr (), snd (bridge_run (libgpiod_backend quiet_lib) [demo_nt]
       (new_smartio_bridge demo_pins, new_libgpiod_backend, [])))"
  by (simp add: new_smartio_bridge_def demo_pins_def new_glue_def demo_topics glue_tick_def
      tick_type_def tick_valset_def tick_sample_def topic_or_def demo_nt_def kSentinel_def andThen_def
      on_channel_def on_type_changed_def on_valset_def sample_input_def requested_mode_def new_channel_def on_backend_def gpiod_defs
      quiet_lib_def new_libgpiod_backend_def usable_def int_of_int64_def Let_def)

lemma bridge_drives_latest_witness:
  "line_uses (fst (snd (snd (bridge_run (libgpiod_backend quiet_lib) [demo_nt]
     (new_smartio_bridge demo_pins, new_libgpiod_backend, []))))) 17 = Some (UseOutput True)"
proof -
  let ?r = "bridge_run (libgpiod_backend quiet_lib) [demo_nt]
     (new_smartio_bridge demo_pins, new_libgpiod_backend, [])"
  have "?r = (Inr (), (fst (snd ?r), fst (snd (snd ?r)), snd (snd (snd ?r))))"
    using demo_run by (metis prod.collapse)
  from bridge_drives_latest [OF _ _ this, of 0] show ?thesis
    by (simp add: demo_pins_def demo_topics topic_or_def demo_nt_def seen_def kSentinel_def
        use_seen_def mode_seen_def mode_of_type_def requested_mode_def level_seen_def int_of_int64_def)
qed

text \<open>
  Whatever the topics hold and whatever the library throws, and even if two
  channels are mapped to one GPIO, the bridge never takes, drives or frees a GPIO outside its
  mapping (the signal light's, for one).
\<close>

theorem bridge_stays_on_its_pins:
  assumes "gpiod_inv b" "h \<notin> pm_gpio ` set ms"
    and "bridge_run (libgpiod_backend L) nts (new_smartio_bridge ms, b, out) = (r, (gs, b', out'))"
  shows "line_uses b' h = line_uses b h"
proof -
  have "glue_gpio ` set (new_smartio_bridge ms) = pm_gpio ` set ms"
    by (auto simp: new_smartio_bridge_def new_glue_topics image_image)
  with lib.bridge_run_frame [OF assms(1,3)] assms(2) show ?thesis by simp
qed

lemma bridge_stays_on_its_pins_witness:
  "line_uses (fst (snd (snd (bridge_run (libgpiod_backend busy_lib) [demo_nt]
     (new_smartio_bridge demo_pins, new_libgpiod_backend, []))))) 25 = None"
proof -
  let ?r = "bridge_run (libgpiod_backend busy_lib) [demo_nt]
     (new_smartio_bridge demo_pins, new_libgpiod_backend, [])"
  have "?r = (fst ?r, (fst (snd ?r), fst (snd (snd ?r)), snd (snd (snd ?r))))" by simp
  from bridge_stays_on_its_pins [OF _ _ this, of 25] show ?thesis
    by (simp add: demo_pins_def)
qed

text \<open>
  C39 (functional): a tick of a bridge in order publishes, channel by channel, exactly one
  \<open>valget\<close> per channel that is an input after the tick's own reconfigurations: 255 when its
  line reads non-zero and 0 when it reads zero; no output or unconfigured channel publishes.
\<close>

theorem bridge_publishes_levels:
  assumes "gpiod_inv b" "list_all (tracks (line_uses b)) gs" "distinct (map glue_gpio gs)"
    and "level L = (\<lambda>_. lv)"
    and "bridge_tick (libgpiod_backend L) nt (gs, b, out) = (Inr (), (gs', b', out'))"
  shows "out' = out @ map (\<lambda>g. (valget_pub g, if lv (glue_gpio g) \<noteq> 0 then 255 else 0))
    (filter (\<lambda>g. ch_mode (g_channel g) = DigitalInput) gs')"
  using bridge_tick_publishes [OF assms(1) _ assms(3) _ assms(5), of lv] assms(2,4)
  by (simp add: published_levels list_all_iff)

definition high_lib :: gpiod_lib where
  "high_lib = \<lparr>throws = (\<lambda>_ _. None), level = (\<lambda>_ _. 1)\<rparr>"

lemma bridge_publishes_levels_witness:
  "snd (snd (snd (bridge_tick (libgpiod_backend high_lib) demo_nt
     (new_smartio_bridge demo_pins, new_libgpiod_backend, [])))) = [(''/io/5/valget'', 255)]"
proof -
  let ?r = "bridge_tick (libgpiod_backend high_lib) demo_nt
     (new_smartio_bridge demo_pins, new_libgpiod_backend, [])"
  let ?gs = "map (abstract_glue demo_nt) (new_smartio_bridge demo_pins)"
  have run: "?r = (Inr (), (?gs, fst (snd (snd ?r)), snd (snd (snd ?r))))"
    by (simp add: new_smartio_bridge_def demo_pins_def new_glue_def demo_topics glue_tick_def
      tick_type_def tick_valset_def tick_sample_def topic_or_def demo_nt_def kSentinel_def andThen_def
      on_channel_def on_type_changed_def on_valset_def sample_input_def requested_mode_def
      new_channel_def on_backend_def gpiod_defs high_lib_def new_libgpiod_backend_def usable_def
      int_of_int64_def Let_def abstract_glue_def abstract_type_def abstract_valset_def seen_def
      mode_seen_def mode_of_type_def level_seen_def)
  have pins: "distinct (map pm_gpio demo_pins)" by (simp add: demo_pins_def)
  have "level high_lib = (\<lambda>_. \<lambda>_. 1)" by (simp add: high_lib_def)
  from bridge_publishes_levels [OF _ _ new_bridge_tracks(2) [OF pins] this run]
    new_bridge_tracks(1) [OF pins]
  show ?thesis
    by (simp add: list_all_iff new_smartio_bridge_def demo_pins_def new_glue_def demo_topics
      topic_or_def demo_nt_def kSentinel_def new_channel_def int_of_int64_def Let_def
      abstract_glue_def abstract_type_def abstract_valset_def seen_def mode_seen_def
      mode_of_type_def requested_mode_def)
qed

text \<open>
  A tick that finds nothing new on its topics (unchanged values, or none)
  is a pure sampling pass: no channel changes, no line is requested, released or written, and
  every library call made is a read, even if one of them throws.
\<close>

theorem steady_tick_only_reads:
  assumes "list_all (steady nt) gs"
    and "bridge_tick (libgpiod_backend L) nt (gs, b, out) = (r, (gs', b', out'))"
  shows "gs' = gs \<and> lines b' = lines b \<and> list_all is_read (drop (length (calls b)) (calls b'))
    \<and> take (length (calls b)) (calls b') = calls b"
  using bridge_tick_steady [OF _ assms(2)] assms(1) by (auto simp: list_all_iff)

lemma steady_tick_only_reads_witness:
  "list_all is_read (calls (fst (snd (snd (bridge_tick (libgpiod_backend quiet_lib) Map.empty
     (new_smartio_bridge demo_pins, new_libgpiod_backend, []))))))"
proof -
  let ?r = "bridge_tick (libgpiod_backend quiet_lib) Map.empty
     (new_smartio_bridge demo_pins, new_libgpiod_backend, [])"
  have "?r = (fst ?r, (fst (snd ?r), fst (snd (snd ?r)), snd (snd (snd ?r))))" by simp
  from steady_tick_only_reads [OF _ this] show ?thesis
    by (simp add: new_smartio_bridge_def demo_pins_def steady_def new_glue_topics topic_or_def
        new_libgpiod_backend_def)
qed

end
