(* ===== verification/Ieee_Double.thy ===== *)
theory Ieee_Double
  imports Surrogate_Prelude "HOL-Library.Log_Nat"
begin

text \<open>
  The \<open>double\<close> arithmetic of the daemon: each operation and conversion is the exact rational
  result rounded to 53 significant bits, ties to even. All values here are zero or between
  2^-20 and 2^65 in magnitude, far from overflow and the subnormal numbers, so no exponent
  limit appears in the model. Everything computes on rationals.
\<close>

section \<open>Rounding\<close>

definition round_even :: "rat \<Rightarrow> int" where
  "round_even q = (let f = \<lfloor>q\<rfloor>; r = q - of_int f in
     if r < 1/2 then f else if 1/2 < r then f + 1 else if even f then f else f + 1)"

text \<open>The binary exponent: \<open>2^e \<le> x < 2^(e+1)\<close> for positive \<open>x\<close>.\<close>

definition ilog2 :: "rat \<Rightarrow> int" where
  "ilog2 x = (if 1 \<le> x then bitlen \<lfloor>x\<rfloor> - 1 else - bitlen (\<lceil>1 / x\<rceil> - 1))"

definition two_pow :: "int \<Rightarrow> rat" where
  "two_pow e = 2 powi e"

definition fl_pos :: "rat \<Rightarrow> rat" where
  "fl_pos x = (let e = ilog2 x - 52 in of_int (round_even (x * two_pow (- e))) * two_pow e)"

definition fl :: "rat \<Rightarrow> rat" where
  "fl x = (if x = 0 then 0 else if 0 < x then fl_pos x else - fl_pos (- x))"

definition double_of_int :: "int \<Rightarrow> rat" where
  "double_of_int k = fl (of_int k)"

definition double_mult :: "rat \<Rightarrow> rat \<Rightarrow> rat" where
  "double_mult x y = fl (x * y)"

definition double_div :: "rat \<Rightarrow> rat \<Rightarrow> rat" where
  "double_div x y = fl (x / y)"

section \<open>Rounding to an integer\<close>

lemma round_even_bounds: "\<bar>of_int (round_even q) - q\<bar> \<le> 1/2"
proof -
  have "of_int \<lfloor>q\<rfloor> \<le> q" "q < of_int \<lfloor>q\<rfloor> + 1" by linarith+
  then show ?thesis unfolding round_even_def Let_def by (simp add: abs_if) linarith
qed

lemma round_even_of_int [simp]: "round_even (of_int k) = k"
  by (simp add: round_even_def)

lemma round_even_mono:
  assumes "x \<le> y"
  shows "round_even x \<le> round_even y"
proof (cases "\<lfloor>x\<rfloor> = \<lfloor>y\<rfloor>")
  case True
  with assms show ?thesis by (auto simp: round_even_def Let_def)
next
  case False
  with assms have "\<lfloor>x\<rfloor> + 1 \<le> \<lfloor>y\<rfloor>" using floor_mono [OF assms] by simp
  then show ?thesis by (auto simp: round_even_def Let_def)
qed

section \<open>Powers of two and the exponent\<close>

lemma two_pow_pos [simp]: "0 < two_pow e"
  by (simp add: two_pow_def)

lemma two_pow_0 [simp]: "two_pow 0 = 1"
  by (simp add: two_pow_def)

lemma two_pow_add: "two_pow (a + b) = two_pow a * two_pow b"
  by (simp add: two_pow_def power_int_add)

lemma two_pow_neg: "two_pow (- e) = 1 / two_pow e"
  by (simp add: two_pow_def power_int_minus divide_inverse)

lemma two_pow_nat [simp]: "two_pow (int n) = 2 ^ n"
  by (simp add: two_pow_def)

lemma two_pow_mono: "a \<le> b \<Longrightarrow> two_pow a \<le> two_pow b"
  by (simp add: two_pow_def power_int_increasing)

lemma two_pow_cancel [simp]: "two_pow (- e) * two_pow e = 1" "two_pow e * two_pow (- e) = 1"
  by (simp_all flip: two_pow_add)

lemma two_pow_cancel_diff [simp]: "two_pow (a - b) * two_pow (b - a) = 1"
  by (simp flip: two_pow_add)

lemma bitlen_pos: "0 < n \<Longrightarrow> 1 \<le> bitlen n"
  using bitlen_bounds [of n] bitlen_nonneg [of n] by (cases "bitlen n = 0") auto

lemma ilog2_bounds:
  assumes "0 < x"
  shows "two_pow (ilog2 x) \<le> x" and "x < two_pow (ilog2 x + 1)"
proof -
  have "two_pow (ilog2 x) \<le> x \<and> x < two_pow (ilog2 x + 1)"
  proof (cases "1 \<le> x")
    case True
    define n where "n = \<lfloor>x\<rfloor>"
    from True have n: "0 < n" "of_int n \<le> x" "x < of_int n + 1" unfolding n_def by linarith+
    define k where "k = nat (bitlen n - 1)"
    from n(1) have k: "bitlen n = int k + 1" unfolding k_def using bitlen_pos [OF n(1)] by simp
    from bitlen_bounds [OF n(1)] k have b: "2 ^ k \<le> n" "n < 2 ^ (k + 1)" by (simp_all add: nat_add_distrib)
    from b(2) have "n + 1 \<le> 2 ^ (k + 1)" by simp
    then have "of_int (n + 1) \<le> (of_int (2 ^ (k + 1)) :: rat)" by (rule of_int_le_iff [THEN iffD2])
    moreover have "2 ^ k \<le> x"
      using b(1) n(2) by (metis of_int_le_iff of_int_numeral of_int_power order_trans)
    moreover from True k have "ilog2 x = int k" by (simp add: ilog2_def n_def)
    moreover have "two_pow (int k + 1) = 2 ^ (k + 1)"
      using two_pow_nat [of "k + 1"] by (simp add: add.commute)
    ultimately show ?thesis using n by simp
  next
    case False
    define m where "m = \<lceil>1 / x\<rceil>"
    from False assms have x1: "1 < 1 / x" by simp
    then have m: "1 < m" "1 / x \<le> of_int m" "of_int m < 1 / x + 1" unfolding m_def by linarith+
    define k where "k = nat (bitlen (m - 1) - 1)"
    from m(1) have m1: "0 < m - 1" by simp
    then have k: "bitlen (m - 1) = int k + 1" unfolding k_def using bitlen_pos [OF m1] by simp
    from bitlen_bounds [OF m1] k have b: "2 ^ k \<le> m - 1" "m - 1 < 2 ^ (k + 1)"
      by (simp_all add: nat_add_distrib)
    from b(2) have "m \<le> 2 ^ (k + 1)" by simp
    then have "of_int m \<le> (of_int (2 ^ (k + 1)) :: rat)" by (rule of_int_le_iff [THEN iffD2])
    with m(2) have up: "1 / x \<le> 2 ^ (k + 1)" by simp
    from b(1) have "of_int (2 ^ k) \<le> (of_int (m - 1) :: rat)" by (rule of_int_le_iff [THEN iffD2])
    with m(3) have lo: "2 ^ k < 1 / x" by simp
    from False k have e: "ilog2 x = - (int k + 1)" "ilog2 x + 1 = - int k"
      by (simp_all add: ilog2_def m_def)
    have "two_pow (int k + 1) = 2 ^ (k + 1)" using two_pow_nat [of "k + 1"] by (simp add: add.commute)
    then have "two_pow (ilog2 x) = 1 / 2 ^ (k + 1)" "two_pow (ilog2 x + 1) = 1 / 2 ^ k"
      unfolding e(2) unfolding e(1) two_pow_neg by (simp_all add: two_pow_neg)
    moreover have "1 / 2 ^ (k + 1) \<le> x" "x < 1 / 2 ^ k"
      using up lo assms by (simp_all add: field_simps)
    ultimately show ?thesis by simp
  qed
  then show "two_pow (ilog2 x) \<le> x" and "x < two_pow (ilog2 x + 1)" by simp_all
qed

lemma ilog2_mono:
  assumes "0 < x" "x \<le> y"
  shows "ilog2 x \<le> ilog2 y"
proof (rule ccontr)
  assume "\<not> ilog2 x \<le> ilog2 y"
  then have "two_pow (ilog2 y + 1) \<le> two_pow (ilog2 x)" by (intro two_pow_mono) simp
  with ilog2_bounds [of x] ilog2_bounds [of y] assms show False by simp
qed

section \<open>The rounded value\<close>

lemma scaled_bounds:
  assumes "0 < x"
  shows "2 ^ 52 \<le> x * two_pow (52 - ilog2 x)" and "x * two_pow (52 - ilog2 x) < 2 ^ 53"
proof -
  have "two_pow (ilog2 x) * two_pow (52 - ilog2 x) = 2 ^ 52"
    and "two_pow (ilog2 x + 1) * two_pow (52 - ilog2 x) = 2 ^ 53"
    using two_pow_nat [of 52] two_pow_nat [of 53] by (simp_all flip: two_pow_add)
  with ilog2_bounds [OF assms] show "2 ^ 52 \<le> x * two_pow (52 - ilog2 x)"
    and "x * two_pow (52 - ilog2 x) < 2 ^ 53"
    by (metis mult_right_mono two_pow_pos less_imp_le, metis mult_strict_right_mono two_pow_pos)
qed

lemma fl_pos_binade:
  assumes "0 < x"
  shows "two_pow (ilog2 x) \<le> fl_pos x" and "fl_pos x \<le> two_pow (ilog2 x + 1)"
proof -
  let ?q = "x * two_pow (52 - ilog2 x)"
  from scaled_bounds [OF assms] have "of_int (2 ^ 52) \<le> ?q" "?q \<le> of_int (2 ^ 53)" by simp_all
  then have "2 ^ 52 \<le> round_even ?q" "round_even ?q \<le> 2 ^ 53"
    using round_even_mono round_even_of_int by metis+
  moreover define r where "r = (of_int (round_even ?q) :: rat)"
  ultimately have "2 ^ 52 \<le> r" "r \<le> 2 ^ 53"
    by (metis of_int_le_iff of_int_numeral of_int_power)+
  then have "2 ^ 52 * two_pow (ilog2 x - 52) \<le> r * two_pow (ilog2 x - 52)"
    "r * two_pow (ilog2 x - 52) \<le> 2 ^ 53 * two_pow (ilog2 x - 52)"
    by (simp_all only: mult_right_mono less_imp_le [OF two_pow_pos])
  moreover have "2 ^ 52 * two_pow (ilog2 x - 52) = two_pow (ilog2 x)"
    and "2 ^ 53 * two_pow (ilog2 x - 52) = two_pow (ilog2 x + 1)"
    using two_pow_add [of 52 "ilog2 x - 52"] two_pow_add [of 53 "ilog2 x - 52"]
      two_pow_nat [of 52] two_pow_nat [of 53] by (simp_all add: add.commute)
  moreover have "fl_pos x = r * two_pow (ilog2 x - 52)"
    by (simp add: fl_pos_def Let_def r_def)
  ultimately show "two_pow (ilog2 x) \<le> fl_pos x" and "fl_pos x \<le> two_pow (ilog2 x + 1)"
    by (simp_all only:)
qed

lemma fl_pos_error:
  assumes "0 < x"
  shows "\<bar>fl_pos x - x\<bar> \<le> two_pow (ilog2 x - 53)"
proof -
  let ?e = "ilog2 x - 52"
  let ?q = "x * two_pow (- ?e)"
  have "fl_pos x - x = (of_int (round_even ?q) - ?q) * two_pow ?e"
    by (simp add: fl_pos_def Let_def left_diff_distrib mult.assoc)
  then have "\<bar>fl_pos x - x\<bar> = \<bar>of_int (round_even ?q) - ?q\<bar> * two_pow ?e"
    by (simp add: abs_mult abs_of_pos)
  also have "\<dots> \<le> 1 / 2 * two_pow ?e"
    using round_even_bounds by (intro mult_right_mono) (simp_all add: less_imp_le)
  also have "1 / 2 * two_pow ?e = two_pow (ilog2 x - 53)"
    using two_pow_add [of "- 1" ?e] by (simp add: two_pow_neg two_pow_def)
  finally show ?thesis .
qed

lemma fl_pos_mono:
  assumes "0 < x" "x \<le> y"
  shows "fl_pos x \<le> fl_pos y"
proof (cases "ilog2 x = ilog2 y")
  case True
  with assms show ?thesis
    by (simp add: fl_pos_def Let_def round_even_mono mult_right_mono less_imp_le)
next
  case False
  with ilog2_mono [OF assms] have "two_pow (ilog2 x + 1) \<le> two_pow (ilog2 y)"
    by (intro two_pow_mono) simp
  with fl_pos_binade(2) [OF assms(1)] fl_pos_binade(1) [of y] assms show ?thesis by simp
qed

lemma fl_pos_positive: "0 < x \<Longrightarrow> 0 < fl_pos x"
  using fl_pos_binade(1) [of x] two_pow_pos [of "ilog2 x"] by linarith

lemma fl_zero [simp]: "fl 0 = 0"
  by (simp add: fl_def)

lemma fl_nonneg: "0 \<le> x \<Longrightarrow> 0 \<le> fl x"
  using fl_pos_positive [of x] by (cases "x = 0") (auto simp: fl_def)

lemma fl_nonpos: "x \<le> 0 \<Longrightarrow> fl x \<le> 0"
  using fl_pos_positive [of "- x"] by (cases "x = 0") (auto simp: fl_def)

lemma fl_mono:
  assumes "x \<le> y"
  shows "fl x \<le> fl y"
proof -
  consider "0 < x" | "x \<le> 0" "0 \<le> y" | "y < 0" by linarith
  then show ?thesis
  proof cases
    case 1
    with assms show ?thesis by (simp add: fl_def fl_pos_mono)
  next
    case 2
    then show ?thesis using fl_nonneg [of y] fl_nonpos [of x] by linarith
  next
    case 3
    with assms show ?thesis by (simp add: fl_def fl_pos_mono)
  qed
qed

text \<open>Integers of at most 53 bits are exact.\<close>

lemma fl_of_int:
  assumes "0 \<le> k" "k \<le> 2 ^ 53"
  shows "fl (of_int k) = of_int k"
proof (cases "k = 0")
  case False
  with assms have k: "0 < k" by simp
  let ?x = "of_int k :: rat"
  have x: "0 < ?x" using k by simp
  show ?thesis
  proof (cases "ilog2 ?x \<le> 52")
    case True
    then obtain n where n: "52 - ilog2 ?x = int n" by (metis nat_0_le diff_ge_0_iff_ge)
    then have "?x * two_pow (52 - ilog2 ?x) = of_int (k * 2 ^ n)" by simp
    then have "round_even (?x * two_pow (52 - ilog2 ?x)) = k * 2 ^ n" by (metis round_even_of_int)
    then have "fl_pos ?x = ?x * (2 ^ n * two_pow (ilog2 ?x - 52))"
      by (simp add: fl_pos_def Let_def)
    also have "2 ^ n * two_pow (ilog2 ?x - 52) = 1"
      using n two_pow_cancel(1) [of "ilog2 ?x - 52"] by (simp flip: two_pow_nat)
    finally show ?thesis using x by (simp add: fl_def)
  next
    case False
    then have "two_pow 53 \<le> two_pow (ilog2 ?x)" by (intro two_pow_mono) simp
    with ilog2_bounds(1) [OF x] two_pow_nat [of 53] have "of_int (2 ^ 53) \<le> ?x" by simp
    then have "k = 2 ^ 53" using assms(2) unfolding of_int_le_iff by simp
    moreover have "fl_pos (2 ^ 53) = 2 ^ 53" by code_simp
    ultimately show ?thesis by (simp add: fl_def)
  qed
qed simp

lemma double_of_int_exact: "0 \<le> k \<Longrightarrow> k \<le> 2 ^ 53 \<Longrightarrow> double_of_int k = of_int k"
  by (simp add: double_of_int_def fl_of_int)

lemma double_of_int_mono: "a \<le> b \<Longrightarrow> double_of_int a \<le> double_of_int b"
  by (simp add: double_of_int_def fl_mono)

lemma double_div_mono: "0 < d \<Longrightarrow> a \<le> b \<Longrightarrow> double_div a d \<le> double_div b d"
  by (simp add: double_div_def fl_mono divide_right_mono less_imp_le)

end
