(* ===== verification/Cadence_Tracker.thy ===== *)
theory Cadence_Tracker
  imports Ieee_Double "HOL-Library.Multiset"
begin

text \<open>
  cadence_tracker.{hpp,cpp}: a ring of the last 1024 intervals with a lazily sorted copy.
  Intervals are integers of microseconds, \<open>std::sort\<close> is the library's sort, the epochs are
  64-bit and wrap, and percentiles are computed in rounded double arithmetic. The accessors are
  \<open>const\<close> but refresh the mutable cache, so they return the tracker as well.
\<close>

section \<open>State and operations\<close>

definition kCapacity :: nat where "kCapacity = 1024"

record CadenceTracker =
  samples_us :: "int list"
  sorted_cache :: "int list"
  cached_epoch :: "64 word"
  epoch :: "64 word"
  next_slot :: nat
  sample_count :: nat

definition new_cadence_tracker :: CadenceTracker where
  "new_cadence_tracker =
    \<lparr>samples_us = replicate kCapacity 0, sorted_cache = replicate kCapacity 0,
     cached_epoch = 0, epoch = 0, next_slot = 0, sample_count = 0\<rparr>"

definition record_interval_us :: "int \<Rightarrow> CadenceTracker \<Rightarrow> CadenceTracker" where
  "record_interval_us us t =
    (let t = t\<lparr>samples_us := (samples_us t)[next_slot t := us]\<rparr>;
         t = t\<lparr>next_slot := (next_slot t + 1) mod kCapacity\<rparr>;
         t = (if sample_count t < kCapacity then t\<lparr>sample_count := sample_count t + 1\<rparr> else t)
     in t\<lparr>epoch := epoch t + 1\<rparr>)"

definition refresh_sorted :: "CadenceTracker \<Rightarrow> CadenceTracker" where
  "refresh_sorted t =
    (if cached_epoch t = epoch t then t
     else t\<lparr>sorted_cache := sort (take (sample_count t) (samples_us t))
              @ drop (sample_count t) (sorted_cache t),
            cached_epoch := epoch t\<rparr>)"

definition percentile_index :: "rat \<Rightarrow> nat \<Rightarrow> nat" where
  "percentile_index p cnt =
    (let idx = nat \<lfloor>double_mult p (double_of_int (int cnt))\<rfloor>
     in if cnt \<le> idx then cnt - 1 else idx)"

definition percentile_ms :: "rat \<Rightarrow> CadenceTracker \<Rightarrow> rat \<times> CadenceTracker" where
  "percentile_ms p t =
    (if sample_count t = 0 then (0, t)
     else let t = refresh_sorted t in
       (double_div (double_of_int (sorted_cache t ! percentile_index p (sample_count t))) 1000, t))"

definition p50_ms :: "CadenceTracker \<Rightarrow> rat \<times> CadenceTracker" where
  "p50_ms = percentile_ms (fl (50 / 100))"

definition p99_ms :: "CadenceTracker \<Rightarrow> rat \<times> CadenceTracker" where
  "p99_ms = percentile_ms (fl (99 / 100))"

definition p999_ms :: "CadenceTracker \<Rightarrow> rat \<times> CadenceTracker" where
  "p999_ms = percentile_ms (fl (999 / 1000))"

definition max_ms :: "CadenceTracker \<Rightarrow> rat \<times> CadenceTracker" where
  "max_ms t =
    (if sample_count t = 0 then (0, t)
     else let t = refresh_sorted t in
       (double_div (double_of_int (sorted_cache t ! (sample_count t - 1))) 1000, t))"

text \<open>What happens to a tracker: records, and reads of any accessor.\<close>

datatype cadence_event = Record_us int | Read_p50 | Read_p99 | Read_p999 | Read_max

fun cadence_step :: "cadence_event \<Rightarrow> CadenceTracker \<Rightarrow> CadenceTracker" where
  "cadence_step (Record_us us) t = record_interval_us us t"
| "cadence_step Read_p50 t = snd (p50_ms t)"
| "cadence_step Read_p99 t = snd (p99_ms t)"
| "cadence_step Read_p999 t = snd (p999_ms t)"
| "cadence_step Read_max t = snd (max_ms t)"

section \<open>The window: what the ring stands for\<close>

definition recorded :: "cadence_event list \<Rightarrow> int list" where
  "recorded es = [us. Record_us us \<leftarrow> es]"

definition window :: "int list \<Rightarrow> int list" where
  "window us = drop (length us - kCapacity) us"

lemma recorded_simps [simp]:
  "recorded [] = []" "recorded (es @ [Record_us us]) = recorded es @ [us]"
  "recorded (es @ [Read_p50]) = recorded es" "recorded (es @ [Read_p99]) = recorded es"
  "recorded (es @ [Read_p999]) = recorded es" "recorded (es @ [Read_max]) = recorded es"
  by (simp_all add: recorded_def)

lemma length_window [simp]: "length (window us) = min (length us) kCapacity"
  by (simp add: window_def)

lemma window_snoc_grow: "length us < kCapacity \<Longrightarrow> window (us @ [u]) = us @ [u]"
  by (simp add: window_def)

lemma window_snoc_full: "kCapacity \<le> length us \<Longrightarrow> window (us @ [u]) = tl (window us) @ [u]"
proof -
  assume le: "kCapacity \<le> length us"
  then have "Suc (length us - kCapacity) = Suc (length us) - kCapacity" by simp
  with le show ?thesis by (simp add: window_def tl_drop kCapacity_def flip: drop_Suc)
qed

definition ring_ok :: "int list \<Rightarrow> CadenceTracker \<Rightarrow> bool" where
  "ring_ok us t \<longleftrightarrow> length (samples_us t) = kCapacity \<and> length (sorted_cache t) = kCapacity
    \<and> sample_count t = min (length us) kCapacity \<and> next_slot t < kCapacity
    \<and> (if length us < kCapacity
       then next_slot t = length us \<and> take (length us) (samples_us t) = us
       else drop (next_slot t) (samples_us t) @ take (next_slot t) (samples_us t) = window us)"

lemma ring_ok_new: "ring_ok [] new_cadence_tracker"
  by (simp add: ring_ok_def new_cadence_tracker_def kCapacity_def)

lemma kCapacity_pos [simp]: "0 < kCapacity" "kCapacity \<noteq> 0"
  by (simp_all add: kCapacity_def)

lemma record_fields:
  "samples_us (record_interval_us u t) = (samples_us t)[next_slot t := u]"
  "sorted_cache (record_interval_us u t) = sorted_cache t"
  "cached_epoch (record_interval_us u t) = cached_epoch t"
  "epoch (record_interval_us u t) = epoch t + 1"
  "next_slot (record_interval_us u t) = (next_slot t + 1) mod kCapacity"
  "sample_count (record_interval_us u t) =
     (if sample_count t < kCapacity then sample_count t + 1 else sample_count t)"
  by (simp_all add: record_interval_us_def Let_def)

lemma ring_rotate:
  assumes "k < length s"
  shows "drop (Suc k) (s[k := u]) @ take (Suc k) (s[k := u]) = tl (drop k s @ take k s) @ [u]"
proof -
  have "tl (drop k s @ take k s) = drop (Suc k) s @ take k s"
    using assms by (simp flip: Cons_nth_drop_Suc)
  with assms show ?thesis by (simp add: take_Suc_conv_app_nth)
qed

lemma update_last: "length s = Suc n \<Longrightarrow> s[n := u] = take n s @ [u]"
  by (cases s rule: rev_cases) auto

lemma ring_ok_record:
  assumes "ring_ok us t"
  shows "ring_ok (us @ [u]) (record_interval_us u t)"
proof -
  let ?n = "length us" and ?s = "samples_us t" and ?k = "next_slot t"
  from assms have base: "length ?s = kCapacity" "length (sorted_cache t) = kCapacity"
    "sample_count t = min ?n kCapacity" "?k < kCapacity" by (simp_all add: ring_ok_def)
  consider "Suc ?n < kCapacity" | "Suc ?n = kCapacity" | "kCapacity \<le> ?n" by linarith
  then show ?thesis
  proof cases
    case 1
    with assms have "?k = ?n" "take ?n ?s = us" by (simp_all add: ring_ok_def)
    with base 1 show ?thesis
      by (simp add: ring_ok_def record_fields take_Suc_conv_app_nth)
  next
    case 2
    with assms have k: "?k = ?n" "take ?n ?s = us" by (simp_all add: ring_ok_def)
    have "(?k + 1) mod kCapacity = 0" using k(1) 2 by simp
    moreover have "?s[?n := u] = us @ [u]"
      using update_last [of ?s ?n u] base(1) k(2) 2 by simp
    ultimately show ?thesis
      using base k 2 by (simp add: ring_ok_def record_fields window_snoc_grow)
  next
    case 3
    with assms have rot: "drop ?k ?s @ take ?k ?s = window us" by (simp add: ring_ok_def)
    let ?s' = "?s[?k := u]"
    have "drop ((?k + 1) mod kCapacity) ?s' @ take ((?k + 1) mod kCapacity) ?s'
        = drop (Suc ?k) ?s' @ take (Suc ?k) ?s'"
    proof (cases "Suc ?k = kCapacity")
      case True
      with base(1) show ?thesis by simp
    next
      case False
      with base(4) show ?thesis by simp
    qed
    also have "\<dots> = window (us @ [u])"
      using ring_rotate [of ?k ?s u] base(1,4) rot window_snoc_full [OF 3] by simp
    finally show ?thesis
      using base 3 by (simp add: ring_ok_def record_fields)
  qed
qed

lemma ring_mset:
  assumes "ring_ok us t"
  shows "mset (take (sample_count t) (samples_us t)) = mset (window us)"
proof (cases "length us < kCapacity")
  case True
  with assms show ?thesis by (simp add: ring_ok_def window_def)
next
  case False
  have "mset (drop (next_slot t) (samples_us t) @ take (next_slot t) (samples_us t))
      = mset (samples_us t)"
    by (metis append_take_drop_id mset_append union_commute)
  with assms False show ?thesis by (simp add: ring_ok_def)
qed

section \<open>The cache\<close>

text \<open>
  After \<open>n\<close> records the epoch is \<open>n\<close> modulo \<open>2^64\<close>; the cached epoch is the count at the last
  refresh, and when the two agree the front of the cache is the sorted window. Two counts
  below \<open>2^64\<close> with equal epochs are equal, so the test in \<open>refresh_sorted\<close> is exact for that long.
\<close>

definition cache_ok :: "int list \<Rightarrow> CadenceTracker \<Rightarrow> bool" where
  "cache_ok us t \<longleftrightarrow> epoch t = of_nat (length us) \<and>
    (\<exists>m \<le> length us. cached_epoch t = of_nat m \<and>
       (m = length us \<longrightarrow> take (sample_count t) (sorted_cache t) = sort (window us)))"

definition tracker_inv :: "int list \<Rightarrow> CadenceTracker \<Rightarrow> bool" where
  "tracker_inv us t \<longleftrightarrow> ring_ok us t \<and> cache_ok us t"

lemma tracker_inv_new: "tracker_inv [] new_cadence_tracker"
  using ring_ok_new
  by (simp add: tracker_inv_def cache_ok_def new_cadence_tracker_def window_def)

lemma tracker_inv_record: "tracker_inv us t \<Longrightarrow> tracker_inv (us @ [u]) (record_interval_us u t)"
  using ring_ok_record [of us t u]
  by (auto simp: tracker_inv_def cache_ok_def record_fields intro: le_SucI)

lemma of_nat_64_inject:
  assumes "m < 2 ^ 64" "n < 2 ^ 64" "(of_nat m :: 64 word) = of_nat n"
  shows "m = n"
proof -
  have "unat (of_nat k :: 64 word) = k" if "k < 2 ^ 64" for k :: nat
    using that by (simp add: unsigned_of_nat take_bit_nat_eq_self)
  with assms show ?thesis by metis
qed

text \<open>A refresh makes the cache the sorted window, whether or not it had to do anything.\<close>

lemma refresh_inv:
  assumes "tracker_inv us t" "length us < 2 ^ 64"
  shows "tracker_inv us (refresh_sorted t)"
    and "take (sample_count t) (sorted_cache (refresh_sorted t)) = sort (window us)"
    and "sample_count (refresh_sorted t) = sample_count t"
proof -
  from assms(1) have r: "ring_ok us t" and c: "cache_ok us t" by (simp_all add: tracker_inv_def)
  have srt: "sort (take (sample_count t) (samples_us t)) = sort (window us)"
    using ring_mset [OF r] by (metis properties_for_sort mset_sort sorted_sort)
  have "tracker_inv us (refresh_sorted t) \<and>
    take (sample_count t) (sorted_cache (refresh_sorted t)) = sort (window us)"
  proof (cases "cached_epoch t = epoch t")
    case True
    from c obtain m where m: "m \<le> length us" "cached_epoch t = of_nat m" "epoch t = of_nat (length us)"
      "m = length us \<longrightarrow> take (sample_count t) (sorted_cache t) = sort (window us)"
      by (auto simp: cache_ok_def)
    with True of_nat_64_inject [of m "length us"] assms(2) have "m = length us" by simp
    with True m assms(1) show ?thesis by (simp add: refresh_sorted_def)
  next
    case False
    from r have len: "length (sort (window us)) = sample_count t" "sample_count t \<le> kCapacity"
      "length (sorted_cache t) = kCapacity" by (simp_all add: ring_ok_def)
    from len have "take (sample_count t) (sort (window us) @ drop (sample_count t) (sorted_cache t))
        = sort (window us)" by simp
    with False r c len srt show ?thesis
      by (auto simp: refresh_sorted_def tracker_inv_def ring_ok_def cache_ok_def)
  qed
  then show "tracker_inv us (refresh_sorted t)"
    and "take (sample_count t) (sorted_cache (refresh_sorted t)) = sort (window us)" by simp_all
  show "sample_count (refresh_sorted t) = sample_count t" by (simp add: refresh_sorted_def)
qed

lemma read_inv:
  assumes "tracker_inv us t" "length us < 2 ^ 64"
  shows "tracker_inv us (snd (percentile_ms p t))" and "tracker_inv us (snd (max_ms t))"
  using refresh_inv(1) [OF assms] assms(1) by (simp_all add: percentile_ms_def max_ms_def Let_def)

lemma tracker_run:
  assumes "length (recorded es) < 2 ^ 64"
  shows "tracker_inv (recorded es) (fold cadence_step es new_cadence_tracker)"
  using assms
proof (induction es rule: rev_induct)
  case Nil
  then show ?case by (simp add: tracker_inv_new)
next
  case (snoc e es)
  let ?t = "fold cadence_step es new_cadence_tracker"
  have "length (recorded es) \<le> length (recorded (es @ [e]))" by (cases e) simp_all
  with snoc.prems have lt: "length (recorded es) < 2 ^ 64" by linarith
  from snoc.IH [OF lt] have inv: "tracker_inv (recorded es) ?t" .
  show ?case
    by (cases e) (simp_all add: tracker_inv_record [OF inv] read_inv [OF inv lt] p50_ms_def
        p99_ms_def p999_ms_def)
qed

section \<open>The index computed in doubles is the exact one\<close>

text \<open>
  For 1 to 1024 samples the product \<open>p * count\<close>, with the literal and the product rounded,
  truncates to the integer part of the exact product, and so is always a valid index.
\<close>

lemma fl_error_small:
  assumes "0 < x" "x < 2 ^ 11"
  shows "\<bar>fl x - x\<bar> \<le> 1 / 2 ^ 42"
proof -
  have "ilog2 x \<le> 10"
  proof (rule ccontr)
    assume "\<not> ilog2 x \<le> 10"
    then have "two_pow 11 \<le> two_pow (ilog2 x)" by (intro two_pow_mono) simp
    with ilog2_bounds(1) [OF assms(1)] assms(2) two_pow_nat [of 11] show False by simp
  qed
  then have "two_pow (ilog2 x - 53) \<le> two_pow (- 42)" by (intro two_pow_mono) simp
  with fl_pos_error [OF assms(1)] two_pow_neg [of 42] two_pow_nat [of 42] assms(1)
  show ?thesis by (simp add: fl_def)
qed

lemma floor_near:
  fixes y :: rat
  assumes "n mod 1000 \<noteq> 0" "\<bar>y - of_int n / 1000\<bar> < 1 / 1000"
  shows "\<lfloor>y\<rfloor> = n div 1000"
proof -
  let ?d = "n div 1000" and ?m = "n mod 1000"
  have m: "1 \<le> ?m" "?m \<le> 999" using assms(1) pos_mod_bound [of 1000 n] pos_mod_sign [of 1000 n] by auto
  have "n = 1000 * ?d + ?m" by simp
  then have "(of_int n :: rat) = 1000 * of_int ?d + of_int ?m"
    by (metis of_int_add of_int_mult of_int_numeral)
  then have "(of_int n :: rat) / 1000 = of_int ?d + of_int ?m / 1000" by simp
  moreover have "1 \<le> (of_int ?m :: rat)" "(of_int ?m :: rat) \<le> 999"
    using m by (metis of_int_1_le_iff, metis of_int_le_iff of_int_numeral)
  ultimately have "of_int ?d \<le> y" "y < of_int ?d + 1" using assms(2) by linarith+
  then show ?thesis by (simp add: floor_unique)
qed

lemma floor_product_generic:
  assumes P: "\<bar>P - of_int q / 1000\<bar> \<le> 1 / 2 ^ 53" "0 < P" "P \<le> 1"
    and c: "1 \<le> c" "c \<le> 1024" and nz: "(q * c) mod 1000 \<noteq> 0"
  shows "\<lfloor>fl (P * of_int c)\<rfloor> = q * c div 1000"
proof (rule floor_near [OF nz])
  let ?x = "P * of_int c"
  have c': "1 \<le> (of_int c :: rat)" "(of_int c :: rat) \<le> 1024"
    using c by (metis of_int_1_le_iff, metis of_int_le_iff of_int_numeral)
  have x: "0 < ?x" using P(2) c' by simp
  have "?x \<le> 1 * 1024" using P(2,3) c' by (intro mult_mono) simp_all
  then have e1: "\<bar>fl ?x - ?x\<bar> \<le> 1 / 2 ^ 42" using x by (intro fl_error_small) simp_all
  have "?x - of_int (q * c) / 1000 = (P - of_int q / 1000) * of_int c"
    by (simp add: left_diff_distrib)
  then have "\<bar>?x - of_int (q * c) / 1000\<bar> = \<bar>P - of_int q / 1000\<bar> * of_int c"
    using c' by (simp add: abs_mult)
  also have "\<dots> \<le> 1 / 2 ^ 53 * 1024"
    using P(1) c' by (intro mult_mono) simp_all
  finally have e2: "\<bar>?x - of_int (q * c) / 1000\<bar> \<le> 1 / 2 ^ 43" by simp
  have "\<bar>fl ?x - of_int (q * c) / 1000\<bar> \<le> \<bar>fl ?x - ?x\<bar> + \<bar>?x - of_int (q * c) / 1000\<bar>"
    by linarith
  also have "\<dots> \<le> 1 / 2 ^ 42 + 1 / 2 ^ 43" by (intro add_mono e1 e2)
  also have "(1 :: rat) / 2 ^ 42 + 1 / 2 ^ 43 < 1 / 1000" by simp
  finally show "\<bar>fl ?x - of_int (q * c) / 1000\<bar> < 1 / 1000" .
qed

text \<open>The three literals, and the products that are whole numbers.\<close>

lemma fl_half [simp]: "fl (1 / 2) = 1 / 2"
  by code_simp

lemma literals:
  "\<bar>fl (99 / 100) - of_int 990 / 1000\<bar> \<le> 1 / 2 ^ 53 \<and> 0 < fl (99 / 100) \<and> fl (99 / 100) \<le> 1"
  "\<bar>fl (999 / 1000) - of_int 999 / 1000\<bar> \<le> 1 / 2 ^ 53 \<and> 0 < fl (999 / 1000) \<and> fl (999 / 1000) \<le> 1"
  by code_simp+

lemma whole_products:
  "list_all (\<lambda>k. \<lfloor>fl (fl (99 / 100) * of_int (100 * k))\<rfloor> = 99 * k) [1..10]"
  "\<lfloor>fl (fl (999 / 1000) * of_int 1000)\<rfloor> = 999"
  by code_simp+

lemma percentile_product:
  assumes "1 \<le> c" "c \<le> 1024"
  shows "\<lfloor>fl (fl (50 / 100) * of_int c)\<rfloor> = 50 * c div 100"
    and "\<lfloor>fl (fl (99 / 100) * of_int c)\<rfloor> = 99 * c div 100"
    and "\<lfloor>fl (fl (999 / 1000) * of_int c)\<rfloor> = 999 * c div 1000"
proof -
  show "\<lfloor>fl (fl (50 / 100) * of_int c)\<rfloor> = 50 * c div 100"
  proof (cases "even c")
    case True
    then obtain k where k: "c = 2 * k" by blast
    then have "fl (50 / 100) * of_int c = of_int k" by simp
    moreover have "fl (of_int k) = of_int k" using k assms by (intro fl_of_int) simp_all
    ultimately have "\<lfloor>fl (fl (50 / 100) * of_int c)\<rfloor> = k" by (simp only: floor_of_int)
    with k show ?thesis by simp
  next
    case False
    then have "(500 * c) mod 1000 = 500"
      using mult_mod_right [of 500 c 2] by (simp add: odd_iff_mod_2_eq_one)
    with floor_product_generic [of "1/2" 500 c] assms have "\<lfloor>fl (1 / 2 * of_int c)\<rfloor> = 500 * c div 1000"
      by simp
    moreover have "500 * c div 1000 = 50 * c div 100"
      using div_mult_mult1 [of 10 "50 * c" 100] by simp
    ultimately show ?thesis by simp
  qed
  show "\<lfloor>fl (fl (99 / 100) * of_int c)\<rfloor> = 99 * c div 100"
  proof (cases "(990 * c) mod 1000 = 0")
    case True
    then have "10 * 100 dvd 10 * (99 * c)" by (simp add: mod_eq_0_iff_dvd)
    then have "100 dvd 99 * c" by (simp only: dvd_mult_cancel_left) simp
    moreover have "coprime (100 :: int) 99" by code_simp
    ultimately have "100 dvd c" by (simp add: coprime_dvd_mult_right_iff)
    then obtain k where k: "c = 100 * k" by blast
    with assms have "k \<in> set [1..10]" by simp
    with whole_products(1) k show ?thesis unfolding list_all_iff by fastforce
  next
    case False
    with floor_product_generic [of "fl (99 / 100)" 990 c] assms literals(1) show ?thesis by simp
  qed
  show "\<lfloor>fl (fl (999 / 1000) * of_int c)\<rfloor> = 999 * c div 1000"
  proof (cases "(999 * c) mod 1000 = 0")
    case True
    then have "1000 dvd 999 * c" by (rule mod_0_imp_dvd)
    moreover have "coprime (1000 :: int) 999" by code_simp
    ultimately have "1000 dvd c" by (simp add: coprime_dvd_mult_right_iff)
    then obtain k where k: "c = 1000 * k" by blast
    with assms have "k = 1" by simp
    with whole_products(2) k show ?thesis by simp
  next
    case False
    with floor_product_generic [of "fl (999 / 1000)" 999 c] assms literals(2) show ?thesis by simp
  qed
qed

lemma percentile_indices:
  assumes "1 \<le> n" "n \<le> 1024"
  shows "percentile_index (fl (50 / 100)) n = 50 * n div 100"
    and "percentile_index (fl (99 / 100)) n = 99 * n div 100"
    and "percentile_index (fl (999 / 1000)) n = 999 * n div 1000"
proof -
  let ?c = "int n"
  have c: "1 \<le> ?c" "?c \<le> 1024" using assms by simp_all
  have d: "double_of_int ?c = of_int ?c" using assms by (intro double_of_int_exact) simp_all
  have div: "nat (a * ?c div b) = nat a * n div nat b" if "0 \<le> a" "0 < b" for a b
    using that by (simp add: nat_div_distrib nat_mult_distrib)
  show "percentile_index (fl (50 / 100)) n = 50 * n div 100"
    unfolding percentile_index_def double_mult_def d percentile_product(1) [OF c]
    using div [of 50 100] assms(1) by (simp add: Let_def)
  show "percentile_index (fl (99 / 100)) n = 99 * n div 100"
    unfolding percentile_index_def double_mult_def d percentile_product(2) [OF c]
    using div [of 99 100] assms(1) by (simp add: Let_def div_less_iff_less_mult not_le)
  show "percentile_index (fl (999 / 1000)) n = 999 * n div 1000"
    unfolding percentile_index_def double_mult_def d percentile_product(3) [OF c]
    using div [of 999 1000] assms(1) by (simp add: Let_def div_less_iff_less_mult not_le)
qed

section \<open>What the accessors return\<close>

lemma sorted_Max:
  fixes xs :: "int list"
  assumes "sorted xs" "xs \<noteq> []"
  shows "Max (set xs) = xs ! (length xs - 1)"
proof (rule Max_eqI)
  fix y
  assume "y \<in> set xs"
  then obtain i where "i < length xs" "y = xs ! i" by (auto simp: in_set_conv_nth)
  with assms(1) show "y \<le> xs ! (length xs - 1)" by (auto intro!: sorted_nth_mono)
qed (use assms(2) in simp_all)

text \<open>Microseconds as the milliseconds the accessors report.\<close>

definition ms_of_us :: "int \<Rightarrow> rat" where
  "ms_of_us us = double_div (double_of_int us) 1000"

lemma ms_of_us_mono: "a \<le> b \<Longrightarrow> ms_of_us a \<le> ms_of_us b"
  by (simp add: ms_of_us_def double_div_mono double_of_int_mono)

lemma read_cache:
  assumes "tracker_inv us t" "length us < 2 ^ 64" "us \<noteq> []"
  defines "w \<equiv> sort (window us)"
  shows "percentile_index p (length w) < length w \<Longrightarrow>
      fst (percentile_ms p t) = ms_of_us (w ! percentile_index p (length w))"
    and "fst (max_ms t) = ms_of_us (w ! (length w - 1))"
    and "1 \<le> length w" "length w \<le> 1024"
proof -
  note r = refresh_inv [OF assms(1,2)]
  from assms(1) have n: "sample_count t = length w"
    by (simp add: tracker_inv_def ring_ok_def w_def)
  from assms(3) show pos: "1 \<le> length w" and "length w \<le> 1024"
    by (cases us; simp add: w_def kCapacity_def)+
  have nth: "sorted_cache (refresh_sorted t) ! i = w ! i" if "i < length w" for i
    using r(2) n that unfolding w_def [symmetric] by (metis nth_take)
  show "percentile_index p (length w) < length w \<Longrightarrow>
      fst (percentile_ms p t) = ms_of_us (w ! percentile_index p (length w))"
    using n pos nth r(3) by (auto simp: percentile_ms_def Let_def ms_of_us_def)
  show "fst (max_ms t) = ms_of_us (w ! (length w - 1))"
    using n pos nth r(3) by (auto simp: max_ms_def Let_def ms_of_us_def)
qed

lemma accessors:
  assumes "tracker_inv us t" "length us < 2 ^ 64" "us \<noteq> []"
  defines "w \<equiv> sort (window us)"
  shows "fst (p50_ms t) = ms_of_us (w ! (50 * length w div 100))"
    and "fst (p99_ms t) = ms_of_us (w ! (99 * length w div 100))"
    and "fst (p999_ms t) = ms_of_us (w ! (999 * length w div 1000))"
    and "fst (max_ms t) = ms_of_us (w ! (length w - 1))"
proof -
  note r = read_cache [OF assms(1-3), folded w_def]
  note i = percentile_indices [OF r(3,4)]
  have ne: "w \<noteq> []" using r(3) by auto
  show "fst (p50_ms t) = ms_of_us (w ! (50 * length w div 100))"
    using r(1) [of "fl (50 / 100)", unfolded i(1)] r(3) ne by (simp add: p50_ms_def)
  show "fst (p99_ms t) = ms_of_us (w ! (99 * length w div 100))"
    using r(1) [of "fl (99 / 100)", unfolded i(2)] r(3) ne
    by (auto simp: p99_ms_def div_less_iff_less_mult)
  show "fst (p999_ms t) = ms_of_us (w ! (999 * length w div 1000))"
    using r(1) [of "fl (999 / 1000)", unfolded i(3)] r(3) ne
    by (auto simp: p999_ms_def div_less_iff_less_mult)
  show "fst (max_ms t) = ms_of_us (w ! (length w - 1))" by (rule r(2))
qed

section \<open>Properties\<close>

text \<open>
  After any history the ring holds exactly the last 1024 recorded intervals,
  oldest first from the write position when it is full and in order from slot 0 before that,
  and the count says how many there are.
\<close>

theorem ring_holds_last_samples:
  assumes "length (recorded es) < 2 ^ 64"
  shows "let t = fold cadence_step es new_cadence_tracker; us = recorded es in
    sample_count t = min (length us) 1024 \<and>
    (if length us < 1024 then take (length us) (samples_us t) = us
     else drop (next_slot t) (samples_us t) @ take (next_slot t) (samples_us t)
       = drop (length us - 1024) us)"
  using tracker_run [OF assms]
  by (simp add: tracker_inv_def ring_ok_def window_def kCapacity_def Let_def)

lemma ring_holds_last_samples_witness:
  "take 2 (samples_us (fold cadence_step [Record_us 20013, Read_p99, Record_us 19990]
     new_cadence_tracker)) = [20013, 19990]"
proof -
  let ?es = "[Record_us 20013, Read_p99, Record_us 19990]"
  have rec: "recorded ?es = [20013, 19990]" by (simp add: recorded_def)
  then have "length (recorded ?es) < 2 ^ 64" by simp
  from ring_holds_last_samples [OF this, unfolded rec] show ?thesis
    by (simp only: Let_def) (simp add: numeral_2_eq_2)
qed

text \<open>
  C22 (functional): whatever mix of records and reads came before, each accessor returns, in
  rounded milliseconds, the exact order statistic of the last 1024 intervals: elements
  \<open>n/2\<close>, \<open>99n/100\<close> and \<open>999n/1000\<close> (rounded down) of the sorted window, and its maximum. The
  stale-cache test and the double arithmetic of the index never change the answer.
\<close>

theorem cadence_reads_order_statistics:
  assumes "length (recorded es) < 2 ^ 64" "recorded es \<noteq> []"
  shows "let t = fold cadence_step es new_cadence_tracker;
      w = sort (window (recorded es)); n = length w in
    fst (p50_ms t) = ms_of_us (w ! (50 * n div 100)) \<and>
    fst (p99_ms t) = ms_of_us (w ! (99 * n div 100)) \<and>
    fst (p999_ms t) = ms_of_us (w ! (999 * n div 1000)) \<and>
    fst (max_ms t) = ms_of_us (Max (set (window (recorded es))))"
proof -
  let ?w = "sort (window (recorded es))"
  have "length ?w \<noteq> 0" using assms(2) by simp
  then have "?w \<noteq> []" by (metis list.size(3))
  from sorted_Max [OF sorted_sort this]
  have m: "Max (set (window (recorded es))) = ?w ! (length ?w - 1)" by (simp only: set_sort)
  show ?thesis
    unfolding Let_def m accessors [OF tracker_run [OF assms(1)] assms] by blast
qed

lemma cadence_reads_order_statistics_witness:
  "fst (p50_ms (fold cadence_step [Record_us 20013, Read_p99, Record_us 19990, Record_us 31000]
     new_cadence_tracker)) = ms_of_us 20013"
  using cadence_reads_order_statistics [of "[Record_us 20013, Read_p99, Record_us 19990, Record_us 31000]"]
  by (simp add: recorded_def window_def kCapacity_def Let_def)

text \<open>
  The reported figures are in order, p50, p99, p99.9, maximum, in every reachable
  state, an empty tracker included.
\<close>

theorem cadence_figures_ordered:
  assumes "length (recorded es) < 2 ^ 64"
  shows "let t = fold cadence_step es new_cadence_tracker in
    fst (p50_ms t) \<le> fst (p99_ms t) \<and> fst (p99_ms t) \<le> fst (p999_ms t) \<and>
    fst (p999_ms t) \<le> fst (max_ms t)"
proof (cases "recorded es = []")
  case True
  with tracker_run [OF assms] have "sample_count (fold cadence_step es new_cadence_tracker) = 0"
    by (simp add: tracker_inv_def ring_ok_def)
  then show ?thesis
    by (simp add: p50_ms_def p99_ms_def p999_ms_def percentile_ms_def max_ms_def Let_def)
next
  case False
  let ?w = "sort (window (recorded es))"
  note acc = accessors [OF tracker_run [OF assms] assms False]
  have n: "1 \<le> length ?w" using False by (cases "recorded es") (simp_all add: kCapacity_def)
  then have idx: "50 * length ?w div 100 \<le> 99 * length ?w div 100"
    "99 * length ?w div 100 \<le> 999 * length ?w div 1000"
    "999 * length ?w div 1000 \<le> length ?w - 1" "length ?w - 1 < length ?w" by linarith+
  have le: "ms_of_us (?w ! i) \<le> ms_of_us (?w ! j)" if "i \<le> j" "j < length ?w" for i j
    using that by (intro ms_of_us_mono sorted_nth_mono sorted_sort)
  show ?thesis
    unfolding acc Let_def using idx by (intro conjI le) linarith+
qed

lemma cadence_figures_ordered_witness:
  "fst (p50_ms (fold cadence_step [Record_us 20013, Record_us 19990] new_cadence_tracker))
   \<le> fst (p99_ms (fold cadence_step [Record_us 20013, Record_us 19990] new_cadence_tracker))"
  using cadence_figures_ordered [of "[Record_us 20013, Record_us 19990]"]
  by (simp add: recorded_def Let_def)

end
