(* ===== verification/Publishers.thy ===== *)
theory Publishers
  imports Daemon_State Cadence_Tracker Nt_Topics
begin

text \<open>
  The threads that only publish: control_data_publisher (one control frame per tick, and the
  cadence of its own ticks), diagnostics_publisher (1 Hz figures), imu_publisher (constants),
  and the two wait loops of check_server_ready.cpp, the client that checks the frames.
\<close>

section \<open>ControlDataPublisher\<close>

text \<open>The cadence member, the local \<open>last\<close> of \<open>run\<close>, and what the sink has been given.\<close>

record ControlDataPublisher =
  cadence :: CadenceTracker
  last_instant :: int
  sunk :: "u8 list list"

definition new_publisher :: "int \<Rightarrow> ControlDataPublisher" where
  "new_publisher now = \<lparr>cadence = new_cadence_tracker, last_instant = now, sunk = []\<rparr>"

definition publisher_tick ::
  "pb_encoder \<Rightarrow> int \<Rightarrow> DaemonState \<Rightarrow> ControlDataPublisher \<Rightarrow> ControlDataPublisher" where
  "publisher_tick pb_encode now st p =
    (let p = p\<lparr>cadence := record_interval_us (cast_us (now - last_instant p)) (cadence p)\<rparr>;
         p = p\<lparr>last_instant := now\<rparr>;
         view = snapshot_control st;
         buf = replicate kControlDataMaxBytes 0;
         (n, buf) = encode_control_data pb_encode view buf
     in if n = 0 then p else p\<lparr>sunk := sunk p @ [take n buf]\<rparr>)"

definition publisher_run ::
  "pb_encoder \<Rightarrow> (int \<times> DaemonState) list \<Rightarrow> ControlDataPublisher \<Rightarrow> ControlDataPublisher" where
  "publisher_run pb_encode = fold (\<lambda>(now, st). publisher_tick pb_encode now st)"

text \<open>What a tick should send, and the intervals between instants.\<close>

definition frame :: "pb_encoder \<Rightarrow> DaemonState \<Rightarrow> u8 list list" where
  "frame pb_encode st =
    (case pb_encode 256 (control_data_message (snapshot_control st)) of
       (ok, bytes) \<Rightarrow> if ok \<and> bytes \<noteq> [] then [bytes] else [])"

fun intervals_us :: "int \<Rightarrow> int list \<Rightarrow> int list" where
  "intervals_us p [] = []"
| "intervals_us p (t # ts) = cast_us (t - p) # intervals_us t ts"

lemma publisher_tick_fields:
  "cadence (publisher_tick pb now st p) = record_interval_us (cast_us (now - last_instant p)) (cadence p)"
  "last_instant (publisher_tick pb now st p) = now"
  "sunk (publisher_tick pb now st p) = sunk p @ frame pb st"
  by (auto simp: publisher_tick_def frame_def encode_control_data_def kControlDataMaxBytes_def
      Let_def split: prod.splits)

lemma publisher_run_fields:
  "cadence (publisher_run pb ts p) =
     fold record_interval_us (intervals_us (last_instant p) (map fst ts)) (cadence p)"
  "sunk (publisher_run pb ts p) = sunk p @ concat (map (frame pb \<circ> snd) ts)"
  by (induction ts arbitrary: p)
    (simp_all add: publisher_run_def publisher_tick_fields split: prod.splits)

section \<open>DiagnosticsPublisher\<close>

datatype nt_value = NtInt i64 | NtDouble rat | NtString string | NtBool bool | NtDoubles "rat list"

type_synonym publications = "(string \<times> nt_value) list"

definition kDiagTickPeriod :: int where "kDiagTickPeriod = 1000"

record DiagnosticsPublisher =
  diag_start :: int
  heartbeat :: i64

definition new_diagnostics :: "int \<Rightarrow> string \<Rightarrow> DiagnosticsPublisher \<times> publications" where
  "new_diagnostics now build_info =
    (\<lparr>diag_start = now, heartbeat = 0\<rparr>, [(kDiagBuildInfo, NtString build_info)])"

text \<open>\<open>duration<double>\<close> from nanoseconds: the count as a double, divided by \<open>10^9\<close>.\<close>

definition seconds_double :: "int \<Rightarrow> rat" where
  "seconds_double ns = double_div (double_of_int ns) 1000000000"

definition diagnostics_tick ::
  "int \<Rightarrow> DiagnosticsPublisher \<times> CadenceTracker \<times> publications
     \<Rightarrow> DiagnosticsPublisher \<times> CadenceTracker \<times> publications" where
  "diagnostics_tick now = (\<lambda>(d, t, out).
    let hb = heartbeat d + 1;
        d = d\<lparr>heartbeat := hb\<rparr>;
        out = out @ [(kDiagHeartbeat, NtInt hb)];
        (p99, t) = p99_ms t;
        out = out @ [(kDiagP99, NtDouble p99)];
        (p50, t) = p50_ms t;
        out = out @ [(kDiagP50, NtDouble p50)];
        uptime = now - diag_start d
    in (d, t, out @ [(kDiagUptime, NtDouble (seconds_double uptime))]))"

definition heartbeats :: "publications \<Rightarrow> i64 list" where
  "heartbeats out = [v. (topic, NtInt v) \<leftarrow> out, topic = kDiagHeartbeat]"

lemma diagnostics_tick_beat:
  "diagnostics_tick now (d, t, out) = (d', t', out') \<Longrightarrow>
     heartbeat d' = heartbeat d + 1 \<and> heartbeats out' = heartbeats out @ [heartbeat d + 1]"
  by (auto simp: diagnostics_tick_def Let_def heartbeats_def kDiagP99_def kDiagP50_def
      kDiagHeartbeat_def kDiagUptime_def split: prod.splits)

lemma diagnostics_beats:
  "fold diagnostics_tick ts (d, t, out) = (d', t', out') \<Longrightarrow>
     heartbeats out' = heartbeats out @ map (\<lambda>n. heartbeat d + of_nat (Suc n)) [0..<length ts]
     \<and> heartbeat d' = heartbeat d + of_nat (length ts)"
proof (induction ts arbitrary: d t out)
  case (Cons now ts)
  obtain d1 t1 out1 where s: "diagnostics_tick now (d, t, out) = (d1, t1, out1)"
    by (metis prod_cases3)
  with Cons.prems have "fold diagnostics_tick ts (d1, t1, out1) = (d', t', out')" by simp
  from Cons.IH [OF this] diagnostics_tick_beat [OF s] show ?case
    by (simp add: upt_conv_Cons map_Suc_upt [symmetric] o_def algebra_simps del: upt_Suc)
qed simp

section \<open>ImuPublisher\<close>

definition kImuArrayTopics :: "string list" where
  "kImuArrayTopics =
    [''/imu/rawaccel'', ''/imu/rawgyro'', ''/imu/quat'', ''/imu/euler_flat'',
     ''/imu/euler_landscape'', ''/imu/euler_portrait'']"

definition kImuScalarTopics :: "string list" where
  "kImuScalarTopics = [''/imu/yaw_flat'', ''/imu/yaw_landscape'', ''/imu/yaw_portrait'']"

definition kZero3 :: "rat list" where "kZero3 = [0, 0, 0]"
definition kQuatIdent :: "rat list" where "kQuatIdent = [1, 0, 0, 0]"

definition imu_publications :: publications where
  "imu_publications =
     map (\<lambda>name. if name = ''/imu/quat'' then (name, NtDoubles kQuatIdent)
       else (name, NtDoubles kZero3)) kImuArrayTopics
     @ map (\<lambda>name. (name, NtDouble 0)) kImuScalarTopics"

section \<open>check_server_ready\<close>

definition kPollMs :: nat where "kPollMs = 20"
definition kTimeoutMs :: nat where "kTimeoutMs = 2000"

text \<open>
  Both loops poll at 0, 20, ..., 2000 ms. What a subscriber then returns, and the decoder, are
  parameters: the topic's value at an instant, and the message in a byte string, if any.
\<close>

function wait_for_server_ready :: "(nat \<Rightarrow> bool) \<Rightarrow> nat \<Rightarrow> bool" where
  "wait_for_server_ready ready waited =
    (if kTimeoutMs < waited then False
     else if ready waited then True
     else wait_for_server_ready ready (waited + kPollMs))"
  by pat_completeness auto
termination
  by (relation "measure (\<lambda>(_, waited). Suc kTimeoutMs - waited)") (auto simp: kPollMs_def)

function wait_for_control_data ::
  "(u8 list \<Rightarrow> ProtobufControlData option) \<Rightarrow> (nat \<Rightarrow> u8 list) \<Rightarrow> nat \<Rightarrow> bool" where
  "wait_for_control_data pb_decode topic waited =
    (if kTimeoutMs < waited then False
     else let bytes = topic waited in
       if bytes \<noteq> [] then
         (case pb_decode bytes of
            None \<Rightarrow> False
          | Some msg \<Rightarrow> ControlWord msg AND kCwDsConnectedBit \<noteq> 0)
       else wait_for_control_data pb_decode topic (waited + kPollMs))"
  by pat_completeness auto
termination
  by (relation "measure (\<lambda>(_, _, waited). Suc kTimeoutMs - waited)") (auto simp: kPollMs_def)

declare wait_for_server_ready.simps [simp del] wait_for_control_data.simps [simp del]

text \<open>The exit code: 0 on a full pass, 1 otherwise.\<close>

definition check_server_ready ::
  "(u8 list \<Rightarrow> ProtobufControlData option) \<Rightarrow> (nat \<Rightarrow> bool) \<Rightarrow> (nat \<Rightarrow> u8 list) \<Rightarrow> nat" where
  "check_server_ready pb_decode ready topic =
    (if wait_for_server_ready ready 0 \<and> wait_for_control_data pb_decode topic 0 then 0 else 1)"

lemma wait_ready_iff:
  "wait_for_server_ready ready w \<longleftrightarrow> (\<exists>k. w + k * 20 \<le> 2000 \<and> ready (w + k * 20))"
proof (induction ready w rule: wait_for_server_ready.induct)
  case (1 ready w)
  show ?case
  proof (cases "2000 < w \<or> ready w")
    case True
    then show ?thesis
      by (subst wait_for_server_ready.simps) (auto simp: kTimeoutMs_def intro: exI [of _ 0])
  next
    case False
    with 1 have "wait_for_server_ready ready w \<longleftrightarrow>
        (\<exists>k. w + 20 + k * 20 \<le> 2000 \<and> ready (w + 20 + k * 20))"
      by (subst wait_for_server_ready.simps) (simp add: kTimeoutMs_def kPollMs_def)
    also have "\<dots> \<longleftrightarrow> (\<exists>k. w + Suc k * 20 \<le> 2000 \<and> ready (w + Suc k * 20))"
      by (simp add: algebra_simps)
    also have "\<dots> \<longleftrightarrow> (\<exists>k. w + k * 20 \<le> 2000 \<and> ready (w + k * 20))"
      using False by (metis add_0_right mult_0 not0_implies_Suc)
    finally show ?thesis .
  qed
qed

text \<open>A topic that is silent until some poll and then shows frames that pass, passes.\<close>

lemma wait_data_passes:
  assumes "\<And>bytes. bytes \<in> ok \<Longrightarrow> bytes \<noteq> [] \<and>
      (\<exists>msg. pb_decode bytes = Some msg \<and> ControlWord msg AND kCwDsConnectedBit \<noteq> 0)"
    and "w + k * 20 \<le> 2000" "topic (w + k * 20) \<in> ok" "\<forall>j. topic j = [] \<or> topic j \<in> ok"
  shows "wait_for_control_data pb_decode topic w"
  using assms(2,3)
proof (induction k arbitrary: w)
  case 0
  from assms(1) [OF 0(2)] 0 show ?case
    by (subst wait_for_control_data.simps) (auto simp: kTimeoutMs_def Let_def)
next
  case (Suc k)
  then have IH: "wait_for_control_data pb_decode topic (w + 20)" by (simp add: algebra_simps)
  show ?case
  proof (cases "topic w = []")
    case True
    with IH Suc.prems show ?thesis
      by (subst wait_for_control_data.simps) (simp add: kTimeoutMs_def kPollMs_def)
  next
    case False
    with assms(4) have "topic w \<in> ok" by blast
    from assms(1) [OF this] Suc.prems show ?thesis
      by (subst wait_for_control_data.simps) (auto simp: kTimeoutMs_def Let_def)
  qed
qed

section \<open>Properties\<close>

text \<open>
  After any ticks, the sink has been given, in order, exactly one frame per
  tick, the encoding of the state at that tick, less those whose encoding failed or was empty;
  and the cadence has recorded the time between successive ticks, in microseconds, failed
  ticks included.
\<close>

theorem publisher_sends_every_snapshot:
  "let p = publisher_run pb_encode ts (new_publisher t0) in
     sunk p = concat (map (frame pb_encode \<circ> snd) ts) \<and>
     cadence p = fold record_interval_us (intervals_us t0 (map fst ts)) new_cadence_tracker"
  by (simp add: Let_def publisher_run_fields new_publisher_def)

text \<open>
  C25 (roundtrip): end to end, any client that decodes what the daemon encodes and sees, at each
  poll, nothing or some published frame, and at one poll within two seconds a frame, exits
  with 0 once \<open>ServerReady\<close> is seen: every published frame has its DsConnected bit.
\<close>

theorem published_frames_pass_check:
  assumes codec: "list_all (\<lambda>st. case pb_encode 256 (control_data_message (snapshot_control st)) of
      (ok, bytes) \<Rightarrow> \<not> ok \<or> pb_decode bytes = Some (control_data_message (snapshot_control st)))
      (map snd ts)"
    and ready: "ready (i * 20)" "i \<le> 100"
    and topic: "\<forall>j. topic j \<in> insert [] (set (sunk (publisher_run pb_encode ts (new_publisher t0))))"
    and seen: "topic (k * 20) \<noteq> []" "k \<le> 100"
  shows "check_server_ready pb_decode ready topic = 0"
proof -
  let ?ok = "set (sunk (publisher_run pb_encode ts (new_publisher t0))) - {[]}"
  have pass: "bytes \<noteq> [] \<and> (\<exists>msg. pb_decode bytes = Some msg \<and> ControlWord msg AND kCwDsConnectedBit \<noteq> 0)"
    if "bytes \<in> ?ok" for bytes
  proof -
    from that obtain st where st: "st \<in> set (map snd ts)" "bytes \<in> set (frame pb_encode st)"
      by (auto simp: publisher_run_fields new_publisher_def)
    then have "pb_encode 256 (control_data_message (snapshot_control st)) = (True, bytes)" "bytes \<noteq> []"
      by (auto simp: frame_def split: prod.splits if_splits)
    moreover from this codec st(1) have
      "pb_decode bytes = Some (control_data_message (snapshot_control st))"
      by (auto simp: list_all_iff)
    moreover have "cw_flag (pack_control_word (snapshot_control st)) kCwDsConnectedBit"
      by (simp add: cw_flag_pack)
    ultimately show ?thesis by (simp add: control_data_message_def cw_flag_def)
  qed
  have "wait_for_control_data pb_decode topic 0"
  proof (rule wait_data_passes [where ok = ?ok and k = k, OF pass])
    show "topic (0 + k * 20) \<in> ?ok" using topic seen(1) by (metis Diff_iff add_0 insert_iff empty_iff)
    show "\<forall>j. topic j = [] \<or> topic j \<in> ?ok" using topic by blast
  qed (use seen(2) in simp_all)
  moreover have "wait_for_server_ready ready 0"
    using ready by (auto simp: wait_ready_iff)
  ultimately show ?thesis by (simp add: check_server_ready_def)
qed

text \<open>A stand-in codec: the control word and match time, four bytes each.\<close>

definition bytes4 :: "32 word \<Rightarrow> u8 list" where
  "bytes4 w = [ucast w, ucast (drop_bit 8 w), ucast (drop_bit 16 w), ucast (drop_bit 24 w)]"

definition word4 :: "u8 list \<Rightarrow> 32 word" where
  "word4 b = ucast (b ! 0) OR push_bit 8 (ucast (b ! 1)) OR push_bit 16 (ucast (b ! 2))
     OR push_bit 24 (ucast (b ! 3))"

lemma word4_bytes4 [simp]: "word4 (bytes4 w @ rest) = w"
proof (rule bit_word_eqI)
  fix n
  assume "n < LENGTH(32)"
  then consider "n < 8" | "8 \<le> n" "n < 16" | "16 \<le> n" "n < 24" | "24 \<le> n" "n < 32"
    by fastforce
  then show "bit (word4 (bytes4 w @ rest)) n = bit w n"
    by cases (auto simp: word4_def bytes4_def bit_or_iff bit_push_bit_iff bit_ucast_iff
      bit_drop_bit_eq)
qed

definition eight_bytes :: pb_encoder where
  "eight_bytes cap msg = (if cap < 8 then (False, [])
     else (True, bytes4 (ControlWord msg) @ bytes4 (MatchTime msg)))"

definition decode_eight :: "u8 list \<Rightarrow> ProtobufControlData option" where
  "decode_eight b = (if length b = 8
     then Some \<lparr>ControlWord = word4 b, MatchTime = word4 (drop 4 b), CurrentOpMode = 0\<rparr> else None)"

lemma eight_bytes_codec:
  "decode_eight (bytes4 w @ bytes4 t) = Some \<lparr>ControlWord = w, MatchTime = t, CurrentOpMode = 0\<rparr>"
proof -
  have "length (bytes4 w @ bytes4 t) = 8" "drop 4 (bytes4 w @ bytes4 t) = bytes4 t @ []"
    by (simp_all add: bytes4_def)
  then show ?thesis by (simp only: decode_eight_def word4_bytes4 if_True refl)
qed

lemma published_frames_pass_check_witness:
  "check_server_ready decode_eight (\<lambda>w. w = 40)
     (\<lambda>w. if w < 60 then [] else bytes4 (pack_control_word (snapshot_control initial_daemon_state)) @ bytes4 0) = 0"
proof (rule published_frames_pass_check [where ts = "[(20000000, initial_daemon_state)]" and ?t0.0 = 0
      and pb_encode = eight_bytes and i = 2 and k = 3])
  show "\<forall>j. (if j < 60 then [] else bytes4 (pack_control_word (snapshot_control initial_daemon_state)) @ bytes4 0)
      \<in> insert [] (set (sunk (publisher_run eight_bytes [(20000000, initial_daemon_state)] (new_publisher 0))))"
    by (simp add: publisher_run_fields new_publisher_def frame_def eight_bytes_def
        control_data_message_def bytes4_def initial_daemon_state_def)
qed (simp_all add: eight_bytes_def control_data_message_def eight_bytes_codec, simp add: bytes4_def)

text \<open>
  The heartbeat topic counts the ticks of the publisher from one, without
  gaps (modulo \<open>2^64\<close>).
\<close>

theorem heartbeat_counts_ticks:
  "let (d, out) = new_diagnostics now build_info in
     heartbeats (snd (snd (fold diagnostics_tick ts (d, t, out)))) =
       map (\<lambda>n. of_nat (n + 1)) [0..<length ts]"
proof -
  let ?d = "fst (new_diagnostics now build_info)" and ?out = "snd (new_diagnostics now build_info)"
  obtain d' t' out' where r: "fold diagnostics_tick ts (?d, t, ?out) = (d', t', out')"
    by (metis prod_cases3)
  have "heartbeat ?d = 0" "heartbeats ?out = []"
    by (simp_all add: new_diagnostics_def heartbeats_def)
  with diagnostics_beats [OF r] have "heartbeats out' = map (\<lambda>n. of_nat (n + 1)) [0..<length ts]" by simp
  with r show ?thesis by (simp add: case_prod_beta)
qed

end
