(* ===== verification/Web_Ui.thy ===== *)
theory Web_Ui
  imports Web_Forms Match_Controller Smartio_Bridge Publishers
begin

text \<open>
  web_ui.{hpp,cpp}: the request handlers, on strings: form bodies in, formatted JSON out. The
  routes and the page are in \<open>Web_Server\<close>. A handler that reads the cadence also returns the
  tracker, whose cache the read may refresh; the clock reads of one request are one instant.
\<close>

section \<open>Requests\<close>

definition truthy :: "string \<Rightarrow> bool" where
  "truthy v \<longleftrightarrow> v = ''true'' \<or> v = ''1''"

text \<open>\<open>static_cast<RobotMode>\<close> of a value in range.\<close>

definition robot_mode_of_int :: "int \<Rightarrow> RobotMode" where
  "robot_mode_of_int m = (if m = 1 then Auto else if m = 2 then Teleop else if m = 3 then Test else Unknown)"

definition clamp_alliance :: "int \<Rightarrow> int" where
  "clamp_alliance a = (let a = (if a < 0 then 0 else a) in if 3 < a then 3 else a)"

definition handle_set_control :: "string \<Rightarrow> DaemonState \<Rightarrow> DaemonState" where
  "handle_set_control body s =
    (let enabled = extract_field body ''enabled'';
         s = (if enabled \<noteq> [] then set_enabled (truthy enabled) s else s);
         estop = extract_field body ''estop'';
         s = (if estop \<noteq> [] then set_e_stop (truthy estop) s else s);
         mode = extract_field body ''mode'';
         s = (if mode \<noteq> []
              then let m = from_chars_int mode 0 in
                set_mode (robot_mode_of_int (if 0 \<le> m \<and> m \<le> 3 then m else 0)) s
              else s);
         alliance = extract_field body ''alliance'';
         s = (if alliance \<noteq> []
              then let a = from_chars_int alliance 0 in
                set_alliance (word_of_int (clamp_alliance a)) s
              else s)
     in s)"

definition handle_match ::
  "string \<Rightarrow> int \<Rightarrow> MatchController \<times> DaemonState \<Rightarrow> MatchController \<times> DaemonState" where
  "handle_match body now cs =
    (case find_sub ''action='' body of
       None \<Rightarrow> cs
     | Some pos \<Rightarrow>
         let action = value_from body (pos + 7) in
         if action = ''start'' then start_match now cs
         else if action = ''stop'' then stop_match cs
         else if action = ''skip-to-teleop'' then skip_to_teleop now cs
         else cs)"

section \<open>Responses\<close>

definition mode_name :: "RobotMode \<Rightarrow> string" where
  "mode_name m = (case m of Auto \<Rightarrow> ''auto'' | Teleop \<Rightarrow> ''teleop'' | Test \<Rightarrow> ''test'' | Unknown \<Rightarrow> ''unknown'')"

text \<open>
  \<open>{:.Nf}\<close> of a double (\<open>N\<close> positive): its exact value rounded to \<open>N\<close> decimals, ties to even.
\<close>

definition format_fixed :: "nat \<Rightarrow> rat \<Rightarrow> string" where
  "format_fixed digits x =
    (let k = nat (round_even (\<bar>x\<bar> * 10 ^ digits));
         frac = decimal (k mod 10 ^ digits)
     in (if x < 0 then ''-'' else '''') @ decimal (k div 10 ^ digits) @ ''.''
        @ replicate (digits - length frac) CHR ''0'' @ frac)"

definition bool_name :: "bool \<Rightarrow> string" where
  "bool_name b = (if b then ''true'' else ''false'')"

definition web_uptime :: "int \<Rightarrow> int \<Rightarrow> int" where
  "web_uptime now start_time = cdiv (now - start_time) 1000000000"

definition handle_state ::
  "int \<Rightarrow> int \<Rightarrow> DaemonState \<Rightarrow> MatchController \<Rightarrow> ChannelGlue list \<Rightarrow> CadenceTracker
     \<Rightarrow> string \<times> CadenceTracker" where
  \<open>handle_state now start_time st match smartio t =
    (let v = snapshot_control st;
         up = seconds_double (now - start_time);
         m = match_snapshot now match;
         (p50, t) = p50_ms t;
         (p99, t) = p99_ms t
     in (''{"control":{"enabled":'' @ bool_name (cv_enabled v)
         @ '',"mode":"'' @ mode_name (cv_mode v)
         @ ''","alliance":'' @ int_string (sint (cv_alliance v))
         @ '',"estop":'' @ bool_name (cv_e_stop v)
         @ ''},"match":{"phase":"'' @ match_phase_name (sn_phase m)
         @ ''","total_elapsed_s":'' @ format_fixed 1 (double_div (double_of_int (total_elapsed m)) 1000)
         @ '',"remaining_s":'' @ format_fixed 1 (double_div (double_of_int (remaining_in_phase m)) 1000)
         @ ''},"smartio":{"channels_configured":'' @ decimal (channels_configured smartio)
         @ '',"channel_count":'' @ decimal (channel_count smartio)
         @ ''},"cadence":{"p50_ms":'' @ format_fixed 3 p50
         @ '',"p99_ms":'' @ format_fixed 3 p99
         @ '',"samples":'' @ decimal (sample_count t)
         @ ''},"uptime_s":'' @ format_fixed 3 up @ ''}'', t))\<close>

text \<open>The status code and the body.\<close>

definition handle_healthz :: "int \<Rightarrow> int \<Rightarrow> CadenceTracker \<Rightarrow> (nat \<times> string) \<times> CadenceTracker" where
  \<open>handle_healthz now start_time t =
    (let (p99, t) = p99_ms t;
         healthy = (p99 < 25);
         http_status = (if healthy then 200 else 503);
         (p99', t) = p99_ms t
     in ((http_status,
          ''{"status":"'' @ (if healthy then ''ok'' else ''degraded'')
          @ ''","cadence_p99_ms":'' @ format_fixed 3 p99'
          @ '',"uptime_s":'' @ format_fixed 3 (seconds_double (now - start_time)) @ ''}''), t))\<close>

section \<open>Facts shared by the properties\<close>

definition control_keys :: "string list" where
  "control_keys = [''enabled'', ''estop'', ''mode'', ''alliance'']"

text \<open>A form of control fields: known names, in any order, values without \<open>&\<close> or \<open>=\<close>.\<close>

definition control_form :: "(string \<times> string) list \<Rightarrow> bool" where
  "control_form kvs \<longleftrightarrow> list_all (\<lambda>(k, v). k \<in> set control_keys \<and> clean v) kvs"

lemma control_keys_clean: "k \<in> set control_keys \<Longrightarrow> clean k"
  by (auto simp: control_keys_def clean_def)

lemma control_keys_suffix:
  "list_all (\<lambda>k. list_all (\<lambda>k'. suffix k' k \<longrightarrow> k = k') control_keys) control_keys"
  by code_simp

lemma extract_control:
  assumes "control_form kvs" "key \<in> set control_keys"
  shows "extract_field (form_encode kvs) key = (case map_of kvs key of None \<Rightarrow> [] | Some v \<Rightarrow> v)"
proof (rule extract_form [OF _ control_keys_clean [OF assms(2)]])
  have "(case x of (k, v) \<Rightarrow> k \<in> set control_keys \<and> clean v) \<Longrightarrow>
      (case x of (k, v) \<Rightarrow> clean k \<and> clean v \<and> (suffix key k \<longrightarrow> k = key))" for x
    using control_keys_suffix assms(2) control_keys_clean by (cases x) (simp add: list_all_iff)
  with assms(1) show "list_all (\<lambda>(k, v). clean k \<and> clean v \<and> (suffix key k \<longrightarrow> k = key)) kvs"
    unfolding control_form_def by (rule list.pred_mono_strong)
qed

lemma extract_fields:
  assumes "control_form kvs"
  shows "extract_field (form_encode kvs) ''enabled'' = (case map_of kvs ''enabled'' of None \<Rightarrow> [] | Some v \<Rightarrow> v)"
    "extract_field (form_encode kvs) ''estop'' = (case map_of kvs ''estop'' of None \<Rightarrow> [] | Some v \<Rightarrow> v)"
    "extract_field (form_encode kvs) ''mode'' = (case map_of kvs ''mode'' of None \<Rightarrow> [] | Some v \<Rightarrow> v)"
    "extract_field (form_encode kvs) ''alliance'' = (case map_of kvs ''alliance'' of None \<Rightarrow> [] | Some v \<Rightarrow> v)"
  by (rule extract_control [OF assms]; simp add: control_keys_def)+

text \<open>The first value of a field, when it is there and not empty.\<close>

definition field :: "(string \<times> string) list \<Rightarrow> string \<Rightarrow> string option" where
  "field kvs key = (case map_of kvs key of None \<Rightarrow> None | Some v \<Rightarrow> if v = [] then None else Some v)"

lemma handle_set_control_fields:
  "ds_enabled (handle_set_control body s) =
     (if extract_field body ''enabled'' = [] then ds_enabled s else truthy (extract_field body ''enabled''))"
  "ds_e_stop (handle_set_control body s) =
     (if extract_field body ''estop'' = [] then ds_e_stop s else truthy (extract_field body ''estop''))"
  "ds_mode (handle_set_control body s) =
     (if extract_field body ''mode'' = [] then ds_mode s
      else let m = from_chars_int (extract_field body ''mode'') 0 in
        robot_mode_of_int (if 0 \<le> m \<and> m \<le> 3 then m else 0))"
  "ds_alliance (handle_set_control body s) =
     (if extract_field body ''alliance'' = [] then ds_alliance s
      else word_of_int (clamp_alliance (from_chars_int (extract_field body ''alliance'') 0)))"
  "ds_match_time_s (handle_set_control body s) = ds_match_time_s s"
  by (simp_all add: handle_set_control_def Let_def)

lemma clamp_alliance_range: "0 \<le> clamp_alliance a \<and> clamp_alliance a \<le> 3"
  by (simp add: clamp_alliance_def Let_def)

lemma clamped_alliance_range:
  "0 \<le> sint (word_of_int (clamp_alliance a) :: i32) \<and> sint (word_of_int (clamp_alliance a) :: i32) \<le> 3"
  using clamp_alliance_range [of a] by (simp add: sint_word_of_int_32)

lemma match_verb:
  assumes "clean v"
  shows "handle_match (form_encode [(''action'', v)]) now cs =
    (if v = ''start'' then start_match now cs else if v = ''stop'' then stop_match cs
     else if v = ''skip-to-teleop'' then skip_to_teleop now cs else cs)"
proof -
  have "find_sub ''action='' (''action='' @ v) = Some 0"
    using find_sub_first [of "[]" "''action=''" v] by simp
  moreover have "value_from (''action='' @ v @ []) (length ''action='') = v"
    using assms by (intro value_from_field) (simp_all add: clean_def)
  then have "value_from (''action='' @ v) 7 = v" by (simp add: eval_nat_numeral)
  ultimately show ?thesis by (simp add: handle_match_def Let_def)
qed

lemma ms_below_25: "ms_of_us us < 25 \<longleftrightarrow> us < 25000"
proof
  have edge: "ms_of_us 25000 = 25" "ms_of_us 24999 < 25" by code_simp+
  show "us < 25000" if "ms_of_us us < 25"
  proof (rule ccontr)
    assume "\<not> us < 25000"
    with ms_of_us_mono [of 25000 us] edge(1) that show False by simp
  qed
  show "ms_of_us us < 25" if "us < 25000"
    using ms_of_us_mono [of us 24999] edge(2) that by simp
qed

section \<open>Properties\<close>

text \<open>
  C26 (roundtrip): a body encoded from any list of control fields is acted on as that list: each
  field that is present and not empty sets its part of the state (\<open>true\<close> and \<open>1\<close> are true, a mode
  outside 0 to 3 is Unknown, the alliance is clamped to 0 to 3), every other part stays.
\<close>

theorem set_control_follows_form:
  assumes "control_form kvs"
  shows "let s' = handle_set_control (form_encode kvs) s in
    ds_enabled s' = (case field kvs ''enabled'' of None \<Rightarrow> ds_enabled s | Some v \<Rightarrow> truthy v) \<and>
    ds_e_stop s' = (case field kvs ''estop'' of None \<Rightarrow> ds_e_stop s | Some v \<Rightarrow> truthy v) \<and>
    ds_mode s' = (case field kvs ''mode'' of None \<Rightarrow> ds_mode s
      | Some v \<Rightarrow> (let m = from_chars_int v 0 in if 0 \<le> m \<and> m \<le> 3 then robot_mode_of_int m else Unknown)) \<and>
    ds_alliance s' = (case field kvs ''alliance'' of None \<Rightarrow> ds_alliance s
      | Some v \<Rightarrow> word_of_int (clamp_alliance (from_chars_int v 0))) \<and>
    ds_match_time_s s' = ds_match_time_s s"
  unfolding Let_def [of "handle_set_control (form_encode kvs) s"] handle_set_control_fields
  by (simp add: extract_fields [OF assms] field_def robot_mode_of_int_def Let_def split: option.split)

lemma set_control_follows_form_witness:
  "ds_mode (handle_set_control (form_encode [(''alliance'', ''2''), (''mode'', ''3'')])
     initial_daemon_state) = Test"
proof -
  let ?kvs = "[(''alliance'', ''2''), (''mode'', ''3'')]"
  have "control_form ?kvs" by (simp add: control_form_def control_keys_def clean_def)
  moreover have "from_chars_int ''3'' 0 = 3" by code_simp
  ultimately show ?thesis
    using set_control_follows_form [of ?kvs initial_daemon_state]
    by (simp add: field_def robot_mode_of_int_def Let_def)
qed

text \<open>
  Whatever bytes are posted, the alliance is left as it was or is a number from 0 to
  3, and so is encoded in the control word without loss; the match time is never touched.
\<close>

theorem set_control_any_body:
  "let s' = handle_set_control body s in
     (ds_alliance s' = ds_alliance s \<or>
      (0 \<le> sint (ds_alliance s') \<and> sint (ds_alliance s') \<le> 3 \<and>
       cw_alliance_field (pack_control_word (snapshot_control s')) = ds_alliance s')) \<and>
     ds_match_time_s s' = ds_match_time_s s"
proof -
  let ?s' = "handle_set_control body s"
  obtain a where a: "ds_alliance ?s' = ds_alliance s \<or> ds_alliance ?s' = word_of_int a"
    "a \<in> {0, 1, 2, 3}"
    using clamp_alliance_range [of "from_chars_int (extract_field body ''alliance'') 0"]
    by (fastforce simp: handle_set_control_fields)
  have "0 \<le> sint (word_of_int a :: i32) \<and> sint (word_of_int a :: i32) \<le> 3"
    using a(2) by (auto simp: sint_word_of_int_32)
  moreover have "(word_of_int a :: i32) AND 15 = word_of_int a" using a(2) by auto
  ultimately show ?thesis
    using a(1) by (auto simp: Let_def cw_alliance_field_pack handle_set_control_fields(5))
qed

text \<open>
  A match form with action \<open>v\<close> calls \<open>start_match\<close>, \<open>stop_match\<close> or \<open>skip_to_teleop\<close>
  for exactly the three known verbs and nothing for any other, and a body in which
  \<open>action=\<close> does not occur does nothing.
\<close>

theorem match_form_dispatches:
  assumes "clean v"
  shows "handle_match (form_encode [(''action'', v)]) now cs =
      (if v = ''start'' then start_match now cs else if v = ''stop'' then stop_match cs
       else if v = ''skip-to-teleop'' then skip_to_teleop now cs else cs) \<and>
    (sublist ''action='' body \<or> handle_match body now cs = cs)"
  using match_verb [OF assms] find_sub_None [of "''action=''" body] by (auto simp: handle_match_def)

lemma match_form_dispatches_witness:
  "phase (fst (handle_match ''action=start'' 7 (new_match_controller default_durations,
     initial_daemon_state))) = PhaseAuto"
proof -
  have "clean ''start''" by (simp add: clean_def)
  from match_form_dispatches [OF this] show ?thesis
    by (simp add: start_match_def apply_phase_def publish_match_time_def Let_def)
qed

text \<open>
  The health check answers 200 exactly when the 99th percentile sample of the
  last 1024 intervals is below 25000 microseconds (rounding to double never moves the line),
  503 otherwise, and 200 when nothing has been recorded.
\<close>

theorem healthz_status:
  assumes "length (recorded es) < 2 ^ 64"
  shows "fst (fst (handle_healthz now start_time (fold cadence_step es new_cadence_tracker))) =
    (let w = sort (window (recorded es)) in
       if w = [] \<or> w ! (99 * length w div 100) < 25000 then 200 else 503)"
proof (cases "recorded es = []")
  case True
  with tracker_run [OF assms] have "sample_count (fold cadence_step es new_cadence_tracker) = 0"
    by (simp add: tracker_inv_def ring_ok_def)
  with True show ?thesis
    by (simp add: handle_healthz_def p99_ms_def percentile_ms_def window_def Let_def)
next
  case False
  have "length (sort (window (recorded es))) \<noteq> 0" using False by simp
  then have "sort (window (recorded es)) \<noteq> []" by (metis list.size(3))
  with accessors(2) [OF tracker_run [OF assms] assms False] show ?thesis
    by (simp add: handle_healthz_def ms_below_25 Let_def case_prod_beta del: length_sort)
qed

lemma healthz_status_witness:
  "fst (fst (handle_healthz 9 0 (fold cadence_step [Record_us 20013, Record_us 25000]
     new_cadence_tracker))) = 503"
proof -
  let ?es = "[Record_us 20013, Record_us 25000]"
  have rec: "recorded ?es = [20013, 25000]" by (simp add: recorded_def)
  then have "length (recorded ?es) < 2 ^ 64" by simp
  from healthz_status [OF this, of 9 0] show ?thesis
    by (simp add: rec window_def kCapacity_def)
qed

end
