(* ===== verification/Root_Page.thy ===== *)
theory Root_Page
  imports Cxx_Text
begin

text \<open>
  The page the web UI serves, \<open>kRootHtml\<close> of web_ui.cpp, line by line, and what can be read off its
  text: the buttons with the script each runs, and the rows with the fields of the state they show.
\<close>

section \<open>The text\<close>

definition page_head :: "string list" where
  \<open>page_head =
    [''<!doctype html>'',
     ''<html>'',
     ''<head>'',
     ''<meta charset="utf-8">'',
     ''<title>pi5-system-surrogate</title>'',
     ''<style>'',
     ''body { font-family: ui-monospace, monospace; background: #1a1a1a; color: #e0e0e0; padding: 2em; max-width: 720px; }'',
     ''h1 { color: #4caf50; }'',
     ''.row { margin: 0.4em 0; }'',
     ''.k { color: #888; display: inline-block; width: 14em; }'',
     ''.v { color: #4caf50; }'',
     ''.bad { color: #f44336; }'',
     ''.warn { color: #ffa726; }'',
     ''button { background: #4caf50; color: white; border: 0; padding: 0.5em 1em; margin: 0.3em 0.3em 0.3em 0; cursor: pointer; font-family: inherit; }'',
     ''button.off { background: #555; }'',
     ''button.estop { background: #f44336; }'',
     ''hr { border: 0; border-top: 1px solid #333; margin: 2em 0; }'',
     ''</style>'',
     ''</head>'',
     ''<body>'',
     ''<h1>pi5-system-surrogate</h1>'',
     ''<div id="content">loading...</div>'',
     ''<hr>'']\<close>

definition page_controls :: "string list" where
  \<open>page_controls =
    [''<h2>Match</h2>'',
     ''<div>'',
     ''  <button onclick="postMatch('start')">Start Match</button>'',
     ''  <button class="off" onclick="postMatch('stop')">Stop Match</button>'',
     ''  <button onclick="postMatch('skip-to-teleop')">Skip to Teleop</button>'',
     ''</div>'',
     ''<h2>Manual override (use only when match phase is idle)</h2>'',
     ''<div>'',
     ''  <button onclick="setControl({enabled: true})">Enable</button>'',
     ''  <button class="off" onclick="setControl({enabled: false})">Disable</button>'',
     ''  <button onclick="setControl({mode: 1})">Auto</button>'',
     ''  <button onclick="setControl({mode: 2})">Teleop</button>'',
     ''  <button onclick="setControl({mode: 3})">Test</button>'',
     ''  <button class="estop" onclick="setControl({estop: true})">E-Stop</button>'',
     ''  <button class="off" onclick="setControl({estop: false})">Clear E-Stop</button>'',
     ''</div>'']\<close>

definition page_refresh :: "string list" where
  \<open>page_refresh =
    [''<script>'',
     ''async function refresh() {'',
     ''  try {'',
     ''    const r = await fetch('/api/state');'',
     ''    if (!r.ok) throw new Error('http ' + r.status);'',
     ''    const s = await r.json();'',
     ''    const cls = (cond, badClass) => cond ? `class="${badClass}"` : 'class="v"';'',
     ''    document.getElementById('content').innerHTML ='',
     ''      `<div class="row"><span class="k">match phase</span> <span class="v">${s.match.phase}</span></div>` +'',
     ''      `<div class="row"><span class="k">match elapsed</span> <span class="v">${s.match.total_elapsed_s.toFixed(1)} s</span></div>` +'',
     ''      `<div class="row"><span class="k">phase remaining</span> <span class="v">${s.match.remaining_s.toFixed(1)} s</span></div>` +'',
     ''      `<div class="row"><span class="k">enabled</span> <span ${cls(!s.control.enabled, 'warn')}>${s.control.enabled}</span></div>` +'',
     ''      `<div class="row"><span class="k">mode</span> <span class="v">${s.control.mode}</span></div>` +'',
     ''      `<div class="row"><span class="k">alliance</span> <span class="v">${s.control.alliance}</span></div>` +'',
     ''      `<div class="row"><span class="k">e-stop</span> <span ${cls(s.control.estop, 'bad')}>${s.control.estop}</span></div>` +'',
     ''      `<div class="row"><span class="k">smartio configured</span> <span class="v">${s.smartio.channels_configured} / ${s.smartio.channel_count}</span></div>` +'',
     ''      `<div class="row"><span class="k">controldata p50</span> <span ${cls(s.cadence.p50_ms > 25, 'warn')}>${s.cadence.p50_ms.toFixed(2)} ms</span></div>` +'',
     ''      `<div class="row"><span class="k">controldata p99</span> <span ${cls(s.cadence.p99_ms > 25, 'warn')}>${s.cadence.p99_ms.toFixed(2)} ms</span></div>` +'',
     ''      `<div class="row"><span class="k">cadence samples</span> <span class="v">${s.cadence.samples}</span></div>` +'',
     ''      `<div class="row"><span class="k">uptime</span> <span class="v">${s.uptime_s.toFixed(1)} s</span></div>`;'',
     ''  } catch (e) {'',
     ''    document.getElementById('content').innerHTML = '<div class="bad">disconnected</div>';'',
     ''  }'',
     ''}'']\<close>

definition page_actions :: "string list" where
  \<open>page_actions =
    [''async function setControl(v) {'',
     ''  const body = new URLSearchParams(v).toString();'',
     ''  await fetch('/api/control', { method: 'POST', headers: { 'Content-Type': 'application/x-www-form-urlencoded' }, body });'',
     ''  refresh();'',
     ''}'',
     ''async function postMatch(action) {'',
     ''  const body = new URLSearchParams({action}).toString();'',
     ''  await fetch('/api/match', { method: 'POST', headers: { 'Content-Type': 'application/x-www-form-urlencoded' }, body });'',
     ''  refresh();'',
     ''}'',
     ''refresh();'',
     ''setInterval(refresh, 1000);'',
     ''</script>'',
     ''</body>'',
     ''</html>'']\<close>

definition page_lines :: "string list" where
  "page_lines = page_head @ page_controls @ page_refresh @ page_actions"

fun join_lines :: "string list \<Rightarrow> string" where
  "join_lines [] = []"
| "join_lines [l] = l"
| "join_lines (l # ls) = l @ [CHR 0x0A] @ join_lines ls"

definition kRootHtml :: string where "kRootHtml = join_lines page_lines"

definition root_html :: string where "root_html = kRootHtml"

section \<open>Reading it\<close>

text \<open>The text of a line after the first occurrence of a mark, and up to a character.\<close>

definition after :: "string \<Rightarrow> string \<Rightarrow> string option" where
  "after mark l = map_option (\<lambda>i. drop (i + length mark) l) (find_sub mark l)"

definition up_to :: "char \<Rightarrow> string \<Rightarrow> string" where
  "up_to c = takeWhile (\<lambda>x. x \<noteq> c)"

text \<open>A button: its label and the script it runs.\<close>

definition line_button :: "string \<Rightarrow> (string \<times> string) list" where
  \<open>line_button l = (case after ''onclick="'' l of None \<Rightarrow> []
     | Some rest \<Rightarrow> (case after ''>'' rest of None \<Rightarrow> []
         | Some label \<Rightarrow> [(up_to CHR ''<'' label, up_to CHR 0x22 rest)]))\<close>

definition html_buttons :: "string list \<Rightarrow> (string \<times> string) list" where
  "html_buttons ls = concat (map line_button ls)"

text \<open>
  A row: its label and the fields of the reply it inserts, without a closing call of \<open>toFixed\<close>.
\<close>

fun split_at :: "char \<Rightarrow> string \<Rightarrow> string list" where
  "split_at c [] = [[]]"
| "split_at c (x # xs) = (case split_at c xs of
     [] \<Rightarrow> [] | w # ws \<Rightarrow> if x = c then [] # w # ws else (x # w) # ws)"

fun inserted :: "string \<Rightarrow> string list" where
  "inserted [] = []"
| "inserted (c # l) = (if take 4 (c # l) = ''${s.'' then [up_to CHR ''}'' (drop 3 l)] else []) @ inserted l"

definition line_rows :: "string \<Rightarrow> (string \<times> string list) list" where
  \<open>line_rows l = (case after ''class="k">'' l of None \<Rightarrow> []
     | Some label \<Rightarrow> 
         map (\<lambda>e. (up_to CHR ''<'' label, takeWhile (\<lambda>w. w \<noteq> ''toFixed'') (split_at CHR ''.'' (up_to CHR ''('' e)))) (inserted l))\<close>

definition html_rows :: "string list \<Rightarrow> (string \<times> string list) list" where
  "html_rows ls = concat (map line_rows ls)"

text \<open>The paths the script fetches.\<close>

definition html_fetches :: "string list \<Rightarrow> string list" where
  \<open>html_fetches ls = concat (map (\<lambda>l. case after ''fetch('' l of None \<Rightarrow> []
     | Some rest \<Rightarrow> [up_to CHR 0x27 (tl rest)]) ls)\<close>

end
