(* ===== verification/Web_Server.thy ===== *)
theory Web_Server
  imports Web_Ui Root_Page
begin

text \<open>
  The rest of web_ui.cpp: the routes that \<open>WebUI::start\<close> gives the HTTP server, the page's
  buttons with the two script functions behind them, and the shape of the JSON replies. The
  HTTP library is outside src/: a request arrives as method, path and body at an instant, and
  what the library answers to an unrouted request is not modelled. The text of the page is
  in \<open>Root_Page\<close>; the buttons and rows given here are checked against it.
\<close>

section \<open>Routes\<close>

datatype http_method = GET | POST

record http_response =
  status :: nat
  content_type :: string
  content :: string

text \<open>The objects the UI holds references to.\<close>

record web_world =
  w_state :: DaemonState
  w_match :: MatchController
  w_cadence :: CadenceTracker
  w_channels :: "ChannelGlue list"

type_synonym http_request = "http_method \<times> string \<times> string"

definition on_match ::
  "(MatchController \<times> DaemonState \<Rightarrow> MatchController \<times> DaemonState) \<Rightarrow> web_world \<Rightarrow> web_world" where
  "on_match f w = (case f (w_match w, w_state w) of (c, s) \<Rightarrow> w\<lparr>w_match := c, w_state := s\<rparr>)"

definition on_state :: "(DaemonState \<Rightarrow> DaemonState) \<Rightarrow> web_world \<Rightarrow> web_world" where
  "on_state f w = w\<lparr>w_state := f (w_state w)\<rparr>"

text \<open>A handler that leaves the status alone answers 200; \<open>None\<close> is no route.\<close>

definition serve ::
  "int \<Rightarrow> int \<Rightarrow> http_request \<Rightarrow> web_world \<Rightarrow> http_response option \<times> web_world" where
  "serve start_time now = (\<lambda>(meth, path, body) w.
    if meth = GET \<and> path = ''/'' then
      (Some \<lparr>status = 200, content_type = ''text/html; charset=utf-8'', content = root_html\<rparr>, w)
    else if meth = GET \<and> path = ''/api/state'' then
      (let (text, t) = handle_state now start_time (w_state w) (w_match w) (w_channels w) (w_cadence w)
       in (Some \<lparr>status = 200, content_type = ''application/json'', content = text\<rparr>, w\<lparr>w_cadence := t\<rparr>))
    else if meth = GET \<and> path = ''/healthz'' then
      (let ((code, text), t) = handle_healthz now start_time (w_cadence w)
       in (Some \<lparr>status = code, content_type = ''application/json'', content = text\<rparr>, w\<lparr>w_cadence := t\<rparr>))
    else if meth = POST \<and> path = ''/api/control'' then
      (Some \<lparr>status = 204, content_type = [], content = []\<rparr>, on_state (handle_set_control body) w)
    else if meth = POST \<and> path = ''/api/match'' then
      (Some \<lparr>status = 204, content_type = [], content = []\<rparr>, on_match (handle_match body now) w)
    else (None, w))"

text \<open>
  \<open>start\<close> and \<open>stop\<close>: the server object, the listening thread and the port. Assigning a
  \<open>std::thread\<close> to one that is joinable ends the process (\<open>None\<close>); \<open>stop\<close> joins first.
\<close>

record ui_server =
  ui_up :: bool
  ui_joinable :: bool
  bound_port :: int

definition kDefaultWebPort :: int where "kDefaultWebPort = 8080"

definition new_ui_server :: ui_server where
  "new_ui_server = \<lparr>ui_up = False, ui_joinable = False, bound_port = - 1\<rparr>"

definition web_start :: "int \<Rightarrow> ui_server \<Rightarrow> ui_server option" where
  "web_start port u =
    (if ui_joinable u then None else Some (u\<lparr>ui_up := True, bound_port := port, ui_joinable := True\<rparr>))"

definition web_stop :: "ui_server \<Rightarrow> ui_server" where
  "web_stop u = (if ui_up u then u\<lparr>ui_joinable := False, ui_up := False\<rparr> else u)"

lemma web_stop_start:
  "ui_joinable u = ui_up u \<Longrightarrow> \<not> ui_joinable (web_stop u) \<and> web_stop (web_stop u) = web_stop u \<and>
     (\<exists>u'. web_start port (web_stop u) = Some u' \<and> ui_joinable u' = ui_up u' \<and> web_start port u' = None)"
  by (simp add: web_start_def web_stop_def)

section \<open>The page\<close>

text \<open>The arguments of the two script functions, and the request each of them sends.\<close>

datatype js_value = JsBool bool | JsInt int | JsString string

datatype js_call = PostMatch string | SetControl "(string \<times> js_value) list"

fun js_text :: "js_value \<Rightarrow> string" where
  "js_text (JsBool b) = bool_name b"
| "js_text (JsInt k) = int_string k"
| "js_text (JsString s) = s"

definition url_params :: "(string \<times> js_value) list \<Rightarrow> string" where
  "url_params kvs = form_encode (map (\<lambda>(k, v). (k, js_text v)) kvs)"

fun fetch_request :: "js_call \<Rightarrow> http_request" where
  "fetch_request (SetControl v) = (POST, ''/api/control'', url_params v)"
| "fetch_request (PostMatch action) = (POST, ''/api/match'', url_params [(''action'', JsString action)])"

definition page_buttons :: "(string \<times> js_call) list" where
  "page_buttons =
    [(''Start Match'', PostMatch ''start''),
     (''Stop Match'', PostMatch ''stop''),
     (''Skip to Teleop'', PostMatch ''skip-to-teleop''),
     (''Enable'', SetControl [(''enabled'', JsBool True)]),
     (''Disable'', SetControl [(''enabled'', JsBool False)]),
     (''Auto'', SetControl [(''mode'', JsInt 1)]),
     (''Teleop'', SetControl [(''mode'', JsInt 2)]),
     (''Test'', SetControl [(''mode'', JsInt 3)]),
     (''E-Stop'', SetControl [(''estop'', JsBool True)]),
     (''Clear E-Stop'', SetControl [(''estop'', JsBool False)])]"

text \<open>The script text of a call, as the page's buttons have it.\<close>

fun js_arguments :: "(string \<times> js_value) list \<Rightarrow> string" where
  "js_arguments [] = []"
| "js_arguments [(k, v)] = k @ '': '' @ js_text v"
| "js_arguments ((k, v) # kvs) = k @ '': '' @ js_text v @ '', '' @ js_arguments kvs"

fun js_source :: "js_call \<Rightarrow> string" where
  "js_source (PostMatch action) = ''postMatch('' @ [CHR 0x27] @ action @ [CHR 0x27] @ '')''"
| "js_source (SetControl v) = ''setControl({'' @ js_arguments v @ ''})''"

lemma page_has_buttons:
  "html_buttons page_lines = map (\<lambda>(label, call). (label, js_source call)) page_buttons"
  by code_simp

lemma page_fetches_routes:
  "html_fetches page_lines =
    [''/api/state'', fst (snd (fetch_request (SetControl v))), fst (snd (fetch_request (PostMatch a)))]"
proof -
  have "html_fetches page_lines = [''/api/state'', ''/api/control'', ''/api/match'']" by code_simp
  then show ?thesis by simp
qed

definition press ::
  "int \<Rightarrow> int \<Rightarrow> js_call \<Rightarrow> web_world \<Rightarrow> http_response option \<times> web_world" where
  "press start_time now call = serve start_time now (fetch_request call)"

text \<open>A button that posts one control field writes exactly that field.\<close>

lemma one_field:
  assumes "clean v" "k \<in> set control_keys"
  shows "handle_set_control (form_encode [(k, v)]) s =
    (if v = [] then s
     else if k = ''enabled'' then set_enabled (truthy v) s
     else if k = ''estop'' then set_e_stop (truthy v) s
     else let i = from_chars_int v 0 in
       if k = ''mode'' then set_mode (robot_mode_of_int (if 0 \<le> i \<and> i \<le> 3 then i else 0)) s
       else set_alliance (word_of_int (clamp_alliance i)) s)"
proof -
  have form: "control_form [(k, v)]" using assms by (simp add: control_form_def)
  have "extract_field (form_encode [(k, v)]) key = (if key = k then v else [])"
    if "key \<in> set control_keys" for key
    using extract_control [OF form that] by simp
  then have x: "extract_field (k @ ''='' @ v) key = (if key = k then v else [])"
    if "key \<in> set control_keys" for key
    using that by simp
  have keys: "''enabled'' \<in> set control_keys" "''estop'' \<in> set control_keys"
    "''mode'' \<in> set control_keys" "''alliance'' \<in> set control_keys"
    by (simp_all add: control_keys_def)
  from assms(2) consider "k = ''enabled''" | "k = ''estop''" | "k = ''mode''" | "k = ''alliance''"
    by (auto simp: control_keys_def)
  then show ?thesis
    using x [OF keys(1)] x [OF keys(2)] x [OF keys(3)] x [OF keys(4)]
    by cases (simp_all add: handle_set_control_def Let_def)
qed

lemma press_control:
  "snd (press t0 now (SetControl [(k, v)]) w) =
     on_state (handle_set_control (form_encode [(k, js_text v)])) w"
  by (simp add: press_def serve_def url_params_def)

lemma press_match:
  "snd (press t0 now (PostMatch a) w) = on_match (handle_match (form_encode [(''action'', a)]) now) w"
  by (simp add: press_def serve_def url_params_def)

lemma button_texts:
  "from_chars_int (int_string 1) 0 = 1" "from_chars_int (int_string 2) 0 = 2"
  "from_chars_int (int_string 3) 0 = 3" "clean (int_string 1)" "clean (int_string 2)"
  "clean (int_string 3)" "int_string 1 \<noteq> []" "int_string 2 \<noteq> []" "int_string 3 \<noteq> []"
  by code_simp+

section \<open>JSON\<close>

text \<open>
  The grammar of the replies: an object of named values, strings without quotes, backslashes or
  control characters, and numbers kept as their text.
\<close>

datatype json = JBool bool | JNum string | JStr string | JObj "(string \<times> json) list"

definition json_digits :: "string \<Rightarrow> bool" where
  "json_digits s \<longleftrightarrow> s \<noteq> [] \<and> list_all is_digit s"

definition json_int :: "string \<Rightarrow> bool" where
  "json_int s \<longleftrightarrow> json_digits s \<and> (tl s \<noteq> [] \<longrightarrow> hd s \<noteq> CHR ''0'')"

inductive json_number :: "string \<Rightarrow> bool" where
  whole: "json_int i \<Longrightarrow> json_number i"
| fraction: "json_int i \<Longrightarrow> json_digits f \<Longrightarrow> json_number (i @ ''.'' @ f)"
| minus: "json_int (takeWhile is_digit s) \<Longrightarrow> json_number s \<Longrightarrow> json_number (CHR ''-'' # s)"

definition json_plain :: "string \<Rightarrow> bool" where
  "json_plain s \<longleftrightarrow> list_all (\<lambda>c. c \<noteq> CHR 0x22 \<and> c \<noteq> CHR 0x5C \<and> 32 \<le> (of_char c :: nat)) s"

inductive json_text :: "json \<Rightarrow> string \<Rightarrow> bool"
  and json_members :: "(string \<times> json) list \<Rightarrow> string \<Rightarrow> bool" where
  bool: "json_text (JBool b) (bool_name b)"
| num: "json_number s \<Longrightarrow> json_text (JNum s) s"
| str: "json_plain s \<Longrightarrow> json_text (JStr s) ([CHR 0x22] @ s @ [CHR 0x22])"
| obj: "json_members ms s \<Longrightarrow> json_text (JObj ms) (''{'' @ s @ ''}'')"
| one: "json_plain k \<Longrightarrow> json_text v s \<Longrightarrow> json_members [(k, v)] ([CHR 0x22] @ k @ [CHR 0x22] @ '':'' @ s)"
| more: "json_plain k \<Longrightarrow> json_text v s \<Longrightarrow> json_members ms s' \<Longrightarrow>
    json_members ((k, v) # ms) ([CHR 0x22] @ k @ [CHR 0x22] @ '':'' @ s @ '','' @ s')"

lemma decimal_no_leading_zero: "0 < n \<Longrightarrow> hd (decimal n) \<noteq> CHR ''0''"
proof (induction n rule: decimal.induct)
  case (1 n)
  show ?case
  proof (cases "n < 10")
    case True
    have "digit_value (digit_char n) = n" using True by simp
    moreover have "digit_value CHR ''0'' = 0" by code_simp
    ultimately have "digit_char n \<noteq> CHR ''0''" using 1(2) by auto
    with True show ?thesis by (subst decimal.simps) simp
  next
    case False
    with 1 have "hd (decimal (n div 10)) \<noteq> CHR ''0''" by simp
    with False show ?thesis by (subst decimal.simps) simp
  qed
qed

lemma decimal_json_int: "json_int (decimal n)"
proof (cases "n = 0")
  case True
  then show ?thesis by (simp add: json_int_def json_digits_def decimal.simps digit_char_def is_digit_def)
next
  case False
  with decimal_no_leading_zero decimal_digits show ?thesis by (simp add: json_int_def json_digits_def)
qed

lemma takeWhile_decimal:
  "takeWhile is_digit (decimal n) = decimal n" "takeWhile is_digit (decimal n @ ''.'' @ f) = decimal n"
  using takeWhile_all [OF decimal_digits, of n] takeWhile_all [OF decimal_digits, of n "[]"]
  by (simp_all add: is_digit_def)

lemma int_string_json: "json_number (int_string k)"
proof -
  have whole: "json_number (decimal n)" for n by (rule json_number.whole [OF decimal_json_int])
  moreover have "json_number (CHR ''-'' # decimal n)" for n
    by (rule json_number.minus [OF _ whole]) (simp only: takeWhile_decimal decimal_json_int)
  ultimately show ?thesis by (simp add: int_string_def)
qed

lemma format_fixed_json:
  assumes "0 < digits"
  shows "json_number (format_fixed digits x)"
proof -
  define k where "k = nat (round_even (\<bar>x\<bar> * 10 ^ digits))"
  define f where "f = replicate (digits - length (decimal (k mod 10 ^ digits))) CHR ''0'' @ decimal (k mod 10 ^ digits)"
  have "json_digits f"
    using decimal_digits by (auto simp: json_digits_def f_def list_all_iff is_digit_def)
  moreover from this have "json_number (decimal (k div 10 ^ digits) @ ''.'' @ f)"
    by (intro json_number.fraction decimal_json_int)
  moreover from this have "json_number (CHR ''-'' # decimal (k div 10 ^ digits) @ ''.'' @ f)"
    by (intro json_number.minus) (simp_all only: takeWhile_decimal decimal_json_int)
  ultimately show ?thesis
    by (simp add: format_fixed_def Let_def flip: k_def f_def)
qed

text \<open>The compact text of a value, and when it is in the grammar.\<close>

fun compact :: "json \<Rightarrow> string" and compact_members :: "(string \<times> json) list \<Rightarrow> string" where
  "compact (JBool b) = bool_name b"
| "compact (JNum s) = s"
| "compact (JStr s) = [CHR 0x22] @ s @ [CHR 0x22]"
| "compact (JObj ms) = ''{'' @ compact_members ms @ ''}''"
| "compact_members [] = []"
| "compact_members ((k, v) # ms) = [CHR 0x22] @ k @ [CHR 0x22] @ '':'' @ compact v
     @ (if ms = [] then [] else '','' @ compact_members ms)"

fun json_ok :: "json \<Rightarrow> bool" and members_ok :: "(string \<times> json) list \<Rightarrow> bool" where
  "json_ok (JBool b) \<longleftrightarrow> True"
| "json_ok (JNum s) \<longleftrightarrow> json_number s"
| "json_ok (JStr s) \<longleftrightarrow> json_plain s"
| "json_ok (JObj ms) \<longleftrightarrow> ms \<noteq> [] \<and> members_ok ms"
| "members_ok [] \<longleftrightarrow> True"
| "members_ok ((k, v) # ms) \<longleftrightarrow> json_plain k \<and> json_ok v \<and> members_ok ms"

lemma compact_json:
  "json_ok j \<Longrightarrow> json_text j (compact j)"
  "ms \<noteq> [] \<Longrightarrow> members_ok ms \<Longrightarrow> json_members ms (compact_members ms)"
proof (induction j and ms rule: compact_compact_members.induct)
  case (6 k v ms)
  then show ?case
    using json_text_json_members.one [of k v "compact v"]
      json_text_json_members.more [of k v "compact v" ms "compact_members ms"]
    by (cases "ms = []") simp_all
qed (use json_text_json_members.intros in simp_all)

lemma phase_names_plain: "json_plain (match_phase_name p)" "json_plain (mode_name m)"
proof -
  have "list_all (\<lambda>p. json_plain (match_phase_name p))
      [Idle, PhaseAuto, AutoTeleopGap, PhaseTeleop, MatchEnded]"
    "list_all (\<lambda>m. json_plain (mode_name m)) [Unknown, Auto, Teleop, Test]"
    by code_simp+
  then show "json_plain (match_phase_name p)" and "json_plain (mode_name m)"
    by (cases p; cases m; simp)+
qed

lemma decimal_json_number: "json_number (decimal n)"
  by (rule json_number.whole [OF decimal_json_int])

lemmas json_values_ok = phase_names_plain decimal_json_number int_string_json format_fixed_json

section \<open>Any requests\<close>

text \<open>What the UI can rely on and must leave so: the ranges of the state and the match schedule.\<close>

definition web_ok :: "MatchDurations \<Rightarrow> web_world \<Rightarrow> bool" where
  "web_ok d w \<longleftrightarrow> 0 \<le> sint (ds_alliance (w_state w)) \<and> sint (ds_alliance (w_state w)) \<le> 3 \<and>
    durations (w_match w) = d \<and> aligned (w_match w)"

lemma on_match_step:
  "on_match (match_step e) w = w\<lparr>w_match := fst (match_step e (w_match w, w_state w)),
     w_state := snd (match_step e (w_match w, w_state w))\<rparr>"
  by (simp add: on_match_def case_prod_beta)

lemma handle_match_is_step:
  "handle_match body now = id \<or> (\<exists>e \<in> {StartMatch now, StopMatch, SkipToTeleop now}. handle_match body now = match_step e)"
proof (cases "find_sub ''action='' body")
  case None
  then have "handle_match body now = id" by (simp add: handle_match_def fun_eq_iff)
  then show ?thesis ..
next
  case (Some pos)
  then have "handle_match body now cs =
      (let v = value_from body (pos + 7) in if v = ''start'' then start_match now cs
       else if v = ''stop'' then stop_match cs
       else if v = ''skip-to-teleop'' then skip_to_teleop now cs else cs)" for cs
    by (simp add: handle_match_def)
  then show ?thesis
    by (cases "value_from body (pos + 7) = ''start''"; cases "value_from body (pos + 7) = ''stop''";
        cases "value_from body (pos + 7) = ''skip-to-teleop''") (auto simp: fun_eq_iff Let_def)
qed

lemma match_ops_keep_alliance:
  "e \<in> {StartMatch now, StopMatch, SkipToTeleop now} \<Longrightarrow>
     ds_alliance (snd (match_step e (c, s))) = ds_alliance s"
  by (auto simp: match_op_defs Let_def)

lemma web_ok_serve:
  assumes "web_ok d w"
  shows "web_ok d (snd (serve t0 now req w))"
proof -
  obtain meth path body where req: "req = (meth, path, body)" by (cases req)
  have control: "web_ok d (on_state (handle_set_control body) w)"
    using assms clamped_alliance_range
    by (simp add: web_ok_def on_state_def handle_set_control_fields)
  have "web_ok d (on_match (handle_match body now) w)"
    using handle_match_is_step [of body now]
  proof
    assume "handle_match body now = id"
    with assms show ?thesis by (simp add: web_ok_def on_match_def)
  next
    assume "\<exists>e \<in> {StartMatch now, StopMatch, SkipToTeleop now}. handle_match body now = match_step e"
    then obtain e where e: "e \<in> {StartMatch now, StopMatch, SkipToTeleop now}"
      "handle_match body now = match_step e" by blast
    from match_step_aligned [of "(w_match w, w_state w)" e] match_ops_keep_alliance [OF e(1)] assms
    show ?thesis by (simp add: e(2) on_match_step web_ok_def)
  qed
  with control assms show ?thesis
    by (simp add: req serve_def case_prod_beta Let_def web_ok_def)
qed

interpretation web: event_machine "web_ok d" "\<lambda>(now, req) w. snd (serve t0 now req w)" "web_ok d"
  for d t0
  by unfold_locales (auto intro: web_ok_serve)

text \<open>What \<open>GET /api/state\<close> should say, as a JSON value, with the tracker's figures as read.\<close>

definition state_reply ::
  "int \<Rightarrow> int \<Rightarrow> DaemonState \<Rightarrow> MatchController \<Rightarrow> ChannelGlue list \<Rightarrow> rat \<Rightarrow> rat \<Rightarrow> nat \<Rightarrow> json" where
  "state_reply now t0 st mc gs p50 p99 samples =
    (let seconds = (\<lambda>ms. JNum (format_fixed 1 (double_div (double_of_int ms) 1000))) in
     JObj
      [(''control'', JObj
          [(''enabled'', JBool (ds_enabled st)), (''mode'', JStr (mode_name (ds_mode st))),
           (''alliance'', JNum (int_string (sint (ds_alliance st)))), (''estop'', JBool (ds_e_stop st))]),
       (''match'', JObj
          [(''phase'', JStr (match_phase_name (phase mc))),
           (''total_elapsed_s'', seconds (total_elapsed (match_snapshot now mc))),
           (''remaining_s'', seconds (remaining_in_phase (match_snapshot now mc)))]),
       (''smartio'', JObj
          [(''channels_configured'', JNum (decimal (channels_configured gs))),
           (''channel_count'', JNum (decimal (length gs)))]),
       (''cadence'', JObj
          [(''p50_ms'', JNum (format_fixed 3 p50)), (''p99_ms'', JNum (format_fixed 3 p99)),
           (''samples'', JNum (decimal samples))]),
       (''uptime_s'', JNum (format_fixed 3 (seconds_double (now - t0))))])"

lemma state_reply_ok: "json_ok (state_reply now t0 st mc gs p50 p99 n)"
  by (simp add: state_reply_def Let_def json_values_ok phase_names_plain [unfolded json_plain_def] json_plain_def)

lemma handle_state_compact:
  assumes "p50_ms t = (p50, t1)" "p99_ms t1 = (p99, t2)"
  shows "fst (handle_state now t0 st mc gs t) = compact (state_reply now t0 st mc gs p50 p99 (sample_count t2))"
  using assms
  by (simp add: state_reply_def handle_state_def snapshot_control_def match_snapshot_def channel_count_def Let_def)

text \<open>The rows \<open>refresh\<close> writes: label, path into the reply, and how the value is used.\<close>

datatype js_use = As_text | As_number | As_bool

definition page_rows :: "(string \<times> string list \<times> js_use) list" where
  "page_rows =
    [(''match phase'', [''match'', ''phase''], As_text),
     (''match elapsed'', [''match'', ''total_elapsed_s''], As_number),
     (''phase remaining'', [''match'', ''remaining_s''], As_number),
     (''enabled'', [''control'', ''enabled''], As_bool),
     (''mode'', [''control'', ''mode''], As_text),
     (''alliance'', [''control'', ''alliance''], As_number),
     (''e-stop'', [''control'', ''estop''], As_bool),
     (''smartio configured'', [''smartio'', ''channels_configured''], As_number),
     (''smartio configured'', [''smartio'', ''channel_count''], As_number),
     (''controldata p50'', [''cadence'', ''p50_ms''], As_number),
     (''controldata p99'', [''cadence'', ''p99_ms''], As_number),
     (''cadence samples'', [''cadence'', ''samples''], As_number),
     (''uptime'', [''uptime_s''], As_number)]"

lemma page_has_rows: "html_rows page_lines = map (\<lambda>(label, path, use). (label, path)) page_rows"
  by code_simp

fun json_at :: "string list \<Rightarrow> json \<Rightarrow> json option" where
  "json_at [] v = Some v"
| "json_at (k # ks) (JObj ms) = (case map_of ms k of None \<Rightarrow> None | Some v \<Rightarrow> json_at ks v)"
| "json_at (k # ks) _ = None"

fun usable_as :: "js_use \<Rightarrow> json option \<Rightarrow> bool" where
  "usable_as As_text (Some (JStr s)) \<longleftrightarrow> True"
| "usable_as As_number (Some (JNum s)) \<longleftrightarrow> True"
| "usable_as As_bool (Some (JBool b)) \<longleftrightarrow> True"
| "usable_as _ _ \<longleftrightarrow> False"

section \<open>Properties\<close>

text \<open>
  C27 (functional): every button of the page does what its label says, and nothing else,
  from the script text in the page through the form encoding, the route and the handler: the
  match buttons call their operation at the instant of the request, each other button writes one
  field of the shared state. The page's text has these buttons and no others.
\<close>

theorem buttons_do_what_they_say:
  "html_buttons page_lines = map (\<lambda>(label, call). (label, js_source call)) page_buttons \<and>
   map (\<lambda>(label, call). (label, snd (press t0 now call w))) page_buttons =
    [(''Start Match'', on_match (start_match now) w),
     (''Stop Match'', on_match stop_match w),
     (''Skip to Teleop'', on_match (skip_to_teleop now) w),
     (''Enable'', on_state (set_enabled True) w),
     (''Disable'', on_state (set_enabled False) w),
     (''Auto'', on_state (set_mode Auto) w),
     (''Teleop'', on_state (set_mode Teleop) w),
     (''Test'', on_state (set_mode Test) w),
     (''E-Stop'', on_state (set_e_stop True) w),
     (''Clear E-Stop'', on_state (set_e_stop False) w)]"
proof -
  have keys: "''enabled'' \<in> set control_keys" "''estop'' \<in> set control_keys" "''mode'' \<in> set control_keys"
    by (simp_all add: control_keys_def)
  have clean: "clean ''true''" "clean ''false''" "clean ''start''" "clean ''stop''" "clean ''skip-to-teleop''"
    by (simp_all add: clean_def)
  have "snd (press t0 now (SetControl [(''enabled'', JsBool b)]) w) = on_state (set_enabled b) w"
    "snd (press t0 now (SetControl [(''estop'', JsBool b)]) w) = on_state (set_e_stop b) w" for b
    using one_field [OF clean(1) keys(1)] one_field [OF clean(2) keys(1)]
      one_field [OF clean(1) keys(2)] one_field [OF clean(2) keys(2)]
    by (cases b; simp add: press_control bool_name_def truthy_def on_state_def)+
  moreover have "snd (press t0 now (SetControl [(''mode'', JsInt i)]) w) = on_state (set_mode m) w"
    if "(i, m) \<in> {(1, Auto), (2, Teleop), (3, Test)}" for i m
    using that button_texts one_field [OF button_texts(4) keys(3)] one_field [OF button_texts(5) keys(3)]
      one_field [OF button_texts(6) keys(3)]
    by (auto simp: press_control on_state_def robot_mode_of_int_def)
  moreover have "snd (press t0 now (PostMatch ''start'') w) = on_match (start_match now) w"
    "snd (press t0 now (PostMatch ''stop'') w) = on_match stop_match w"
    "snd (press t0 now (PostMatch ''skip-to-teleop'') w) = on_match (skip_to_teleop now) w"
    using match_verb [OF clean(3)] match_verb [OF clean(4)] match_verb [OF clean(5)]
    by (simp_all add: press_match on_match_def)
  ultimately show ?thesis by (simp add: page_has_buttons) (simp add: page_buttons_def)
qed

text \<open>
  C34 (type): the reply to \<open>GET /api/state\<close> is the JSON text of one value of fixed shape, whatever
  the state, with every number well-formed; and every row in the page's text finds its value in
  it, with the type it uses it as.
\<close>

theorem state_reply_is_json:
  "html_rows page_lines = map (\<lambda>(label, path, use). (label, path)) page_rows \<and>
   (case p50_ms t of (p50, t1) \<Rightarrow> case p99_ms t1 of (p99, t2) \<Rightarrow>
    let reply = state_reply now t0 st mc gs p50 p99 (sample_count t2) in
      json_text reply (fst (handle_state now t0 st mc gs t)) \<and>
      list_all (\<lambda>(label, path, use). usable_as use (json_at path reply)) page_rows)"
proof -
  obtain p50 t1 where 1: "p50_ms t = (p50, t1)" by (cases "p50_ms t")
  obtain p99 t2 where 2: "p99_ms t1 = (p99, t2)" by (cases "p99_ms t1")
  let ?J = "state_reply now t0 st mc gs p50 p99 (sample_count t2)"
  have "list_all (\<lambda>(label, path, use). usable_as use (json_at path ?J)) page_rows"
    by (simp add: page_rows_def state_reply_def Let_def)
  with compact_json(1) [OF state_reply_ok] handle_state_compact [OF 1 2] page_has_rows show ?thesis
    unfolding 1 2 prod.case Let_def by (simp only:)
qed

text \<open>
  C31 (invariant): whatever requests arrive, with any method, path and bytes, at any instants,
  the alliance stays a number from 0 to 3, the phase lengths stay as configured and the phase
  on its schedule; and a GET changes nothing but the cadence cache.
\<close>

theorem requests_keep_ranges:
  assumes "0 \<le> sint (ds_alliance (w_state w))" "sint (ds_alliance (w_state w)) \<le> 3"
    and "aligned (w_match w)"
  shows "let w' = fold (\<lambda>(now, req) w. snd (serve t0 now req w)) reqs w in
    0 \<le> sint (ds_alliance (w_state w')) \<and> sint (ds_alliance (w_state w')) \<le> 3 \<and>
    durations (w_match w') = durations (w_match w) \<and> aligned (w_match w') \<and>
    (snd (serve t0 now (GET, path, body) w'))\<lparr>w_cadence := w_cadence w'\<rparr> = w'"
proof -
  let ?w = "fold (\<lambda>(now, req) w. snd (serve t0 now req w)) reqs w"
  have "web_ok (durations (w_match w)) w" using assms by (simp add: web_ok_def)
  then have "web_ok (durations (w_match w)) ?w" by (rule web.inv_run)
  moreover have "(snd (serve t0 now (GET, path, body) ?w))\<lparr>w_cadence := w_cadence ?w\<rparr> = ?w"
    by (simp add: serve_def case_prod_beta Let_def)
  ultimately show ?thesis by (simp add: web_ok_def Let_def)
qed

lemma requests_keep_ranges_witness:
  "sint (ds_alliance (w_state (fold (\<lambda>(now, req) w. snd (serve 0 now req w))
     [(5, (POST, ''/api/control'', ''alliance=9''))]
     \<lparr>w_state = initial_daemon_state, w_match = new_match_controller default_durations,
      w_cadence = new_cadence_tracker, w_channels = []\<rparr>))) \<le> 3"
proof -
  let ?w = "\<lparr>w_state = initial_daemon_state, w_match = new_match_controller default_durations,
      w_cadence = new_cadence_tracker, w_channels = []\<rparr>"
  have "0 \<le> sint (ds_alliance (w_state ?w))" "sint (ds_alliance (w_state ?w)) \<le> 3" "aligned (w_match ?w)"
    by (simp_all add: initial_daemon_state_def new_match_controller_def aligned_def)
  from requests_keep_ranges [OF this, of 0 "[(5, (POST, ''/api/control'', ''alliance=9''))]"]
  show ?thesis by (simp only: Let_def)
qed

end
