(* ===== verification/Web_Page.thy ===== *)
theory Web_Page
  imports Web_Server
begin

text \<open>
  The page of web_ui.cpp at work in a browser: \<open>refresh\<close> fetches the state once a second, parses the
  reply and writes the rows. Of JavaScript the page uses \<open>JSON.parse\<close>, member access, template
  literals, comparison of numbers and \<open>toFixed\<close>.
\<close>

section \<open>Numbers\<close>

text \<open>The exact value of a JSON number without exponent, and the double it is read as.\<close>

definition number_value :: "string \<Rightarrow> rat option" where
  "number_value s =
    (let neg = (s \<noteq> [] \<and> hd s = CHR ''-''); u = (if neg then tl s else s);
         w = takeWhile is_digit u; r = dropWhile is_digit u; sign = (if neg then - 1 else 1)
     in if w = [] then None
        else if r = [] then Some (sign * of_nat (digits_value w))
        else if hd r = CHR ''.'' \<and> tl r \<noteq> [] \<and> list_all is_digit (tl r)
        then Some (sign * (of_nat (digits_value (w @ tl r)) / 10 ^ length (tl r)))
        else None)"

definition js_number :: "string \<Rightarrow> rat option" where
  "js_number s = map_option fl (number_value s)"

text \<open>A whole number of tenths, hundredths and so on, written with \<open>d\<close> decimals (\<open>d\<close> positive).\<close>

definition fixed_text :: "nat \<Rightarrow> nat \<Rightarrow> string" where
  "fixed_text d k =
    decimal (k div 10 ^ d) @ ''.'' @ replicate (d - length (decimal (k mod 10 ^ d))) CHR ''0'' @ decimal (k mod 10 ^ d)"

text \<open>
  \<open>x.toFixed(d)\<close> of a number below \<open>10^21\<close>: the nearest decimal to its exact value, the larger of
  two.
\<close>

definition to_fixed :: "nat \<Rightarrow> rat \<Rightarrow> string" where
  "to_fixed d x = (if x < 0 then ''-'' else []) @ fixed_text d (nat \<lfloor>\<bar>x\<bar> * 10 ^ d + 1/2\<rfloor>)"

lemma format_fixed_text:
  "format_fixed d x = (if x < 0 then ''-'' else []) @ fixed_text d (nat (round_even (\<bar>x\<bar> * 10 ^ d)))"
  by (simp add: format_fixed_def fixed_text_def Let_def)

lemma digits_value_append: "digits_value (a @ b) = digits_value a * 10 ^ length b + digits_value b"
  by (induction b rule: rev_induct) (simp_all add: algebra_simps flip: append_assoc)

lemma digits_value_zeros [simp]: "digits_value (replicate n CHR ''0'') = 0"
proof (induction n)
  case (Suc n)
  have "digit_value CHR ''0'' = 0" by code_simp
  with Suc digits_value_append [of "[CHR ''0'']" "replicate n CHR ''0''"] show ?case by simp
qed simp

lemma decimal_length: "0 < d \<Longrightarrow> n < 10 ^ d \<Longrightarrow> length (decimal n) \<le> d"
proof (induction n arbitrary: d rule: decimal.induct)
  case (1 n)
  show ?case
  proof (cases "n < 10")
    case True
    with 1 show ?thesis by (subst decimal.simps) simp
  next
    case False
    from 1(3) False obtain e where d: "d = Suc e" "0 < e" by (cases d; cases "d - 1") auto
    with 1(3) have "n div 10 < 10 ^ e" by (simp add: div_less_iff_less_mult mult.commute)
    with 1(1) False d show ?thesis by (subst decimal.simps) simp
  qed
qed

lemma zero_digit [simp]: "is_digit CHR ''0''" "\<not> is_digit CHR ''.''"
  by (simp_all add: is_digit_def)

lemma takeWhile_digits_dot:
  "takeWhile is_digit (decimal n @ CHR ''.'' # f) = decimal n" "dropWhile is_digit (decimal n @ CHR ''.'' # f) = CHR ''.'' # f"
  using takeWhile_all [OF decimal_digits, of n "CHR ''.'' # f"]
  by (simp_all add: dropWhile_append3 dropWhile_eq_drop)

lemma decimal_no_sign [simp]: "hd (decimal n) \<noteq> CHR ''-''"
  using decimal_hd_digit [of n] by (metis minus_not_digit)

lemma number_value_fixed:
  assumes "0 < d"
  shows "number_value (fixed_text d k) = Some (of_nat k / 10 ^ d)"
    and "number_value (CHR ''-'' # fixed_text d k) = Some (- (of_nat k / 10 ^ d))"
proof -
  define f where "f = replicate (d - length (decimal (k mod 10 ^ d))) CHR ''0'' @ decimal (k mod 10 ^ d)"
  have f: "list_all is_digit f" "f \<noteq> []" using decimal_digits by (auto simp: f_def list_all_iff)
  have l: "length f = d" using decimal_length [OF assms, of "k mod 10 ^ d"] by (simp add: f_def)
  have "digits_value f = k mod 10 ^ d" by (simp add: f_def digits_value_append)
  with l have v: "digits_value (decimal (k div 10 ^ d) @ f) = k"
    by (simp only: digits_value_append decimal_value div_mult_mod_eq)
  have t: "fixed_text d k = decimal (k div 10 ^ d) @ CHR ''.'' # f" by (simp add: fixed_text_def f_def)
  show "number_value (fixed_text d k) = Some (of_nat k / 10 ^ d)"
    and "number_value (CHR ''-'' # fixed_text d k) = Some (- (of_nat k / 10 ^ d))"
    using f v l unfolding t by (simp_all add: number_value_def takeWhile_digits_dot hd_append Let_def)
qed

lemma dropWhile_decimal: "dropWhile is_digit (decimal n) = []"
  using decimal_digits [of n] by (simp add: list_all_iff)

lemma number_value_decimal: "number_value (decimal n) = Some (of_nat n)"
  "number_value (CHR ''-'' # decimal n) = Some (- of_nat n)"
  by (simp_all add: number_value_def Let_def takeWhile_decimal(1) dropWhile_decimal)

lemma number_value_int: "number_value (int_string k) = Some (of_int k)"
  by (simp add: int_string_def number_value_decimal)

lemma number_value_format:
  assumes "0 < d"
  shows "number_value (format_fixed d x) =
    Some ((if x < 0 then - 1 else 1) * (of_nat (nat (round_even (\<bar>x\<bar> * 10 ^ d))) / 10 ^ d))"
  using number_value_fixed [OF assms] by (simp add: format_fixed_text)

section \<open>Parsing a reply\<close>

text \<open>Numbers as JSON has them, in computable form.\<close>

definition json_number_text :: "string \<Rightarrow> bool" where
  "json_number_text s =
    (let u = (if s \<noteq> [] \<and> hd s = CHR ''-'' then tl s else s); i = takeWhile is_digit u
     in json_int i \<and> number_value s \<noteq> None)"

text \<open>
  \<open>JSON.parse\<close> on the compact texts the daemon sends: objects with members, strings without
  escapes, numbers without exponent, true and false, no white space. Nested calls consume text,
  so the length of the text is enough fuel. Other texts are outside the model.
\<close>

definition plain_prefix :: "string \<Rightarrow> (string \<times> string) option" where
  "plain_prefix s = (let t = takeWhile (\<lambda>c. c \<noteq> CHR 0x22) s; r = dropWhile (\<lambda>c. c \<noteq> CHR 0x22) s
     in if r \<noteq> [] \<and> json_plain t then Some (t, tl r) else None)"

definition number_chars :: "char \<Rightarrow> bool" where
  "number_chars c \<longleftrightarrow> is_digit c \<or> c = CHR ''-'' \<or> c = CHR ''.''"

fun parse_value :: "nat \<Rightarrow> string \<Rightarrow> (json \<times> string) option"
  and parse_members :: "nat \<Rightarrow> string \<Rightarrow> ((string \<times> json) list \<times> string) option" where
  "parse_value 0 s = None"
| "parse_value (Suc n) s =
    (if s = [] then None
     else if hd s = CHR ''{'' then map_option (\<lambda>(ms, r). (JObj ms, r)) (parse_members n (tl s))
     else if hd s = CHR 0x22 then map_option (\<lambda>(t, r). (JStr t, r)) (plain_prefix (tl s))
     else if prefix ''true'' s then Some (JBool True, drop 4 s)
     else if prefix ''false'' s then Some (JBool False, drop 5 s)
     else let t = takeWhile number_chars s in
       if json_number_text t then Some (JNum t, drop (length t) s) else None)"
| "parse_members 0 s = None"
| "parse_members (Suc n) s =
    (if s = [] \<or> hd s \<noteq> CHR 0x22 then None
     else case plain_prefix (tl s) of None \<Rightarrow> None | Some (k, r) \<Rightarrow>
       if r = [] \<or> hd r \<noteq> CHR '':'' then None
       else case parse_value n (tl r) of None \<Rightarrow> None | Some (v, r) \<Rightarrow>
         if r = [] then None
         else if hd r = CHR ''}'' then Some ([(k, v)], tl r)
         else if hd r = CHR '','' then map_option (\<lambda>(ms, r). ((k, v) # ms, r)) (parse_members n (tl r))
         else None)"

definition json_parse :: "string \<Rightarrow> json option" where
  "json_parse s = (case parse_value (length s) s of Some (v, []) \<Rightarrow> Some v | _ \<Rightarrow> None)"

text \<open>It reads back what the daemon's values are written as.\<close>

fun nodes :: "json \<Rightarrow> nat" and member_nodes :: "(string \<times> json) list \<Rightarrow> nat" where
  "nodes (JObj ms) = Suc (member_nodes ms)"
| "nodes _ = 1"
| "member_nodes [] = 0"
| "member_nodes ((k, v) # ms) = Suc (max (nodes v) (member_nodes ms))"

lemma json_number_chars: "json_number s \<Longrightarrow> s \<noteq> [] \<and> list_all number_chars s"
  by (induction rule: json_number.induct)
    (auto simp: json_int_def json_digits_def number_chars_def list_all_iff)

lemma json_number_hd: "json_number s \<Longrightarrow> is_digit (hd s) \<or> hd s = CHR ''-''"
  by (induction rule: json_number.induct)
    (auto simp: json_int_def json_digits_def hd_append list_all_iff)

lemma digits_then_dot:
  assumes "list_all is_digit i"
  shows "takeWhile is_digit (i @ CHR ''.'' # f) = i" "dropWhile is_digit (i @ CHR ''.'' # f) = CHR ''.'' # f"
    "takeWhile is_digit i = i" "dropWhile is_digit i = []"
  using assms by (induction i) auto

lemma json_int_sign: "json_int i \<Longrightarrow> hd i \<noteq> CHR ''-''"
  by (cases i) (auto simp: json_int_def json_digits_def)

lemma json_int_digits: "json_int i \<Longrightarrow> list_all is_digit i \<and> i \<noteq> []"
  by (simp add: json_int_def json_digits_def)

lemma json_number_is_text: "json_number s \<Longrightarrow> json_number_text s"
proof (induction rule: json_number.induct)
  case (whole i)
  with json_int_digits [of i] json_int_sign [of i] show ?case
    by (simp add: json_number_text_def number_value_def Let_def digits_then_dot(3,4))
next
  case (fraction i f)
  with digits_then_dot(1,2) [of i f] json_int_digits [of i] json_int_sign [of i] show ?case
    by (simp add: json_number_text_def number_value_def Let_def hd_append json_digits_def)
next
  case (minus s)
  then have "s \<noteq> []" "hd s \<noteq> CHR ''-''" by (cases s; auto simp: json_int_def json_digits_def)+
  with minus show ?case
    by (simp add: json_number_text_def number_value_def Let_def split: if_splits)
qed

lemma number_text_scan:
  assumes "json_number s" "rest = [] \<or> \<not> number_chars (hd rest)"
  shows "takeWhile number_chars (s @ rest) = s"
proof -
  have "takeWhile number_chars rest = []" using assms(2) by (cases rest) auto
  with json_number_chars [OF assms(1)] show ?thesis by (simp add: takeWhile_all)
qed

lemma plain_scan: "json_plain s \<Longrightarrow> plain_prefix (s @ CHR 0x22 # r) = Some (s, r)"
proof -
  assume s: "json_plain s"
  then have "takeWhile (\<lambda>c. c \<noteq> CHR 0x22) (s @ CHR 0x22 # r) = s"
    "dropWhile (\<lambda>c. c \<noteq> CHR 0x22) (s @ CHR 0x22 # r) = CHR 0x22 # r"
    by (induction s) (simp_all add: json_plain_def)
  with s show ?thesis by (simp add: plain_prefix_def)
qed

lemma number_not_other:
  "json_number s \<Longrightarrow> s \<noteq> [] \<and> hd s \<noteq> CHR ''{'' \<and> hd s \<noteq> CHR 0x22 \<and> hd s \<noteq> CHR ''t'' \<and> hd s \<noteq> CHR ''f''"
  using json_number_hd [of s] json_number_chars [of s] by (auto simp: is_digit_def)

lemma parse_compact:
  "json_ok j \<Longrightarrow> nodes j \<le> n \<Longrightarrow> rest = [] \<or> \<not> number_chars (hd rest) \<Longrightarrow>
     parse_value n (compact j @ rest) = Some (j, rest)"
  "ms \<noteq> [] \<Longrightarrow> members_ok ms \<Longrightarrow> member_nodes ms \<le> n \<Longrightarrow>
     parse_members n (compact_members ms @ CHR ''}'' # rest) = Some (ms, rest)"
proof (induction j and ms arbitrary: n rest and n rest rule: compact_compact_members.induct)
  case (1 b)
  then obtain m where "n = Suc m" by (cases n) auto
  then show ?case by (cases b) (simp_all add: bool_name_def)
next
  case (2 s)
  then obtain m where n: "n = Suc m" by (cases n) auto
  from 2 have s: "json_number s" by simp
  from number_not_other [OF s] have "\<not> prefix ''true'' (s @ rest)" "\<not> prefix ''false'' (s @ rest)"
    by (cases s; auto)+
  with number_not_other [OF s] number_text_scan [OF s 2(3)] json_number_is_text [OF s] show ?case
    by (simp add: n)
next
  case (3 s)
  then obtain m where "n = Suc m" by (cases n) auto
  with 3 show ?case by (simp add: plain_scan)
next
  case (4 ms)
  then obtain m where n: "n = Suc m" by (cases n) auto
  with 4 have "parse_members m (compact_members ms @ CHR ''}'' # rest) = Some (ms, rest)" by simp
  then show ?case by (simp add: n)
next
  case 5
  then show ?case by simp
next
  case (6 k v ms)
  then obtain m where n: "n = Suc m" by (cases n) auto
  from 6(4) have k: "json_plain k" and v: "json_ok v" and ms: "members_ok ms" by simp_all
  from 6(5) n have m: "nodes v \<le> m" "member_nodes ms \<le> m" by simp_all
  have sep: "\<not> number_chars CHR '',''" "\<not> number_chars CHR ''}''" by (simp_all add: number_chars_def is_digit_def)
  show ?case
  proof (cases "ms = []")
    case True
    with 6(1) [OF v m(1), of "CHR ''}'' # rest"] sep show ?thesis
      by (simp add: n plain_scan [OF k])
  next
    case False
    with 6(1) [OF v m(1), of "CHR '','' # compact_members ms @ CHR ''}'' # rest"]
      6(2) [OF False False ms m(2)] sep show ?thesis
      by (simp add: n plain_scan [OF k])
  qed
qed

lemma nodes_length:
  "json_ok j \<Longrightarrow> nodes j \<le> length (compact j)"
  "members_ok ms \<Longrightarrow> member_nodes ms \<le> length (compact_members ms)"
proof (induction j and ms rule: compact_compact_members.induct)
  case (1 b)
  then show ?case by (simp add: bool_name_def)
next
  case (2 s)
  with json_number_chars [of s] show ?case by (cases s) auto
qed auto

lemma json_parse_compact: "json_ok j \<Longrightarrow> json_parse (compact j) = Some j"
  using parse_compact(1) [of j "length (compact j)" "[]"] nodes_length(1) [of j] by (simp add: json_parse_def)

section \<open>refresh\<close>

text \<open>The three classes of a value on the page; what \<open>refresh\<close> writes into it.\<close>

datatype css = Class_v | Class_warn | Class_bad

datatype page_content = Disconnected | Rows "(string \<times> css \<times> string) list"

definition cls :: "bool \<Rightarrow> css \<Rightarrow> css" where
  "cls cond badClass = (if cond then badClass else Class_v)"

text \<open>
  Reading a member as the kind of value the page uses it as. \<open>None\<close>: a reply of another shape, on
  which the script throws or writes \<open>undefined\<close>; not modelled.
\<close>

definition text_at :: "string list \<Rightarrow> json \<Rightarrow> string option" where
  "text_at path s = (case json_at path s of Some (JStr t) \<Rightarrow> Some t | _ \<Rightarrow> None)"

definition bool_at :: "string list \<Rightarrow> json \<Rightarrow> bool option" where
  "bool_at path s = (case json_at path s of Some (JBool b) \<Rightarrow> Some b | _ \<Rightarrow> None)"

definition number_at :: "string list \<Rightarrow> json \<Rightarrow> rat option" where
  "number_at path s = (case json_at path s of Some (JNum t) \<Rightarrow> js_number t | _ \<Rightarrow> None)"

text \<open>A number in a template literal, when it is whole (and below \<open>10^21\<close>).\<close>

definition whole_at :: "string list \<Rightarrow> json \<Rightarrow> string option" where
  "whole_at path s = (case number_at path s of
     Some x \<Rightarrow> (if x = of_int \<lfloor>x\<rfloor> then Some (int_string \<lfloor>x\<rfloor>) else None) | None \<Rightarrow> None)"

definition row :: "string \<Rightarrow> ('a \<Rightarrow> css \<times> string) \<Rightarrow> 'a option \<Rightarrow> (string \<times> css \<times> string) option" where
  "row label show_it v = map_option (\<lambda>a. (label, show_it a)) v"

definition refresh_rows :: "json \<Rightarrow> (string \<times> css \<times> string) list option" where
  "refresh_rows s = those
    [row ''match phase'' (\<lambda>v. (Class_v, v)) (text_at [''match'', ''phase''] s),
     row ''match elapsed'' (\<lambda>v. (Class_v, to_fixed 1 v @ '' s'')) (number_at [''match'', ''total_elapsed_s''] s),
     row ''phase remaining'' (\<lambda>v. (Class_v, to_fixed 1 v @ '' s'')) (number_at [''match'', ''remaining_s''] s),
     row ''enabled'' (\<lambda>v. (cls (\<not> v) Class_warn, bool_name v)) (bool_at [''control'', ''enabled''] s),
     row ''mode'' (\<lambda>v. (Class_v, v)) (text_at [''control'', ''mode''] s),
     row ''alliance'' (\<lambda>v. (Class_v, v)) (whole_at [''control'', ''alliance''] s),
     row ''e-stop'' (\<lambda>v. (cls v Class_bad, bool_name v)) (bool_at [''control'', ''estop''] s),
     row ''smartio configured'' (\<lambda>v. (Class_v, v))
       (case (whole_at [''smartio'', ''channels_configured''] s, whole_at [''smartio'', ''channel_count''] s) of
          (Some a, Some b) \<Rightarrow> Some (a @ '' / '' @ b) | _ \<Rightarrow> None),
     row ''controldata p50'' (\<lambda>v. (cls (25 < v) Class_warn, to_fixed 2 v @ '' ms'')) (number_at [''cadence'', ''p50_ms''] s),
     row ''controldata p99'' (\<lambda>v. (cls (25 < v) Class_warn, to_fixed 2 v @ '' ms'')) (number_at [''cadence'', ''p99_ms''] s),
     row ''cadence samples'' (\<lambda>v. (Class_v, v)) (whole_at [''cadence'', ''samples''] s),
     row ''uptime'' (\<lambda>v. (Class_v, to_fixed 1 v @ '' s'')) (number_at [''uptime_s''] s)]"

text \<open>The reply that \<open>fetch\<close> gives, or \<open>None\<close> when it rejects; \<open>r.ok\<close> is a status from 200 to 299.\<close>

definition refresh :: "http_response option \<Rightarrow> page_content option" where
  "refresh reply = (case reply of
     None \<Rightarrow> Some Disconnected
   | Some r \<Rightarrow>
       if \<not> (200 \<le> status r \<and> status r \<le> 299) then Some Disconnected
       else (case json_parse (content r) of None \<Rightarrow> None | Some s \<Rightarrow> map_option Rows (refresh_rows s)))"

section \<open>What survives the trip through text\<close>

lemma fl_whole: "\<bar>k\<bar> \<le> 2 ^ 53 \<Longrightarrow> fl (of_int k) = of_int k"
proof (cases "0 \<le> k")
  case False
  assume "\<bar>k\<bar> \<le> 2 ^ 53"
  with False have "fl (of_int (- k)) = of_int (- k)" by (intro fl_of_int) auto
  moreover have "(of_int k :: rat) < 0" using False by simp
  ultimately show ?thesis by (simp add: fl_def)
qed (auto intro: fl_of_int)

lemma whole_at_int:
  "json_at path s = Some (JNum (int_string k)) \<Longrightarrow> \<bar>k\<bar> \<le> 2 ^ 53 \<Longrightarrow> whole_at path s = Some (int_string k)"
  by (simp add: whole_at_def number_at_def js_number_def number_value_int fl_whole)

lemma decimal_int_string: "decimal n = int_string (int n)"
  by (simp add: int_string_def)

lemma whole_at_decimal:
  "json_at path s = Some (JNum (decimal n)) \<Longrightarrow> n \<le> 2 ^ 53 \<Longrightarrow> whole_at path s = Some (decimal n)"
  unfolding decimal_int_string by (rule whole_at_int) simp_all

text \<open>A number of thousandths (or tenths) as a double.\<close>

definition read_back :: "nat \<Rightarrow> rat \<Rightarrow> rat" where
  "read_back d x = fl ((if x < 0 then - 1 else 1) * (of_nat (nat (round_even (\<bar>x\<bar> * 10 ^ d))) / 10 ^ d))"

lemma number_at_format:
  "json_at path s = Some (JNum (format_fixed d x)) \<Longrightarrow> 0 < d \<Longrightarrow> number_at path s = Some (read_back d x)"
  by (simp add: number_at_def js_number_def number_value_format read_back_def)

lemma to_fixed_tenths:
  assumes "k < 2 ^ 40"
  shows "to_fixed 1 (fl (of_nat k / 10)) = fixed_text 1 k"
proof (cases "k = 0")
  case True
  then show ?thesis by (simp add: to_fixed_def)
next
  case False
  let ?x = "of_nat k / 10 :: rat"
  from False have x: "0 < ?x" by simp
  have "of_nat k < (2 ^ 40 :: rat)" using assms by (metis of_nat_less_iff of_nat_numeral of_nat_power)
  then have "?x < two_pow 40" using two_pow_nat [of 40] by simp
  then have "\<not> 40 \<le> ilog2 ?x" using two_pow_mono [of 40 "ilog2 ?x"] ilog2_bounds(1) [OF x] by linarith
  then have "two_pow (ilog2 ?x - 53) \<le> two_pow (- 13)" by (intro two_pow_mono) simp
  moreover have "two_pow (- 13) = 1 / 8192" using two_pow_neg [of 13] two_pow_nat [of 13] by simp
  ultimately have err: "\<bar>fl ?x - ?x\<bar> \<le> 1 / 8192" using fl_pos_error [OF x] x by (simp add: fl_def)
  then have "\<bar>fl ?x * 10 - of_nat k\<bar> < 1 / 2" by (simp add: abs_le_iff abs_less_iff field_simps)
  then have "fl ?x * 10 - of_nat k < 1 / 2" "of_nat k - fl ?x * 10 < 1 / 2" by linarith+
  then have "\<lfloor>fl ?x * 10 + 1 / 2\<rfloor> = int k" by (intro floor_unique; simp)
  moreover have "0 \<le> fl ?x" using x by (simp add: fl_nonneg)
  ultimately show ?thesis by (simp add: to_fixed_def)
qed

lemma to_fixed_read_back:
  assumes "0 \<le> x" "x * 10 < 2 ^ 39"
  shows "to_fixed 1 (read_back 1 x) = format_fixed 1 x"
proof -
  let ?k = "nat (round_even (x * 10))"
  have "round_even (x * 10) \<le> round_even (of_int (2 ^ 39))" using assms(2) by (intro round_even_mono) simp
  then have "?k < 2 ^ 40" unfolding round_even_of_int by simp
  from to_fixed_tenths [OF this] assms(1) show ?thesis
    by (simp add: read_back_def format_fixed_text)
qed

text \<open>The page warns of a figure above 25 ms as it reads it, to a thousandth.\<close>

lemma read_back_25: "25 < read_back 3 x \<longleftrightarrow> 0 \<le> x \<and> 25000 < round_even (x * 1000)"
proof (cases "0 \<le> x")
  case True
  let ?k = "round_even (x * 1000)"
  have "round_even (of_int 0) \<le> ?k" using True by (intro round_even_mono) simp
  then have k: "0 \<le> ?k" unfolding round_even_of_int .
  have r: "read_back 3 x = fl (of_int ?k / 1000)" using True k by (simp add: read_back_def of_nat_nat)
  have "fl (of_int ?k / 1000) \<le> fl (of_int 25)" if "?k \<le> 25000"
  proof (rule fl_mono)
    from that have "(of_int ?k :: rat) \<le> of_int 25000" by (rule of_int_le_iff [THEN iffD2])
    then show "of_int ?k / 1000 \<le> (of_int 25 :: rat)" by simp
  qed
  moreover have "fl (of_int 25001 / 1000) \<le> fl (of_int ?k / 1000)" if "25000 < ?k"
  proof (rule fl_mono)
    from that have "(of_int 25001 :: rat) \<le> of_int ?k" by (intro of_int_le_iff [THEN iffD2]) simp
    then show "of_int 25001 / 1000 \<le> (of_int ?k / 1000 :: rat)" by simp
  qed
  moreover have "25 < fl (25001 / 1000)" by code_simp
  moreover have "fl 25 = 25" using fl_whole [of 25] by simp
  ultimately show ?thesis using True unfolding r by (cases "?k \<le> 25000") auto
next
  case False
  then have "read_back 3 x \<le> 0" unfolding read_back_def by (intro fl_nonpos) simp
  with False show ?thesis by simp
qed

lemma ms_in_range:
  assumes "0 \<le> m" "m \<le> 2 ^ 40"
  shows "0 \<le> double_div (double_of_int m) 1000" "double_div (double_of_int m) 1000 * 10 < 2 ^ 39"
proof -
  have e: "double_of_int m = of_int m" using assms by (intro double_of_int_exact) auto
  show "0 \<le> double_div (double_of_int m) 1000" using assms(1) by (simp add: e double_div_def fl_nonneg)
  have "double_div (double_of_int m) 1000 \<le> double_div (double_of_int (2 ^ 40)) 1000"
    using assms(2) by (intro double_div_mono double_of_int_mono) simp_all
  moreover have "double_div (double_of_int (2 ^ 40)) 1000 * 10 < 2 ^ 39" by code_simp
  ultimately show "double_div (double_of_int m) 1000 * 10 < 2 ^ 39" by linarith
qed

section \<open>Properties\<close>

text \<open>
  C32 (functional): what the page shows of the daemon. The reply to \<open>GET /api/state\<close>, sent as text,
  parsed and written into the page by \<open>refresh\<close>, gives exactly these rows: the phase and its
  times as the daemon formatted them, each field of the shared state, warned of when disabled or
  stopped, and the two cadence figures, warned of when above 25 ms. (Times up to 34 years.)
\<close>

theorem page_shows_state:
  assumes "match_snapshot now (w_match w) = sn"
    and "0 \<le> total_elapsed sn" "total_elapsed sn \<le> 2 ^ 40"
    and "0 \<le> remaining_in_phase sn" "remaining_in_phase sn \<le> 2 ^ 40"
    and "p50_ms (w_cadence w) = (p50, t1)" "p99_ms t1 = (p99, t2)"
    and "length (w_channels w) \<le> 2 ^ 53" "sample_count t2 \<le> 2 ^ 53"
  shows "refresh (fst (serve t0 now (GET, ''/api/state'', body) w)) = Some (Rows
    [(''match phase'', Class_v, match_phase_name (phase (w_match w))),
     (''match elapsed'', Class_v, format_fixed 1 (double_div (double_of_int (total_elapsed sn)) 1000) @ '' s''),
     (''phase remaining'', Class_v, format_fixed 1 (double_div (double_of_int (remaining_in_phase sn)) 1000) @ '' s''),
     (''enabled'', cls (\<not> ds_enabled (w_state w)) Class_warn, bool_name (ds_enabled (w_state w))),
     (''mode'', Class_v, mode_name (ds_mode (w_state w))),
     (''alliance'', Class_v, int_string (sint (ds_alliance (w_state w)))),
     (''e-stop'', cls (ds_e_stop (w_state w)) Class_bad, bool_name (ds_e_stop (w_state w))),
     (''smartio configured'', Class_v,
        decimal (channels_configured (w_channels w)) @ '' / '' @ decimal (channel_count (w_channels w))),
     (''controldata p50'', cls (0 \<le> p50 \<and> 25000 < round_even (p50 * 1000)) Class_warn,
        to_fixed 2 (read_back 3 p50) @ '' ms''),
     (''controldata p99'', cls (0 \<le> p99 \<and> 25000 < round_even (p99 * 1000)) Class_warn,
        to_fixed 2 (read_back 3 p99) @ '' ms''),
     (''cadence samples'', Class_v, decimal (sample_count t2)),
     (''uptime'', Class_v, to_fixed 1 (read_back 3 (seconds_double (now - t0))) @ '' s'')])"
proof -
  let ?J = "state_reply now t0 (w_state w) (w_match w) (w_channels w) p50 p99 (sample_count t2)"
  let ?r = "fst (serve t0 now (GET, ''/api/state'', body) w)"
  have "?r = Some \<lparr>status = 200, content_type = ''application/json'', content = compact ?J\<rparr>"
    using handle_state_compact [OF assms(6,7), of now t0 "w_state w" "w_match w" "w_channels w"]
    by (simp add: serve_def case_prod_beta Let_def)
  then have "refresh ?r = map_option Rows (refresh_rows ?J)"
    using json_parse_compact [OF state_reply_ok] by (simp add: refresh_def)
  moreover have texts: "text_at [''match'', ''phase''] ?J = Some (match_phase_name (phase (w_match w)))"
    "text_at [''control'', ''mode''] ?J = Some (mode_name (ds_mode (w_state w)))"
    "bool_at [''control'', ''enabled''] ?J = Some (ds_enabled (w_state w))"
    "bool_at [''control'', ''estop''] ?J = Some (ds_e_stop (w_state w))"
    by (simp_all add: text_at_def bool_at_def state_reply_def Let_def)
  moreover have numbers:
    "number_at [''match'', ''total_elapsed_s''] ?J = Some (read_back 1 (double_div (double_of_int (total_elapsed sn)) 1000))"
    "number_at [''match'', ''remaining_s''] ?J = Some (read_back 1 (double_div (double_of_int (remaining_in_phase sn)) 1000))"
    "number_at [''cadence'', ''p50_ms''] ?J = Some (read_back 3 p50)"
    "number_at [''cadence'', ''p99_ms''] ?J = Some (read_back 3 p99)"
    "number_at [''uptime_s''] ?J = Some (read_back 3 (seconds_double (now - t0)))"
    by (rule number_at_format; simp add: state_reply_def Let_def assms(1))+
  moreover have "whole_at [''control'', ''alliance''] ?J = Some (int_string (sint (ds_alliance (w_state w))))"
  proof (rule whole_at_int)
    have "- (2 ^ 31) \<le> sint (ds_alliance (w_state w))" "sint (ds_alliance (w_state w)) < 2 ^ 31"
      using sint_range_size [of "ds_alliance (w_state w)"] by (simp_all add: word_size)
    then show "\<bar>sint (ds_alliance (w_state w))\<bar> \<le> 2 ^ 53" by simp
  qed (simp add: state_reply_def Let_def)
  moreover have "whole_at [''smartio'', ''channels_configured''] ?J = Some (decimal (channels_configured (w_channels w)))"
  proof (rule whole_at_decimal)
    have "channels_configured (w_channels w) \<le> length (w_channels w)" by (simp add: channels_configured_def)
    with assms(8) show "channels_configured (w_channels w) \<le> 2 ^ 53" by linarith
  qed (simp add: state_reply_def Let_def)
  moreover have "whole_at [''smartio'', ''channel_count''] ?J = Some (decimal (channel_count (w_channels w)))"
    using assms(8) by (intro whole_at_decimal) (simp_all add: state_reply_def channel_count_def Let_def)
  moreover have "whole_at [''cadence'', ''samples''] ?J = Some (decimal (sample_count t2))"
    using assms(9) by (intro whole_at_decimal) (simp_all add: state_reply_def Let_def)
  ultimately show ?thesis
    using to_fixed_read_back [OF ms_in_range [OF assms(2,3)]] to_fixed_read_back [OF ms_in_range [OF assms(4,5)]]
    by (simp add: refresh_rows_def row_def read_back_25)
qed

definition fresh_world :: web_world where
  "fresh_world = \<lparr>w_state = initial_daemon_state, w_match = new_match_controller default_durations,
     w_cadence = new_cadence_tracker, w_channels = []\<rparr>"

lemma page_shows_state_witness:
  "\<exists>rows. refresh (fst (serve 0 0 (GET, ''/api/state'', []) fresh_world)) = Some (Rows rows) \<and>
    rows ! 0 = (''match phase'', Class_v, ''idle'') \<and> rows ! 3 = (''enabled'', Class_warn, ''false'') \<and>
    rows ! 7 = (''smartio configured'', Class_v, ''0 / 0'')"
proof -
  let ?sn = "match_snapshot 0 (w_match fresh_world)"
  have sn: "0 \<le> total_elapsed ?sn" "total_elapsed ?sn \<le> 2 ^ 40"
    "0 \<le> remaining_in_phase ?sn" "remaining_in_phase ?sn \<le> 2 ^ 40"
    by (simp_all add: fresh_world_def new_match_controller_def match_snapshot_def)
  have p: "p50_ms (w_cadence fresh_world) = (0, new_cadence_tracker)"
    "p99_ms new_cadence_tracker = (0, new_cadence_tracker)"
    by (simp_all add: fresh_world_def p50_ms_def p99_ms_def percentile_ms_def new_cadence_tracker_def)
  have n: "length (w_channels fresh_world) \<le> 2 ^ 53" "sample_count new_cadence_tracker \<le> 2 ^ 53"
    by (simp_all add: fresh_world_def new_cadence_tracker_def)
  have z: "decimal 0 = ''0''" by (subst decimal.simps) simp
  from page_shows_state [OF refl sn p n, of 0 "[]"] show ?thesis
    by (simp add: fresh_world_def new_match_controller_def initial_daemon_state_def cls_def bool_name_def
        match_phase_name_def channels_configured_def channel_count_def z)
qed

end
