(* ===== verification/Gamepad_Ingest.thy ===== *)
theory Gamepad_Ingest
  imports Daemon_State Nt_Topics
begin

text \<open>
  gamepad_ingest.{hpp,cpp}: copies the \<open>/dev/control\<close> topics into the shared state, writing a
  field only when its topic changed since the last pass (always on the first pass).
\<close>

section \<open>State and operations\<close>

definition kModeUnknownDefault :: i64 where "kModeUnknownDefault = 0"
definition kAllianceDefault :: i64 where "kAllianceDefault = 0"
definition kIntSentinel :: i64 where "kIntSentinel = - 9999"
definition kGamepadTickPeriod :: int where "kGamepadTickPeriod = 20"

definition mode_from_int :: "i64 \<Rightarrow> RobotMode" where
  "mode_from_int v = (if v = 1 then Auto else if v = 2 then Teleop else if v = 3 then Test else Unknown)"

record GamepadIngest =
  enabled_sub :: "bool Subscriber"
  mode_sub :: "i64 Subscriber"
  alliance_sub :: "i64 Subscriber"
  estop_sub :: "bool Subscriber"
  last_enabled_seen :: bool
  last_estop_seen :: bool
  last_mode_seen :: i64
  last_alliance_seen :: i64
  first_tick :: bool

definition new_gamepad_ingest :: GamepadIngest where
  "new_gamepad_ingest =
    \<lparr>enabled_sub = subscribe kCtrlEnabled False,
     mode_sub = subscribe kCtrlMode kModeUnknownDefault,
     alliance_sub = subscribe kCtrlAlliance kAllianceDefault,
     estop_sub = subscribe kCtrlEStop False,
     last_enabled_seen = False, last_estop_seen = False,
     last_mode_seen = kIntSentinel, last_alliance_seen = kIntSentinel, first_tick = True\<rparr>"

definition ingest_enabled ::
  "bool nt_values \<Rightarrow> GamepadIngest \<times> DaemonState \<Rightarrow> GamepadIngest \<times> DaemonState" where
  "ingest_enabled nb = (\<lambda>(g, s). let enabled = sub_get nb (enabled_sub g) in
    if first_tick g \<or> enabled \<noteq> last_enabled_seen g
    then (g\<lparr>last_enabled_seen := enabled\<rparr>, set_enabled enabled s) else (g, s))"

definition ingest_mode ::
  "i64 nt_values \<Rightarrow> GamepadIngest \<times> DaemonState \<Rightarrow> GamepadIngest \<times> DaemonState" where
  "ingest_mode ni = (\<lambda>(g, s). let mode = sub_get ni (mode_sub g) in
    if first_tick g \<or> mode \<noteq> last_mode_seen g
    then (g\<lparr>last_mode_seen := mode\<rparr>, set_mode (mode_from_int mode) s) else (g, s))"

definition ingest_alliance ::
  "i64 nt_values \<Rightarrow> GamepadIngest \<times> DaemonState \<Rightarrow> GamepadIngest \<times> DaemonState" where
  "ingest_alliance ni = (\<lambda>(g, s). let alliance = sub_get ni (alliance_sub g) in
    if first_tick g \<or> alliance \<noteq> last_alliance_seen g
    then (g\<lparr>last_alliance_seen := alliance\<rparr>, set_alliance (int_of_int64 alliance) s) else (g, s))"

definition ingest_estop ::
  "bool nt_values \<Rightarrow> GamepadIngest \<times> DaemonState \<Rightarrow> GamepadIngest \<times> DaemonState" where
  "ingest_estop nb = (\<lambda>(g, s). let estop = sub_get nb (estop_sub g) in
    if first_tick g \<or> estop \<noteq> last_estop_seen g
    then (g\<lparr>last_estop_seen := estop\<rparr>, set_e_stop estop s) else (g, s))"

definition gamepad_tick ::
  "bool nt_values \<Rightarrow> i64 nt_values \<Rightarrow> GamepadIngest \<times> DaemonState \<Rightarrow> GamepadIngest \<times> DaemonState"
where
  "gamepad_tick nb ni gs =
    (case ingest_estop nb (ingest_alliance ni (ingest_mode ni (ingest_enabled nb gs))) of
       (g, s) \<Rightarrow> (g\<lparr>first_tick := False\<rparr>, s))"

text \<open>A run of the thread, with the writes of other threads between its passes.\<close>

datatype gamepad_event =
    GamepadTick "bool nt_values" "i64 nt_values"
  | OtherWrite state_write

fun gamepad_step :: "gamepad_event \<Rightarrow> GamepadIngest \<times> DaemonState \<Rightarrow> GamepadIngest \<times> DaemonState" where
  "gamepad_step (GamepadTick nb ni) = gamepad_tick nb ni"
| "gamepad_step (OtherWrite w) = (\<lambda>(g, s). (g, apply_write w s))"

section \<open>What is remembered\<close>

definition subs_ok :: "GamepadIngest \<Rightarrow> bool" where
  "subs_ok g \<longleftrightarrow> enabled_sub g = subscribe kCtrlEnabled False
     \<and> mode_sub g = subscribe kCtrlMode kModeUnknownDefault
     \<and> alliance_sub g = subscribe kCtrlAlliance kAllianceDefault
     \<and> estop_sub g = subscribe kCtrlEStop False"

text \<open>The values of one pass.\<close>

abbreviation topic_enabled :: "bool nt_values \<Rightarrow> bool" where
  "topic_enabled nb \<equiv> topic_or False nb kCtrlEnabled"

abbreviation topic_estop :: "bool nt_values \<Rightarrow> bool" where
  "topic_estop nb \<equiv> topic_or False nb kCtrlEStop"

abbreviation topic_mode :: "i64 nt_values \<Rightarrow> i64" where
  "topic_mode ni \<equiv> topic_or kModeUnknownDefault ni kCtrlMode"

abbreviation topic_alliance :: "i64 nt_values \<Rightarrow> i64" where
  "topic_alliance ni \<equiv> topic_or kAllianceDefault ni kCtrlAlliance"

definition remembers :: "bool nt_values \<Rightarrow> i64 nt_values \<Rightarrow> GamepadIngest \<Rightarrow> bool" where
  "remembers nb ni g \<longleftrightarrow> \<not> first_tick g
     \<and> last_enabled_seen g = topic_enabled nb \<and> last_estop_seen g = topic_estop nb
     \<and> last_mode_seen g = topic_mode ni \<and> last_alliance_seen g = topic_alliance ni"

text \<open>
  One stage in closed form: the topic's value is remembered, and the field holds it when it is
  the first pass or the topic changed.
\<close>

lemma ingest_stages:
  "ingest_enabled nb (g, s) = (let v = sub_get nb (enabled_sub g) in
     (g\<lparr>last_enabled_seen := v\<rparr>,
      s\<lparr>ds_enabled := if first_tick g \<or> v \<noteq> last_enabled_seen g then v else ds_enabled s\<rparr>))"
  "ingest_mode ni (g, s) = (let v = sub_get ni (mode_sub g) in
     (g\<lparr>last_mode_seen := v\<rparr>,
      s\<lparr>ds_mode := if first_tick g \<or> v \<noteq> last_mode_seen g then mode_from_int v else ds_mode s\<rparr>))"
  "ingest_alliance ni (g, s) = (let v = sub_get ni (alliance_sub g) in
     (g\<lparr>last_alliance_seen := v\<rparr>,
      s\<lparr>ds_alliance := if first_tick g \<or> v \<noteq> last_alliance_seen g
        then int_of_int64 v else ds_alliance s\<rparr>))"
  "ingest_estop nb (g, s) = (let v = sub_get nb (estop_sub g) in
     (g\<lparr>last_estop_seen := v\<rparr>,
      s\<lparr>ds_e_stop := if first_tick g \<or> v \<noteq> last_estop_seen g then v else ds_e_stop s\<rparr>))"
  by (simp_all add: ingest_enabled_def ingest_mode_def ingest_alliance_def ingest_estop_def
      daemon_state_defs Let_def)

lemma gamepad_tick_eq:
  assumes "subs_ok g"
  shows "gamepad_tick nb ni (g, s) =
    (g\<lparr>last_enabled_seen := topic_enabled nb, last_mode_seen := topic_mode ni,
       last_alliance_seen := topic_alliance ni, last_estop_seen := topic_estop nb,
       first_tick := False\<rparr>,
     s\<lparr>ds_enabled := if first_tick g \<or> topic_enabled nb \<noteq> last_enabled_seen g
         then topic_enabled nb else ds_enabled s,
       ds_mode := if first_tick g \<or> topic_mode ni \<noteq> last_mode_seen g
         then mode_from_int (topic_mode ni) else ds_mode s,
       ds_alliance := if first_tick g \<or> topic_alliance ni \<noteq> last_alliance_seen g
         then int_of_int64 (topic_alliance ni) else ds_alliance s,
       ds_e_stop := if first_tick g \<or> topic_estop nb \<noteq> last_estop_seen g
         then topic_estop nb else ds_e_stop s\<rparr>)"
  using assms by (simp add: gamepad_tick_def ingest_stages Let_def subs_ok_def)

lemma subs_ok_tick: "subs_ok (fst gs) \<Longrightarrow> subs_ok (fst (gamepad_tick nb ni gs))"
  by (cases gs) (simp add: gamepad_tick_eq, simp add: subs_ok_def)

lemma remembers_tick: "subs_ok (fst gs) \<Longrightarrow> remembers nb ni (fst (gamepad_tick nb ni gs))"
  by (cases gs) (simp add: gamepad_tick_eq remembers_def)

definition in_sync :: "GamepadIngest \<times> DaemonState \<Rightarrow> bool" where
  "in_sync = (\<lambda>(g, s). subs_ok g \<and> (first_tick g \<or>
     ds_enabled s = last_enabled_seen g \<and> ds_e_stop s = last_estop_seen g \<and>
     ds_mode s = mode_from_int (last_mode_seen g) \<and>
     ds_alliance s = int_of_int64 (last_alliance_seen g)))"

lemma in_sync_new [simp]: "in_sync (new_gamepad_ingest, s)"
  by (simp add: in_sync_def new_gamepad_ingest_def subs_ok_def)

lemma in_sync_tick: "in_sync gs \<Longrightarrow> in_sync (gamepad_tick nb ni gs)"
proof -
  assume sync: "in_sync gs"
  obtain g s where gs: "gs = (g, s)" by (meson surj_pair)
  with sync have ok: "subs_ok g" by (simp add: in_sync_def)
  with subs_ok_tick [of gs] gs have "subs_ok (fst (gamepad_tick nb ni (g, s)))" by simp
  with sync gs gamepad_tick_eq [OF ok] show "in_sync (gamepad_tick nb ni gs)"
    by (simp add: in_sync_def split del: if_split) auto
qed

interpretation gp: event_machine "\<lambda>gs. fst gs = new_gamepad_ingest" "\<lambda>(nb, ni). gamepad_tick nb ni"
  in_sync
  by unfold_locales (auto intro: in_sync_tick)

lemma steady_tick:
  assumes "subs_ok g" "remembers nb ni g"
  shows "gamepad_tick nb ni (g, s) = (g, s)"
proof -
  from assms(2) have "g\<lparr>first_tick := False\<rparr> = g" by (simp add: remembers_def)
  moreover from assms(2) have "first_tick g = False" "topic_enabled nb = last_enabled_seen g"
    "topic_estop nb = last_estop_seen g" "topic_mode ni = last_mode_seen g"
    "topic_alliance ni = last_alliance_seen g" by (simp_all add: remembers_def)
  ultimately show ?thesis by (simp add: gamepad_tick_eq [OF assms(1)])
qed

definition same_topics :: "bool nt_values \<Rightarrow> i64 nt_values \<Rightarrow> gamepad_event \<Rightarrow> bool" where
  "same_topics nb ni e = (case e of
     GamepadTick nb' ni' \<Rightarrow> topic_enabled nb' = topic_enabled nb \<and> topic_estop nb' = topic_estop nb
       \<and> topic_mode ni' = topic_mode ni \<and> topic_alliance ni' = topic_alliance ni
   | OtherWrite _ \<Rightarrow> True)"

definition other_writes :: "gamepad_event list \<Rightarrow> state_write list" where
  "other_writes es = [w. OtherWrite w \<leftarrow> es]"

lemma steady_fold:
  assumes "subs_ok g" "remembers nb ni g" "list_all (same_topics nb ni) es"
  shows "fold gamepad_step es (g, s) = (g, fold apply_write (other_writes es) s)"
  using assms(3)
proof (induction es arbitrary: s)
  case (Cons e es)
  show ?case
  proof (cases e)
    case (GamepadTick nb' ni')
    with Cons.prems assms(2) have "remembers nb' ni' g"
      by (simp add: remembers_def same_topics_def)
    with Cons GamepadTick steady_tick [OF assms(1) this] show ?thesis
      by (simp add: other_writes_def)
  next
    case (OtherWrite w)
    with Cons show ?thesis by (simp add: other_writes_def)
  qed
qed (simp add: other_writes_def)

section \<open>Properties\<close>


text \<open>
  While the topics keep the values of an earlier pass, the ingest writes nothing:
  any interleaving of further passes with other threads' writes leaves the shared state as
  those writes alone make it, so a match or a manual override is never fought.
\<close>

theorem gamepad_yields_to_others:
  assumes "list_all (same_topics nb ni) es"
  shows "fold gamepad_step (GamepadTick nb ni # es) (new_gamepad_ingest, s) =
    (fst (gamepad_tick nb ni (new_gamepad_ingest, s)),
     fold apply_write (other_writes es) (snd (gamepad_tick nb ni (new_gamepad_ingest, s))))"
proof -
  obtain g s1 where 1: "gamepad_tick nb ni (new_gamepad_ingest, s) = (g, s1)"
    by (meson surj_pair)
  have ok: "subs_ok (fst (new_gamepad_ingest, s))" by (simp add: subs_ok_def new_gamepad_ingest_def)
  from subs_ok_tick [OF ok] remembers_tick [OF ok] 1 have "subs_ok g" "remembers nb ni g"
    by (metis fst_conv)+
  from steady_fold [OF this assms] 1 show ?thesis by simp
qed

lemma gamepad_yields_to_others_witness:
  "ds_enabled (snd (fold gamepad_step
     [GamepadTick Map.empty Map.empty, OtherWrite (SetEnabled True), GamepadTick Map.empty Map.empty]
     (new_gamepad_ingest, initial_daemon_state)))"
  by (subst gamepad_yields_to_others) (simp_all add: same_topics_def other_writes_def)

text \<open>
  One pass after the first, in any state: a field follows its topic exactly
  when the topic differs from what the previous pass saw, and keeps what other threads wrote
  otherwise; the match time is never written.
\<close>

theorem gamepad_writes_only_changes:
  assumes "gamepad_tick nb ni (gamepad_tick nb0 ni0 (new_gamepad_ingest, s0)) = (g1, s1)"
    and "gamepad_tick nb' ni' (g1, s) = (g', s')"
  shows "ds_enabled s' = (if topic_or False nb' kCtrlEnabled = topic_or False nb kCtrlEnabled
      then ds_enabled s else topic_or False nb' kCtrlEnabled) \<and>
    ds_e_stop s' = (if topic_or False nb' kCtrlEStop = topic_or False nb kCtrlEStop
      then ds_e_stop s else topic_or False nb' kCtrlEStop) \<and>
    ds_mode s' = (if topic_or 0 ni' kCtrlMode = topic_or 0 ni kCtrlMode
      then ds_mode s else mode_from_int (topic_or 0 ni' kCtrlMode)) \<and>
    ds_alliance s' = (if topic_or 0 ni' kCtrlAlliance = topic_or 0 ni kCtrlAlliance
      then ds_alliance s else int_of_int64 (topic_or 0 ni' kCtrlAlliance)) \<and>
    ds_match_time_s s' = ds_match_time_s s"
proof -
  have ok: "subs_ok (fst (gamepad_tick nb0 ni0 (new_gamepad_ingest, s0)))"
    by (rule subs_ok_tick) (simp add: subs_ok_def new_gamepad_ingest_def)
  from subs_ok_tick [OF ok] remembers_tick [OF ok] assms(1) have "subs_ok g1" "remembers nb ni g1"
    by (metis fst_conv)+
  from this(2) have r: "first_tick g1 = False" "last_enabled_seen g1 = topic_enabled nb"
    "last_estop_seen g1 = topic_estop nb" "last_mode_seen g1 = topic_mode ni"
    "last_alliance_seen g1 = topic_alliance ni" by (simp_all add: remembers_def)
  from assms(2) gamepad_tick_eq [OF \<open>subs_ok g1\<close>, of nb' ni' s] have
    s': "s' = snd (gamepad_tick nb' ni' (g1, s))" by simp
  show ?thesis unfolding s' gamepad_tick_eq [OF \<open>subs_ok g1\<close>] r
    by (simp add: kModeUnknownDefault_def kAllianceDefault_def)
qed

lemma gamepad_writes_only_changes_witness:
  "ds_mode (snd (gamepad_tick Map.empty [kCtrlMode \<mapsto> 2]
     (gamepad_tick Map.empty Map.empty (gamepad_tick Map.empty Map.empty
       (new_gamepad_ingest, initial_daemon_state))))) = Teleop"
proof -
  let ?a = "gamepad_tick Map.empty Map.empty (gamepad_tick Map.empty Map.empty
       (new_gamepad_ingest, initial_daemon_state))"
  let ?b = "gamepad_tick Map.empty [kCtrlMode \<mapsto> 2] (fst ?a, snd ?a)"
  have "?a = (fst ?a, snd ?a)" "?b = (fst ?b, snd ?b)" by simp_all
  from gamepad_writes_only_changes [OF this] show ?thesis
    by (simp add: mode_from_int_def)
qed

end
