(* ===== verification/Shared_State.thy ===== *)
theory Shared_State
  imports Web_Ui Gamepad_Ingest
begin

text \<open>
  The shared \<open>DaemonState\<close> under its concurrent writers. Every setter locks the state for itself
  only, so an operation of the match controller, a pass of the ingest or a posted form is a
  sequence of atomic writes, and other threads' writes and the publisher's snapshots fall in
  between. The match controller's own mutex keeps its operations apart from each other.
\<close>

section \<open>Operations as sequences of writes\<close>

definition phase_writes :: "MatchPhase \<Rightarrow> state_write list" where
  "phase_writes p = (case p of
     PhaseAuto \<Rightarrow> [SetEnabled True, SetMode Auto]
   | PhaseTeleop \<Rightarrow> [SetEnabled True, SetMode Teleop]
   | Idle \<Rightarrow> [SetEnabled False, SetMode Unknown]
   | AutoTeleopGap \<Rightarrow> [SetEnabled False, SetMode Unknown]
   | MatchEnded \<Rightarrow> [SetEnabled False, SetMode Unknown])"

definition enter_phase :: "int \<Rightarrow> MatchPhase \<Rightarrow> MatchController \<Rightarrow> MatchController \<times> state_write list" where
  "enter_phase now p c =
    (let c = c\<lparr>phase := p\<rparr> in (c, phase_writes p @ [SetMatchTime (word_of_int (match_seconds now c))]))"

fun op_writes :: "match_event \<Rightarrow> MatchController \<Rightarrow> MatchController \<times> state_write list" where
  "op_writes (StartMatch now) c = enter_phase now PhaseAuto (c\<lparr>match_start := now, phase_start := now\<rparr>)"
| "op_writes StopMatch c =
    (c\<lparr>phase := Idle, match_start := 0, phase_start := 0\<rparr>, phase_writes Idle @ [SetMatchTime 0])"
| "op_writes (SkipToTeleop now) c = enter_phase now PhaseTeleop
    (c\<lparr>match_start := now - ns_of_ms (auto_period (durations c)) - ns_of_ms (auto_teleop_gap (durations c)),
       phase_start := now\<rparr>)"
| "op_writes (Tick now) c =
    (if \<not> running (phase c) then (c, [])
     else let duration = ns_of_ms (duration_for c (phase c)) in
       if now - phase_start c < duration then enter_phase now (phase c) c
       else enter_phase now (next_phase (phase c)) (c\<lparr>phase_start := phase_start c + duration\<rparr>))"
| "op_writes (Manual w) c = (c, [w])"

definition write_if :: "bool \<Rightarrow> state_write \<Rightarrow> state_write list" where
  "write_if c w = (if c then [w] else [])"

definition pass_writes ::
  "bool nt_values \<Rightarrow> i64 nt_values \<Rightarrow> GamepadIngest \<Rightarrow> GamepadIngest \<times> state_write list" where
  "pass_writes nb ni g =
    (let enabled = sub_get nb (enabled_sub g); mode = sub_get ni (mode_sub g);
         alliance = sub_get ni (alliance_sub g); estop = sub_get nb (estop_sub g)
     in (g\<lparr>last_enabled_seen := enabled, last_mode_seen := mode, last_alliance_seen := alliance,
           last_estop_seen := estop, first_tick := False\<rparr>,
         write_if (first_tick g \<or> enabled \<noteq> last_enabled_seen g) (SetEnabled enabled)
         @ write_if (first_tick g \<or> mode \<noteq> last_mode_seen g) (SetMode (mode_from_int mode))
         @ write_if (first_tick g \<or> alliance \<noteq> last_alliance_seen g) (SetAlliance (int_of_int64 alliance))
         @ write_if (first_tick g \<or> estop \<noteq> last_estop_seen g) (SetEStop estop)))"

definition control_writes :: "string \<Rightarrow> state_write list" where
  "control_writes body =
    (let enabled = extract_field body ''enabled''; estop = extract_field body ''estop'';
         mode = extract_field body ''mode''; alliance = extract_field body ''alliance'';
         m = from_chars_int mode 0; a = from_chars_int alliance 0
     in write_if (enabled \<noteq> []) (SetEnabled (truthy enabled))
      @ write_if (estop \<noteq> []) (SetEStop (truthy estop))
      @ write_if (mode \<noteq> []) (SetMode (robot_mode_of_int (if 0 \<le> m \<and> m \<le> 3 then m else 0)))
      @ write_if (alliance \<noteq> []) (SetAlliance (word_of_int (clamp_alliance a))))"

lemma set_write_if [simp]: "x \<in> set (write_if c w) \<longleftrightarrow> c \<and> x = w"
  by (auto simp: write_if_def)

lemma fold_write_if [simp]: "fold apply_write (write_if c w) s = (if c then apply_write w s else s)"
  by (auto simp: write_if_def)

lemma enter_phase_writes:
  "publish_match_time now (apply_phase p (c, s)) =
    (case enter_phase now p c of (c', ws) \<Rightarrow> (c', fold apply_write ws s))"
  by (cases p) (simp_all add: enter_phase_def phase_writes_def apply_phase_def publish_match_time_def Let_def)

text \<open>Run without interference, the writes do what the operation does.\<close>

lemma match_step_writes:
  "match_step e (c, s) = (case op_writes e c of (c', ws) \<Rightarrow> (c', fold apply_write ws s))"
proof (cases e)
  case (StartMatch now)
  then show ?thesis by (simp add: start_match_def enter_phase_writes)
next
  case StopMatch
  then show ?thesis by (simp add: stop_match_def apply_phase_def phase_writes_def)
next
  case (SkipToTeleop now)
  then show ?thesis by (simp add: skip_to_teleop_def enter_phase_writes Let_def)
next
  case (Tick now)
  consider "\<not> running (phase c)" | "running (phase c)" "now - phase_start c < ns_of_ms (duration_for c (phase c))"
    | "running (phase c)" "\<not> now - phase_start c < ns_of_ms (duration_for c (phase c))" by blast
  then show ?thesis
    by cases (simp_all add: Tick match_tick_not_running match_tick_inside match_tick_past enter_phase_writes)
next
  case (Manual w)
  then show ?thesis by simp
qed

lemma gamepad_tick_writes:
  "gamepad_tick nb ni (g, s) = (case pass_writes nb ni g of (g', ws) \<Rightarrow> (g', fold apply_write ws s))"
  by (simp add: gamepad_tick_def pass_writes_def ingest_enabled_def ingest_mode_def ingest_alliance_def
      ingest_estop_def Let_def)

lemma set_control_writes: "handle_set_control body s = fold apply_write (control_writes body) s"
  by (simp add: handle_set_control_def control_writes_def Let_def)

section \<open>The threads on one state\<close>

text \<open>
  What each thread still has to write; the form handlers run on the HTTP server's pool, one
  list each. \<open>sent\<close> is what the publisher has snapshot.
\<close>

record system =
  sys_state :: DaemonState
  sys_match :: MatchController
  sys_gamepad :: GamepadIngest
  match_todo :: "state_write list"
  gamepad_todo :: "state_write list"
  web_todo :: "state_write list list"
  sent :: "ControlDataView list"

definition new_system :: "MatchDurations \<Rightarrow> system" where
  "new_system d = \<lparr>sys_state = initial_daemon_state, sys_match = new_match_controller d,
     sys_gamepad = new_gamepad_ingest, match_todo = [], gamepad_todo = [], web_todo = [], sent = []\<rparr>"

text \<open>
  An operation of the match controller begins only when no other holds its mutex. An event that
  is not possible changes nothing.
\<close>

datatype sys_event =
    Match_op match_event
  | Match_write
  | Gamepad_pass "bool nt_values" "i64 nt_values"
  | Gamepad_write
  | Web_post string
  | Web_write nat
  | Publish

fun sys_step :: "sys_event \<Rightarrow> system \<Rightarrow> system" where
  "sys_step (Match_op e) y =
    (if match_todo y \<noteq> [] then y
     else case op_writes e (sys_match y) of (c, ws) \<Rightarrow> y\<lparr>sys_match := c, match_todo := ws\<rparr>)"
| "sys_step Match_write y =
    (case match_todo y of [] \<Rightarrow> y
     | w # ws \<Rightarrow> y\<lparr>sys_state := apply_write w (sys_state y), match_todo := ws\<rparr>)"
| "sys_step (Gamepad_pass nb ni) y =
    (if gamepad_todo y \<noteq> [] then y
     else case pass_writes nb ni (sys_gamepad y) of (g, ws) \<Rightarrow> y\<lparr>sys_gamepad := g, gamepad_todo := ws\<rparr>)"
| "sys_step Gamepad_write y =
    (case gamepad_todo y of [] \<Rightarrow> y
     | w # ws \<Rightarrow> y\<lparr>sys_state := apply_write w (sys_state y), gamepad_todo := ws\<rparr>)"
| "sys_step (Web_post body) y = y\<lparr>web_todo := web_todo y @ [control_writes body]\<rparr>"
| "sys_step (Web_write i) y =
    (if i < length (web_todo y)
     then case web_todo y ! i of [] \<Rightarrow> y
       | w # ws \<Rightarrow> y\<lparr>sys_state := apply_write w (sys_state y), web_todo := (web_todo y)[i := ws]\<rparr>
     else y)"
| "sys_step Publish y = y\<lparr>sent := sent y @ [snapshot_control (sys_state y)]\<rparr>"

definition pending :: "system \<Rightarrow> state_write set" where
  "pending y = set (match_todo y) \<union> set (gamepad_todo y) \<union> \<Union> (set ` set (web_todo y))"

section \<open>Guarding a field\<close>

text \<open>
  A condition on the state that no good write breaks holds at every snapshot, if no thread ever
  has a bad write to do: nothing in the interleaving of writes can break it then.
\<close>

locale guarded_field =
  fixes bad :: "state_write \<Rightarrow> bool" and good :: "DaemonState \<Rightarrow> bool"
    and calm_match :: "MatchController \<Rightarrow> bool" and calm_op :: "match_event \<Rightarrow> bool"
    and calm_gamepad :: "GamepadIngest \<Rightarrow> bool"
    and calm_pass :: "bool nt_values \<Rightarrow> i64 nt_values \<Rightarrow> bool"
  assumes good_kept: "good s \<Longrightarrow> \<not> bad w \<Longrightarrow> good (apply_write w s)"
    and op_calm: "calm_match c \<Longrightarrow> calm_op e \<Longrightarrow> op_writes e c = (c', ws) \<Longrightarrow>
      calm_match c' \<and> list_all (\<lambda>w. \<not> bad w) ws"
    and pass_calm: "calm_gamepad g \<Longrightarrow> calm_pass nb ni \<Longrightarrow> pass_writes nb ni g = (g', ws) \<Longrightarrow>
      calm_gamepad g' \<and> list_all (\<lambda>w. \<not> bad w) ws"
begin

definition calm :: "sys_event \<Rightarrow> bool" where
  "calm e \<longleftrightarrow> (case e of Match_op x \<Rightarrow> calm_op x | Gamepad_pass nb ni \<Rightarrow> calm_pass nb ni
     | Web_post body \<Rightarrow> list_all (\<lambda>w. \<not> bad w) (control_writes body) | _ \<Rightarrow> True)"

definition guarded :: "system \<Rightarrow> bool" where
  "guarded y \<longleftrightarrow> good (sys_state y) \<and> calm_match (sys_match y) \<and> calm_gamepad (sys_gamepad y)
     \<and> (\<forall>w \<in> pending y. \<not> bad w)"

lemma guarded_step:
  assumes "guarded y" "calm e"
  shows "guarded (sys_step e y)"
proof (cases e)
  case (Match_op x)
  show ?thesis
  proof (cases "match_todo y")
    case Nil
    obtain c ws where o: "op_writes x (sys_match y) = (c, ws)" by (cases "op_writes x (sys_match y)")
    from op_calm [OF _ _ o] assms Match_op have "calm_match c" "list_all (\<lambda>w. \<not> bad w) ws"
      by (simp_all add: guarded_def calm_def)
    with o assms(1) Match_op Nil show ?thesis
      by (auto simp: guarded_def pending_def list_all_iff)
  next
    case (Cons w ws)
    with Match_op assms(1) show ?thesis by simp
  qed
next
  case (Gamepad_pass nb ni)
  show ?thesis
  proof (cases "gamepad_todo y")
    case Nil
    obtain g ws where o: "pass_writes nb ni (sys_gamepad y) = (g, ws)"
      by (cases "pass_writes nb ni (sys_gamepad y)")
    from pass_calm [OF _ _ o] assms Gamepad_pass have "calm_gamepad g" "list_all (\<lambda>w. \<not> bad w) ws"
      by (simp_all add: guarded_def calm_def)
    with o assms(1) Gamepad_pass Nil show ?thesis
      by (auto simp: guarded_def pending_def list_all_iff)
  next
    case (Cons w ws)
    with Gamepad_pass assms(1) show ?thesis by simp
  qed
next
  case (Web_write i)
  show ?thesis
  proof (cases "i < length (web_todo y) \<and> web_todo y ! i \<noteq> []")
    case True
    then obtain w ws where w: "web_todo y ! i = w # ws" by (cases "web_todo y ! i") auto
    with True have "w # ws \<in> set (web_todo y)" by (metis nth_mem)
    then have sub: "insert w (set ws) \<subseteq> pending y" by (force simp: pending_def)
    let ?y = "y\<lparr>sys_state := apply_write w (sys_state y), web_todo := (web_todo y)[i := ws]\<rparr>"
    have "pending ?y \<subseteq> pending y \<union> set ws"
      using set_update_subset_insert [of "web_todo y" i ws] by (auto simp: pending_def)
    with sub have "pending ?y \<subseteq> pending y" by blast
    moreover from sub assms(1) have "\<not> bad w" "good (sys_state y)" by (auto simp: guarded_def)
    then have "good (sys_state ?y)" by (simp add: good_kept)
    moreover have "sys_step e y = ?y" using True w by (simp add: Web_write)
    ultimately show ?thesis using assms(1) unfolding guarded_def by auto
  next
    case False
    then show ?thesis using assms(1) Web_write by (auto split: list.split)
  qed
qed (use assms good_kept in
  \<open>auto simp: guarded_def pending_def calm_def list_all_iff split: list.split\<close>)

lemma guarded_run:
  assumes "guarded y" "list_all calm es"
  shows "guarded (fold sys_step es y)"
  using assms by (induction es arbitrary: y) (simp_all add: guarded_step)

text \<open>Every snapshot taken on the way is of a good state.\<close>

lemma sent_good:
  assumes "guarded y" "list_all calm es" "\<And>s. good s \<Longrightarrow> ok (snapshot_control s)"
  shows "\<exists>vs. sent (fold sys_step es y) = sent y @ vs \<and> list_all ok vs"
  using assms(1,2)
proof (induction es arbitrary: y)
  case Nil
  then show ?case by simp
next
  case (Cons e es)
  then obtain vs where vs: "sent (fold sys_step (e # es) y) = sent (sys_step e y) @ vs" "list_all ok vs"
    using guarded_step by fastforce
  from Cons.prems(1) assms(3) have "\<exists>us. sent (sys_step e y) = sent y @ us \<and> list_all ok us"
    by (cases e) (auto simp: guarded_def split: list.split prod.split)
  with vs show ?case by auto
qed

end

section \<open>What the writers write\<close>

lemma op_writes_cases:
  assumes "op_writes e c = (c', ws)" "\<And>w. e \<noteq> Manual w"
  shows "ws = [] \<and> c' = c \<and> \<not> running (phase c) \<or>
    (\<exists>n. ws = phase_writes (phase c') @ [SetMatchTime n])"
  using assms by (cases e) (auto simp: enter_phase_def Let_def split: if_splits)

lemma phase_writes_command:
  "phase_writes p = [SetEnabled (fst (phase_command p)), SetMode (snd (phase_command p))]"
  by (cases p) (simp_all add: phase_writes_def)

lemma pass_writes_keeps:
  assumes "pass_writes nb ni g = (g', ws)" "subs_ok g"
  shows "subs_ok g' \<and> \<not> first_tick g' \<and> last_estop_seen g' = topic_estop nb"
    and "SetEStop b \<in> set ws \<longleftrightarrow> b = topic_estop nb \<and> (first_tick g \<or> last_estop_seen g \<noteq> b)"
    and "SetEnabled b \<in> set ws \<longleftrightarrow> b = topic_enabled nb \<and> (first_tick g \<or> last_enabled_seen g \<noteq> b)"
proof -
  from assms(1) have g': "g' = fst (pass_writes nb ni g)" and ws: "ws = snd (pass_writes nb ni g)" by simp_all
  from assms(2) show "subs_ok g' \<and> \<not> first_tick g' \<and> last_estop_seen g' = topic_estop nb"
    unfolding g' by (simp add: pass_writes_def subs_ok_def Let_def)
  from assms(2) show "SetEStop b \<in> set ws \<longleftrightarrow> b = topic_estop nb \<and> (first_tick g \<or> last_estop_seen g \<noteq> b)"
    and "SetEnabled b \<in> set ws \<longleftrightarrow> b = topic_enabled nb \<and> (first_tick g \<or> last_enabled_seen g \<noteq> b)"
    unfolding ws by (auto simp: pass_writes_def subs_ok_def Let_def)
qed

lemma control_writes_of:
  "SetEStop b \<in> set (control_writes body) \<longleftrightarrow>
     extract_field body ''estop'' \<noteq> [] \<and> b = truthy (extract_field body ''estop'')"
  "SetEnabled b \<in> set (control_writes body) \<longleftrightarrow>
     extract_field body ''enabled'' \<noteq> [] \<and> b = truthy (extract_field body ''enabled'')"
  by (auto simp: control_writes_def Let_def)

interpretation estop: guarded_field "\<lambda>w. w = SetEStop False" ds_e_stop "\<lambda>_. True"
  "\<lambda>e. \<forall>w. e \<noteq> Manual w" "\<lambda>g. subs_ok g \<and> \<not> first_tick g \<and> last_estop_seen g = v"
  "\<lambda>nb ni. topic_estop nb = v" for v
proof unfold_locales
  fix s :: DaemonState and w
  assume "ds_e_stop s" "\<not> w = SetEStop False"
  then show "ds_e_stop (apply_write w s)" by (cases w) simp_all
next
  fix c e c' ws
  assume "\<forall>w. e \<noteq> Manual w" "op_writes e c = (c', ws)"
  with op_writes_cases [of e c c' ws] show "True \<and> list_all (\<lambda>w. \<not> w = SetEStop False) ws"
    by (auto simp: phase_writes_command)
next
  fix g nb ni g' ws
  assume "subs_ok g \<and> \<not> first_tick g \<and> last_estop_seen g = v" "topic_estop nb = v"
    "pass_writes nb ni g = (g', ws)"
  with pass_writes_keeps(1) [of nb ni g g' ws] pass_writes_keeps(2) [of nb ni g g' ws False]
  show "(subs_ok g' \<and> \<not> first_tick g' \<and> last_estop_seen g' = v) \<and> list_all (\<lambda>w. \<not> w = SetEStop False) ws"
    by (auto simp: list_all_iff)
qed

interpretation enable: guarded_field "\<lambda>w. w = SetEnabled True" "\<lambda>s :: DaemonState. \<not> ds_enabled s"
  "\<lambda>c. \<not> running (phase c)" "\<lambda>e. e = StopMatch \<or> (\<exists>t. e = Tick t)" subs_ok
  "\<lambda>nb ni. \<not> topic_enabled nb"
proof unfold_locales
  fix s :: DaemonState and w
  assume "\<not> ds_enabled s" "\<not> w = SetEnabled True"
  then show "\<not> ds_enabled (apply_write w s)" by (cases w) simp_all
next
  fix c e c' ws
  assume "\<not> running (phase c)" "e = StopMatch \<or> (\<exists>t. e = Tick t)" "op_writes e c = (c', ws)"
  then show "\<not> running (phase c') \<and> list_all (\<lambda>w. \<not> w = SetEnabled True) ws"
    by (auto simp: phase_writes_def)
next
  fix g nb ni g' ws
  assume "subs_ok g" "\<not> topic_enabled nb" "pass_writes nb ni g = (g', ws)"
  with pass_writes_keeps(1) [of nb ni g g' ws] pass_writes_keeps(3) [of nb ni g g' ws True]
  show "subs_ok g' \<and> list_all (\<lambda>w. \<not> w = SetEnabled True) ws" by (auto simp: list_all_iff)
qed

section \<open>Properties\<close>

text \<open>Events that leave an emergency stop alone, and events that do not enable the robot.\<close>

fun keeps_estop :: "bool \<Rightarrow> sys_event \<Rightarrow> bool" where
  "keeps_estop v (Match_op e) \<longleftrightarrow> (case e of Manual w \<Rightarrow> False | _ \<Rightarrow> True)"
| "keeps_estop v (Gamepad_pass nb ni) \<longleftrightarrow> topic_estop nb = v"
| "keeps_estop v (Web_post body) \<longleftrightarrow> extract_field body ''estop'' \<in> {[], ''true'', ''1''}"
| "keeps_estop v _ \<longleftrightarrow> True"

fun not_enabling :: "sys_event \<Rightarrow> bool" where
  "not_enabling (Match_op e) \<longleftrightarrow> (case e of StopMatch \<Rightarrow> True | Tick t \<Rightarrow> True | _ \<Rightarrow> False)"
| "not_enabling (Gamepad_pass nb ni) \<longleftrightarrow> \<not> topic_enabled nb"
| "not_enabling (Web_post body) \<longleftrightarrow> extract_field body ''enabled'' \<notin> {''true'', ''1''}"
| "not_enabling _ \<longleftrightarrow> True"

lemma keeps_estop_calm: "keeps_estop v e \<Longrightarrow> estop.calm v e"
  by (cases e)
    (auto simp: estop.calm_def list_all_iff control_writes_of truthy_def split: match_event.splits)

lemma not_enabling_calm: "not_enabling e \<Longrightarrow> enable.calm e"
  by (cases e)
    (auto simp: enable.calm_def list_all_iff control_writes_of truthy_def split: match_event.splits)


text \<open>
  C4 (safety): the robot is never enabled out of the blue. From a fresh daemon, while no match is
  started or skipped to teleop, the gamepad's enable topic stays false and no form posts
  \<open>enabled\<close> true, no control word sent has the enable or the watchdog bit.
\<close>

theorem never_enabled_unasked:
  assumes "list_all not_enabling es"
  shows "list_all (\<lambda>v. \<not> cw_flag (pack_control_word v) kCwEnabledBit \<and>
      \<not> cw_flag (pack_control_word v) kCwWatchdogActiveBit) (sent (fold sys_step es (new_system d)))"
proof -
  have g: "enable.guarded (new_system d)"
    by (simp add: enable.guarded_def new_system_def pending_def initial_daemon_state_def
        new_match_controller_def subs_ok_def new_gamepad_ingest_def)
  have es: "list_all enable.calm es"
    using assms not_enabling_calm by (rule list.pred_mono_strong)
  from enable.sent_good [OF g es, of "\<lambda>v. \<not> cw_flag (pack_control_word v) kCwEnabledBit \<and>
      \<not> cw_flag (pack_control_word v) kCwWatchdogActiveBit"]
  show ?thesis by (auto simp: cw_flag_pack new_system_def)
qed

definition demo_stopped :: system where
  "demo_stopped = (new_system default_durations)\<lparr>sys_state := set_e_stop True initial_daemon_state,
     sys_gamepad := new_gamepad_ingest\<lparr>first_tick := False\<rparr>\<rparr>"


lemma never_enabled_unasked_witness:
  "list_all (\<lambda>v. \<not> cw_flag (pack_control_word v) kCwEnabledBit \<and>
      \<not> cw_flag (pack_control_word v) kCwWatchdogActiveBit)
    (sent (fold sys_step [Web_post ''mode=2'', Web_write 0, Publish, Match_op (Tick 7), Publish]
      (new_system default_durations)))"
proof (rule never_enabled_unasked)
  have "extract_field ''mode=2'' ''enabled'' = []" by code_simp
  then show "list_all not_enabling [Web_post ''mode=2'', Web_write 0, Publish, Match_op (Tick 7), Publish]"
    by simp
qed

text \<open>
  Taken one write at a time without interference, the operations of the match
  controller, the passes of the ingest and the control forms do exactly what they do as a whole:
  the model of the threads loses nothing of the code's operations.
\<close>

theorem writes_are_the_operations:
  "(case op_writes e c of (c', ws) \<Rightarrow> (c', fold apply_write ws s)) = match_step e (c, s) \<and>
   (case pass_writes nb ni g of (g', ws) \<Rightarrow> (g', fold apply_write ws s)) = gamepad_tick nb ni (g, s) \<and>
   fold apply_write (control_writes body) s = handle_set_control body s"
  by (simp add: match_step_writes gamepad_tick_writes set_control_writes)

text \<open>
  C24 (safety): what a snapshot can catch of a phase change. An operation that finds the state at
  its phase's command makes three writes, and a snapshot after none, one, two or all of them
  shows: the old command, the new enable bit with the old mode, the new command twice. So a
  robot is disabled before its mode changes, and is seen enabled with mode Unknown exactly
  between the two writes of a change from a disabled to an enabled phase.
\<close>

theorem phase_change_snapshots:
  assumes "(ds_enabled s, ds_mode s) = phase_command (phase c)"
    and "op_writes e c = (c', ws)" "ws \<noteq> []" "case e of Manual w \<Rightarrow> False | _ \<Rightarrow> True"
  shows "map (\<lambda>k. let v = snapshot_control (fold apply_write (take k ws) s) in (cv_enabled v, cv_mode v)) [0, 1, 2, 3]
      = [phase_command (phase c), (fst (phase_command (phase c')), snd (phase_command (phase c))),
         phase_command (phase c'), phase_command (phase c')] \<and> length ws = 3"
proof -
  from assms(4) have "e \<noteq> Manual w" for w by auto
  from op_writes_cases [OF assms(2) this] assms(3) obtain n where
    "ws = phase_writes (phase c') @ [SetMatchTime n]" by blast
  then have ws: "ws = [SetEnabled (fst (phase_command (phase c'))), SetMode (snd (phase_command (phase c'))),
      SetMatchTime n]" by (simp add: phase_writes_command)
  from assms(1) have "ds_enabled s = fst (phase_command (phase c))" "ds_mode s = snd (phase_command (phase c))"
    by (metis fst_conv snd_conv)+
  then show ?thesis by (simp add: ws Let_def eval_nat_numeral)
qed

lemma phase_change_snapshots_witness:
  "map (\<lambda>k. let v = snapshot_control (fold apply_write
       (take k (snd (op_writes (StartMatch 0) (new_match_controller default_durations)))) initial_daemon_state)
     in (cv_enabled v, cv_mode v)) [0, 1, 2, 3]
   = [(False, Unknown), (True, Unknown), (True, Auto), (True, Auto)]"
proof -
  let ?c = "new_match_controller default_durations"
  let ?o = "op_writes (StartMatch 0) ?c"
  have s: "(ds_enabled initial_daemon_state, ds_mode initial_daemon_state) = phase_command (phase ?c)"
    by (simp add: initial_daemon_state_def new_match_controller_def)
  have o: "?o = (fst ?o, snd ?o)" "snd ?o \<noteq> []" and p: "phase ?c = Idle" "phase (fst ?o) = PhaseAuto"
    by (simp_all add: enter_phase_def new_match_controller_def Let_def)
  have e: "case StartMatch 0 of Manual w \<Rightarrow> False | _ \<Rightarrow> True" by simp
  from conjunct1 [OF phase_change_snapshots [OF s o e]] show ?thesis
    by (simp only: p phase_command_simps fst_conv snd_conv)
qed

end
