(* ===== verification/Locks.thy ===== *)
theory Locks
  imports Shared_State
begin

text \<open>
  The two mutexes. \<open>DaemonState\<close> locks its own in every method; \<open>MatchController\<close> holds another
  for a whole operation and calls the state's setters under it; a state request takes first one
  and then the other. Here each thread runs a program of acquire, access and release steps, the
  programs interleave freely, and a thread stops at a mutex another one holds. The atomic writes
  of \<open>Shared_State\<close> are shown to be what such runs look like from outside.
\<close>

section \<open>Programs\<close>

datatype mutex = State_mu | Match_mu

datatype instr =
    Lock mutex
  | Unlock mutex
  | Write_field state_write
  | Read_fields
  | Op_body match_event
  | Read_match

text \<open>A \<open>std::lock_guard\<close> around a block.\<close>

definition lock_guard :: "mutex \<Rightarrow> instr list \<Rightarrow> instr list" where
  "lock_guard m c = Lock m # c @ [Unlock m]"

definition setter_code :: "state_write \<Rightarrow> instr list" where
  "setter_code w = lock_guard State_mu [Write_field w]"

definition snapshot_code :: "instr list" where
  "snapshot_code = lock_guard State_mu [Read_fields]"

definition op_code :: "match_event \<Rightarrow> instr list" where
  "op_code e = lock_guard Match_mu [Op_body e]"

definition match_snapshot_code :: "instr list" where
  "match_snapshot_code = lock_guard Match_mu [Read_match]"

definition setters_code :: "state_write list \<Rightarrow> instr list" where
  "setters_code ws = concat (map setter_code ws)"

text \<open>What a reply to a state request reads: the shared state, then the match.\<close>

definition state_code :: "instr list" where
  "state_code = snapshot_code @ match_snapshot_code"

section \<open>Threads\<close>

datatype daemon_thread = Match_thread | Gamepad_thread | Publisher_thread | Worker nat

datatype call =
    Op match_event
  | Ingest_pass "bool nt_values" "i64 nt_values"
  | Form string
  | Get_state
  | Publisher_tick

text \<open>
  The match thread ticks, the other operations of the controller come from requests, which run
  on the HTTP server's pool of workers.
\<close>

definition makes_call :: "daemon_thread \<Rightarrow> call \<Rightarrow> bool" where
  "makes_call t c \<longleftrightarrow> (case t of
     Match_thread \<Rightarrow> (case c of Op e \<Rightarrow> (case e of Tick now \<Rightarrow> True | _ \<Rightarrow> False) | _ \<Rightarrow> False)
   | Gamepad_thread \<Rightarrow> (case c of Ingest_pass nb ni \<Rightarrow> True | _ \<Rightarrow> False)
   | Publisher_thread \<Rightarrow> c = Publisher_tick
   | Worker n \<Rightarrow> (case c of
        Op e \<Rightarrow> (case e of Tick now \<Rightarrow> False | Manual w \<Rightarrow> False | _ \<Rightarrow> True)
      | Form body \<Rightarrow> True | Get_state \<Rightarrow> True | _ \<Rightarrow> False))"

text \<open>
  The state: the shared objects, who holds each mutex, and the code each thread has left. A
  worker notes the number of the form it handles.
\<close>

record locked_system =
  lk_state :: DaemonState
  lk_match :: MatchController
  lk_gamepad :: GamepadIngest
  lk_sent :: "ControlDataView list"
  holder :: "mutex \<Rightarrow> daemon_thread option"
  code :: "daemon_thread \<Rightarrow> instr list"
  forms :: nat
  form_of :: "nat \<Rightarrow> nat"

definition new_locked_system :: "MatchDurations \<Rightarrow> locked_system" where
  "new_locked_system d = \<lparr>lk_state = initial_daemon_state, lk_match = new_match_controller d,
     lk_gamepad = new_gamepad_ingest, lk_sent = [], holder = (\<lambda>_. None), code = (\<lambda>_. []),
     forms = 0, form_of = (\<lambda>_. 0)\<rparr>"

fun begin_call :: "daemon_thread \<Rightarrow> call \<Rightarrow> locked_system \<Rightarrow> locked_system" where
  "begin_call t (Op e) y = y\<lparr>code := (code y)(t := op_code e)\<rparr>"
| "begin_call t (Ingest_pass nb ni) y = (case pass_writes nb ni (lk_gamepad y) of
     (g, ws) \<Rightarrow> y\<lparr>lk_gamepad := g, code := (code y)(t := setters_code ws)\<rparr>)"
| "begin_call t (Form body) y =
     y\<lparr>code := (code y)(t := setters_code (control_writes body)), forms := forms y + 1,
       form_of := (case t of Worker n \<Rightarrow> (form_of y)(n := forms y) | _ \<Rightarrow> form_of y)\<rparr>"
| "begin_call t Get_state y = y\<lparr>code := (code y)(t := state_code)\<rparr>"
| "begin_call t Publisher_tick y = y\<lparr>code := (code y)(t := snapshot_code)\<rparr>"

fun run_instr :: "daemon_thread \<Rightarrow> instr \<Rightarrow> instr list \<Rightarrow> locked_system \<Rightarrow> locked_system" where
  "run_instr t (Lock m) c y =
     (if holder y m = None then y\<lparr>holder := (holder y)(m := Some t), code := (code y)(t := c)\<rparr> else y)"
| "run_instr t (Unlock m) c y = y\<lparr>holder := (holder y)(m := None), code := (code y)(t := c)\<rparr>"
| "run_instr t (Write_field w) c y = y\<lparr>lk_state := apply_write w (lk_state y), code := (code y)(t := c)\<rparr>"
| "run_instr t Read_fields c y =
     y\<lparr>lk_sent := (if t = Publisher_thread then lk_sent y @ [snapshot_control (lk_state y)] else lk_sent y),
       code := (code y)(t := c)\<rparr>"
| "run_instr t (Op_body e) c y = (case op_writes e (lk_match y) of
     (mc, ws) \<Rightarrow> y\<lparr>lk_match := mc, code := (code y)(t := setters_code ws @ c)\<rparr>)"
| "run_instr t Read_match c y = y\<lparr>code := (code y)(t := c)\<rparr>"

datatype lock_event = Call daemon_thread call | Run daemon_thread

fun lock_step :: "lock_event \<Rightarrow> locked_system \<Rightarrow> locked_system" where
  "lock_step (Call t c) y = (if code y t = [] \<and> makes_call t c then begin_call t c y else y)"
| "lock_step (Run t) y = (case code y t of [] \<Rightarrow> y | i # c \<Rightarrow> run_instr t i c y)"

text \<open>Whether a thread's next step is possible, and whom it waits for when it is not.\<close>

definition can_step :: "locked_system \<Rightarrow> daemon_thread \<Rightarrow> bool" where
  "can_step y t = (case code y t of [] \<Rightarrow> False | Lock m # c \<Rightarrow> holder y m = None | _ \<Rightarrow> True)"

definition waits_for :: "locked_system \<Rightarrow> daemon_thread \<Rightarrow> daemon_thread \<Rightarrow> bool" where
  "waits_for y t u = (case code y t of Lock m # c \<Rightarrow> holder y m = Some u | _ \<Rightarrow> False)"

text \<open>
  What a step needs: the mutex of what it touches; to release only what one holds; and not to
  lock again what one holds, which \<open>std::mutex\<close> does not allow.
\<close>

definition step_allowed :: "locked_system \<Rightarrow> daemon_thread \<Rightarrow> bool" where
  "step_allowed y t = (case code y t of [] \<Rightarrow> True | i # c \<Rightarrow> (case i of
     Lock m \<Rightarrow> holder y m \<noteq> Some t
   | Unlock m \<Rightarrow> holder y m = Some t
   | Write_field w \<Rightarrow> holder y State_mu = Some t
   | Read_fields \<Rightarrow> holder y State_mu = Some t
   | Op_body e \<Rightarrow> holder y Match_mu = Some t
   | Read_match \<Rightarrow> holder y Match_mu = Some t))"

section \<open>The locking discipline\<close>

text \<open>The mutexes a thread holds, innermost first.\<close>

definition held :: "locked_system \<Rightarrow> daemon_thread \<Rightarrow> mutex list" where
  "held y t = filter (\<lambda>m. holder y m = Some t) [State_mu, Match_mu]"

definition writes_of :: "instr list \<Rightarrow> state_write list" where
  "writes_of c = [w. Write_field w \<leftarrow> c]"

text \<open>
  Code that, begun with the mutexes \<open>hs\<close>, releases them in reverse order, touches only what it has
  locked, and takes the controller's mutex first and gives it back last.
\<close>

fun disciplined :: "mutex list \<Rightarrow> instr list \<Rightarrow> bool" where
  "disciplined hs [] \<longleftrightarrow> hs = []"
| "disciplined hs (Lock m # c) \<longleftrightarrow> m \<notin> set hs \<and> (m = Match_mu \<longrightarrow> hs = [] \<and> writes_of c = [])
     \<and> disciplined (m # hs) c"
| "disciplined hs (Unlock m # c) \<longleftrightarrow> hs \<noteq> [] \<and> hd hs = m \<and> (m = Match_mu \<longrightarrow> c = []) \<and> disciplined (tl hs) c"
| "disciplined hs (Write_field w # c) \<longleftrightarrow> State_mu \<in> set hs \<and> disciplined hs c"
| "disciplined hs (Read_fields # c) \<longleftrightarrow> State_mu \<in> set hs \<and> disciplined hs c"
| "disciplined hs (Op_body e # c) \<longleftrightarrow> hs = [Match_mu] \<and> c = [Unlock Match_mu]"
| "disciplined hs (Read_match # c) \<longleftrightarrow> Match_mu \<in> set hs \<and> disciplined hs c"

lemma writes_of_simps [simp]:
  "writes_of [] = []" "writes_of (a @ b) = writes_of a @ writes_of b"
  "writes_of (i # c) = (case i of Write_field w \<Rightarrow> [w] | _ \<Rightarrow> []) @ writes_of c"
  by (simp_all add: writes_of_def split: instr.split)

lemma setters_code_simps [simp]:
  "setters_code [] = []"
  "setters_code (w # ws) = [Lock State_mu, Write_field w, Unlock State_mu] @ setters_code ws"
  by (simp_all add: setters_code_def setter_code_def lock_guard_def)

lemma writes_of_setters [simp]: "writes_of (setters_code ws) = ws"
  by (induction ws) simp_all

lemma disciplined_setters:
  "State_mu \<notin> set hs \<Longrightarrow> disciplined hs (setters_code ws @ c) \<longleftrightarrow> disciplined hs c"
  by (induction ws) simp_all

lemmas program_defs =
  op_code_def snapshot_code_def match_snapshot_code_def state_code_def lock_guard_def

lemma disciplined_programs [simp]:
  "disciplined [] (op_code e)" "disciplined [] snapshot_code" "disciplined [] state_code"
  "disciplined [] (setters_code ws)"
  using disciplined_setters [of "[]" ws "[]"] by (simp_all add: program_defs)

definition well_locked :: "locked_system \<Rightarrow> bool" where
  "well_locked y \<longleftrightarrow> (\<forall>t. disciplined (held y t) (code y t))"

lemma held_cong: "holder y' = holder y \<Longrightarrow> held y' = held y"
  by (simp add: held_def fun_eq_iff)

lemma held_update [simp]:
  "held (y\<lparr>code := f\<rparr>) = held y" "held (y\<lparr>lk_state := a\<rparr>) = held y"
  "held (y\<lparr>lk_match := b\<rparr>) = held y" "held (y\<lparr>lk_sent := e\<rparr>) = held y"
  by (rule held_cong; simp)+

lemma held_mem [simp]: "m \<in> set (held y t) \<longleftrightarrow> holder y m = Some t"
  by (cases m) (simp_all add: held_def)

lemma held_eq:
  "held y t = [] \<longleftrightarrow> holder y State_mu \<noteq> Some t \<and> holder y Match_mu \<noteq> Some t"
  "held y t = [Match_mu] \<longleftrightarrow> holder y State_mu \<noteq> Some t \<and> holder y Match_mu = Some t"
  by (auto simp: held_def)

lemma well_lockedI:
  assumes "well_locked y" "\<And>u. u \<noteq> t \<Longrightarrow> held y' u = held y u \<and> code y' u = code y u"
    and "disciplined (held y' t) (code y' t)"
  shows "well_locked y'"
  using assms unfolding well_locked_def by metis

lemma well_locked_call:
  assumes "well_locked y" "code y t = []"
  shows "well_locked (begin_call t c y)"
proof (rule well_lockedI [OF assms(1)])
  from assms have "held y t = []" unfolding well_locked_def by (metis disciplined.simps(1))
  moreover have h: "held (begin_call t c y) = held y"
    by (rule held_cong) (cases c; simp split: prod.split)
  ultimately show "disciplined (held (begin_call t c y) t) (code (begin_call t c y) t)"
    by (cases c) (simp_all split: prod.split)
  show "held (begin_call t c y) u = held y u \<and> code (begin_call t c y) u = code y u" if "u \<noteq> t" for u
    using that h by (cases c) (simp_all split: prod.split)
qed

lemma held_after:
  assumes "holder y m = None" "m = Match_mu \<Longrightarrow> held y t = []"
  shows "held (y\<lparr>holder := (holder y)(m := Some t)\<rparr>) t = m # held y t"
  using assms by (cases m) (auto simp: held_def split: if_splits)

lemma held_released:
  assumes "held y t \<noteq> []" "hd (held y t) = m"
  shows "held (y\<lparr>holder := (holder y)(m := None)\<rparr>) t = tl (held y t)"
  using assms by (cases m) (auto simp: held_def split: if_splits)

lemma well_locked_run:
  assumes "well_locked y" "code y t = i # c"
  shows "well_locked (run_instr t i c y)"
proof (rule well_lockedI [OF assms(1)])
  from assms have d: "disciplined (held y t) (i # c)" unfolding well_locked_def by metis
  show "held (run_instr t i c y) u = held y u \<and> code (run_instr t i c y) u = code y u" if "u \<noteq> t" for u
    using that d by (cases i) (auto simp: held_def split: prod.split if_splits)
  show "disciplined (held (run_instr t i c y) t) (code (run_instr t i c y) t)"
  proof (cases i)
    case (Lock m)
    show ?thesis
    proof (cases "holder y m")
      case None
      from Lock d have "m = Match_mu \<Longrightarrow> held y t = []" by simp
      with None have "held (run_instr t i c y) t = m # held y t"
        by (simp add: Lock held_after)
      with d None show ?thesis by (simp add: Lock)
    next
      case (Some u)
      with d assms(2) show ?thesis by (simp add: Lock)
    qed
  next
    case (Unlock m)
    with d show ?thesis by (simp add: held_released)
  next
    case (Op_body e)
    with d show ?thesis
      by (auto simp: disciplined_setters split: prod.split)
  qed (use d in simp_all)
qed

lemma well_locked_new: "well_locked (new_locked_system d)"
  by (simp add: well_locked_def new_locked_system_def held_def)

lemma well_locked_steps: "well_locked y \<Longrightarrow> well_locked (fold lock_step es y)"
proof (induction es arbitrary: y)
  case (Cons e es)
  have "well_locked (lock_step e y)"
    using Cons.prems by (cases e) (simp_all add: well_locked_call well_locked_run split: list.split)
  with Cons.IH show ?case by simp
qed simp

lemmas well_locked_reachable = well_locked_steps [OF well_locked_new]

section \<open>No deadlock\<close>

lemma well_lockedD: "well_locked y \<Longrightarrow> disciplined (held y t) (code y t)"
  by (simp add: well_locked_def)

lemma holder_busy: "well_locked y \<Longrightarrow> holder y m = Some u \<Longrightarrow> code y u \<noteq> []"
  using well_lockedD [of y u] held_mem [of m y u] by (cases "code y u") auto

lemma state_holder_steps:
  assumes "well_locked y" "holder y State_mu = Some u"
  shows "can_step y u"
proof -
  from holder_busy [OF assms] obtain i c where c: "code y u = i # c" by (cases "code y u") auto
  have "i \<noteq> Lock m" for m
    using well_lockedD [OF assms(1), of u] assms(2) c by (cases m) (auto simp: held_eq)
  with c show ?thesis by (simp add: can_step_def split: instr.split)
qed

text \<open>A thread waits for one that can go on, or for one that waits for the state's holder.\<close>

lemma blocked_chain:
  assumes "well_locked y" "code y t \<noteq> []"
  shows "can_step y t \<or> (\<exists>u. waits_for y t u \<and> (can_step y u \<or> (\<exists>v. waits_for y u v \<and> can_step y v)))"
proof -
  have wait: "can_step y t \<or> (\<exists>m u. code y t = Lock m # tl (code y t) \<and> holder y m = Some u)"
    if "code y t \<noteq> []" for t
    using that by (cases "code y t") (auto simp: can_step_def split: instr.split)
  have state: "can_step y t \<or> (\<exists>u. waits_for y t u \<and> can_step y u)" if "code y t \<noteq> []" "holder y Match_mu = Some t" for t
  proof -
    from wait [OF that(1)] consider "can_step y t" |
      m u where "code y t = Lock m # tl (code y t)" "holder y m = Some u" by blast
    then show ?thesis
    proof cases
      case (2 m u)
      moreover have "m = State_mu"
        using well_lockedD [OF assms(1), of t] 2(1) that(2) held_mem [of Match_mu y t]
        by (cases m) (auto dest: arg_cong [of _ _ "disciplined (held y t)"])
      ultimately have "waits_for y t u" "can_step y u"
        using state_holder_steps [OF assms(1)] by (auto simp: waits_for_def split: list.split)
      then show ?thesis by blast
    qed blast
  qed
  from wait [OF assms(2)] consider "can_step y t" |
      m u where "code y t = Lock m # tl (code y t)" "holder y m = Some u" by blast
  then show ?thesis
  proof cases
    case (2 m u)
    then have w: "waits_for y t u" by (auto simp: waits_for_def split: list.split)
    have "can_step y u \<or> (\<exists>v. waits_for y u v \<and> can_step y v)"
    proof (cases m)
      case State_mu
      with 2(2) assms(1) show ?thesis by (simp add: state_holder_steps)
    next
      case Match_mu
      with 2(2) holder_busy [OF assms(1)] show ?thesis by (intro state) auto
    qed
    with w show ?thesis by blast
  qed blast
qed

section \<open>Every call finishes\<close>

text \<open>Steps a program has left at most: the body of an operation makes up to three setter calls.\<close>

definition work :: "instr list \<Rightarrow> nat" where
  "work c = sum_list (map (\<lambda>i. case i of Op_body e \<Rightarrow> 10 | _ \<Rightarrow> 1) c)"

lemma work_simps [simp]:
  "work [] = 0" "work (a @ b) = work a + work b"
  "work (i # c) = (case i of Op_body e \<Rightarrow> 10 | _ \<Rightarrow> 1) + work c"
  by (simp_all add: work_def)

lemma work_setters [simp]: "work (setters_code ws) = 3 * length ws"
  by (induction ws) simp_all

lemma work_0 [simp]: "work c = 0 \<longleftrightarrow> c = []"
  by (cases c) (simp_all split: instr.split)

lemma op_writes_length: "op_writes e c = (c', ws) \<Longrightarrow> length ws \<le> 3"
  using op_writes_cases [of e c c' ws] by (cases "\<exists>w. e = Manual w") (auto simp: phase_writes_command)

lemma run_instr_work:
  assumes "code y t = i # c" "can_step y t"
  shows "work (code (run_instr t i c y) t) < work (i # c)"
    and "u \<noteq> t \<Longrightarrow> code (run_instr t i c y) u = code y u"
  using assms by (cases i; auto simp: can_step_def dest: op_writes_length split: prod.split)+

definition busy :: "locked_system \<Rightarrow> daemon_thread set" where
  "busy y = {t. code y t \<noteq> []}"

definition remaining :: "locked_system \<Rightarrow> nat" where
  "remaining y = (\<Sum>t \<in> busy y. work (code y t))"

lemma remaining_superset: "finite T \<Longrightarrow> busy y \<subseteq> T \<Longrightarrow> remaining y = (\<Sum>t \<in> T. work (code y t))"
  unfolding remaining_def by (rule sum.mono_neutral_left) (auto simp: busy_def)

lemma busy_step:
  "busy (lock_step (Run t) y) \<subseteq> busy y" "busy (lock_step (Call t c) y) \<subseteq> insert t (busy y)"
proof -
  have other: "code (run_instr t i c y) u = code y u" if "u \<noteq> t" for u i c
    using that by (cases i) (simp_all split: prod.split)
  show "busy (lock_step (Run t) y) \<subseteq> busy y"
  proof
    fix u
    assume "u \<in> busy (lock_step (Run t) y)"
    with other [of u] show "u \<in> busy y"
      by (cases "u = t"; cases "code y t") (simp_all add: busy_def)
  qed
  show "busy (lock_step (Call t c) y) \<subseteq> insert t (busy y)"
    by (cases c) (auto simp: busy_def split: prod.splits if_splits)
qed

lemma finite_busy: "finite (busy y) \<Longrightarrow> finite (busy (fold lock_step es y))"
proof (induction es arbitrary: y)
  case (Cons e es)
  have "finite (busy (lock_step e y))"
    using busy_step Cons.prems by (cases e) (metis finite_insert finite_subset)+
  with Cons.IH show ?case by simp
qed simp

lemma remaining_step:
  assumes "finite (busy y)" "can_step y t"
  shows "remaining (lock_step (Run t) y) < remaining y"
proof -
  from assms(2) obtain i c where c: "code y t = i # c" by (cases "code y t") (auto simp: can_step_def)
  have y: "lock_step (Run t) y = run_instr t i c y" by (simp add: c)
  from c have t: "t \<in> busy y" by (simp add: busy_def)
  have "remaining (lock_step (Run t) y) = (\<Sum>u \<in> busy y. work (code (lock_step (Run t) y) u))"
    using assms(1) busy_step(1) by (rule remaining_superset)
  also have "\<dots> < remaining y"
    unfolding remaining_def y using assms(1)
  proof (rule sum_strict_mono_ex1)
    show "\<forall>u \<in> busy y. work (code (run_instr t i c y) u) \<le> work (code y u)"
    proof
      fix u
      show "work (code (run_instr t i c y) u) \<le> work (code y u)"
        using run_instr_work(1) [OF c assms(2)] run_instr_work(2) [OF c assms(2), of u] c
        by (cases "u = t") (simp_all del: work_simps)
    qed
    show "\<exists>u \<in> busy y. work (code (run_instr t i c y) u) < work (code y u)"
      using t run_instr_work(1) [OF c assms(2)] unfolding c by (intro bexI [of _ t]) (simp_all only: c)
  qed
  finally show ?thesis .
qed

text \<open>Schedules in which every step is possible.\<close>

fun possible :: "daemon_thread list \<Rightarrow> locked_system \<Rightarrow> bool" where
  "possible [] y \<longleftrightarrow> True"
| "possible (t # ts) y \<longleftrightarrow> can_step y t \<and> possible ts (lock_step (Run t) y)"

lemma possible_bounded:
  assumes "possible ts y" "finite (busy y)"
  shows "length ts + remaining (fold lock_step (map Run ts) y) \<le> remaining y"
  using assms
proof (induction ts arbitrary: y)
  case (Cons t ts)
  have "finite (busy (lock_step (Run t) y))" using busy_step(1) Cons.prems(2) by (rule finite_subset)
  with Cons remaining_step [of y t] show ?case by fastforce
qed simp

section \<open>Seen from outside, the accesses are the atomic steps\<close>

text \<open>The atomic events that a step amounts to.\<close>

fun shown :: "lock_event \<Rightarrow> locked_system \<Rightarrow> sys_event list" where
  "shown (Call t c) y = (if code y t = [] \<and> makes_call t c then (case c of
       Ingest_pass nb ni \<Rightarrow> [Gamepad_pass nb ni] | Form body \<Rightarrow> [Web_post body] | _ \<Rightarrow> []) else [])"
| "shown (Run t) y = (case code y t of [] \<Rightarrow> [] | i # c \<Rightarrow> (case i of
       Op_body e \<Rightarrow> [Match_op e]
     | Write_field w \<Rightarrow> [if holder y Match_mu = Some t then Match_write
         else (case t of Worker n \<Rightarrow> Web_write (form_of y n) | _ \<Rightarrow> Gamepad_write)]
     | Read_fields \<Rightarrow> (if t = Publisher_thread then [Publish] else [])
     | _ \<Rightarrow> []))"

fun shown_run :: "lock_event list \<Rightarrow> locked_system \<Rightarrow> sys_event list" where
  "shown_run [] y = []"
| "shown_run (e # es) y = shown e y @ shown_run es (lock_step e y)"

text \<open>Workers in the middle of a form, and the correspondence of the two states.\<close>

definition posting :: "locked_system \<Rightarrow> nat \<Rightarrow> bool" where
  "posting y n \<longleftrightarrow> holder y Match_mu \<noteq> Some (Worker n) \<and> writes_of (code y (Worker n)) \<noteq> []"

definition matches :: "locked_system \<Rightarrow> system \<Rightarrow> bool" where
  "matches y s \<longleftrightarrow> sys_state s = lk_state y \<and> sys_match s = lk_match y \<and> sys_gamepad s = lk_gamepad y
     \<and> sent s = lk_sent y
     \<and> match_todo s = (case holder y Match_mu of None \<Rightarrow> [] | Some t \<Rightarrow> writes_of (code y t))
     \<and> gamepad_todo s = writes_of (code y Gamepad_thread) \<and> length (web_todo s) = forms y
     \<and> (\<forall>n. posting y n \<longrightarrow> form_of y n < forms y \<and> web_todo s ! form_of y n = writes_of (code y (Worker n)))
     \<and> inj_on (form_of y) {n. posting y n}"

text \<open>Only the controller's operations and the threads that may write do.\<close>

definition roles :: "locked_system \<Rightarrow> bool" where
  "roles y \<longleftrightarrow> (\<forall>t \<in> {Gamepad_thread, Publisher_thread}.
       holder y Match_mu \<noteq> Some t \<and> Lock Match_mu \<notin> set (code y t))
     \<and> writes_of (code y Publisher_thread) = []
     \<and> (holder y Match_mu \<noteq> Some Match_thread \<longrightarrow> writes_of (code y Match_thread) = [])"

lemma writes_of_programs [simp]:
  "writes_of (op_code e) = []" "writes_of snapshot_code = []" "writes_of state_code = []"
  by (simp_all add: program_defs)

lemma no_match_mu [simp]:
  "Lock Match_mu \<notin> set (setters_code ws)" "Lock Match_mu \<notin> set snapshot_code"
  by (induction ws) (simp_all add: program_defs)

lemma roles_step:
  assumes "well_locked y" "roles y"
  shows "roles (lock_step e y)"
proof (cases e)
  case (Call t c)
  show ?thesis
  proof (cases "code y t = [] \<and> makes_call t c")
    case True
    then show ?thesis using assms(2) unfolding Call
      by (cases t; cases c) (auto simp: roles_def makes_call_def split: prod.split)
  next
    case False
    with Call assms(2) show ?thesis by auto
  qed
next
  case (Run t)
  show ?thesis
  proof (cases "code y t")
    case (Cons i c)
    with well_lockedD [OF assms(1), of t] have d: "disciplined (held y t) (i # c)" by simp
    have "\<And>e. i = Op_body e \<Longrightarrow> holder y Match_mu = Some t" using d by (auto simp: held_eq)
    moreover have "i = Unlock Match_mu \<Longrightarrow> holder y Match_mu = Some t \<and> c = []"
      using d held_mem [of Match_mu y t] by (cases "held y t") auto
    ultimately show ?thesis using assms(2) Cons unfolding Run
      by (cases t; cases i) (auto simp: roles_def split: prod.split)
  qed (simp add: Run assms(2))
qed

lemma matches_cong:
  assumes "lk_state y' = lk_state y" "lk_match y' = lk_match y" "lk_gamepad y' = lk_gamepad y"
    "lk_sent y' = lk_sent y" "forms y' = forms y" "form_of y' = form_of y"
    and "holder y' Match_mu = holder y Match_mu" "\<And>t. writes_of (code y' t) = writes_of (code y t)"
  shows "matches y' s = matches y s"
proof -
  have "posting y' = posting y" by (simp add: posting_def fun_eq_iff assms)
  then show ?thesis by (simp add: matches_def assms cong: option.case_cong)
qed

lemma idle_not_posting: "code y (Worker n) = [] \<Longrightarrow> \<not> posting y n"
  by (simp add: posting_def)

lemma matches_call:
  assumes "well_locked y" "matches y s"
  shows "matches (lock_step (Call t c) y) (fold sys_step (shown (Call t c) y) s)"
proof (cases "code y t = [] \<and> makes_call t c")
  case True
  from True well_lockedD [OF assms(1), of t] have free: "holder y Match_mu \<noteq> Some t" by (simp add: held_eq)
  have same: "matches (y\<lparr>code := (code y)(t := p)\<rparr>) s" if "writes_of p = []" for p
    using assms(2) by (subst matches_cong [of _ y]) (simp_all add: True that)
  show ?thesis
  proof (cases c)
    case (Ingest_pass nb ni)
    with True have t: "t = Gamepad_thread" by (cases t) (simp_all add: makes_call_def split: match_event.splits)
    obtain g ws where p: "pass_writes nb ni (lk_gamepad y) = (g, ws)" by force
    let ?y = "begin_call t c y"
    have "posting ?y = posting y" by (simp add: posting_def fun_eq_iff Ingest_pass p t)
    then show ?thesis using assms(2) True free t p
      by (auto simp: Ingest_pass matches_def split: option.split)
  next
    case (Form body)
    with True obtain n where t: "t = Worker n" by (cases t) (simp_all add: makes_call_def split: match_event.splits)
    let ?y = "begin_call t c y"
    have p: "posting ?y m \<longleftrightarrow> (if m = n then control_writes body \<noteq> [] else posting y m)" for m
      using free by (simp add: posting_def Form t)
    have old: "form_of y m < forms y" if "posting y m" for m using assms(2) that by (simp add: matches_def)
    have inj: "inj_on (form_of y) {m. posting y m}" using assms(2) by (simp add: matches_def)
    have f: "form_of ?y m = (if m = n then forms y else form_of y m)" for m by (simp add: Form t)
    have "inj_on (form_of ?y) {m. posting ?y m}"
    proof (rule inj_onI)
      fix m m'
      assume m: "m \<in> {m. posting ?y m}" "m' \<in> {m. posting ?y m}" and eq: "form_of ?y m = form_of ?y m'"
      then show "m = m'"
        using old [of m] old [of m'] inj_onD [OF inj, of m m'] p [of m] p [of m'] f [of m] f [of m']
        by (cases "m = n"; cases "m' = n") (simp_all split: if_splits)
    qed
    moreover have "form_of ?y m < forms ?y \<and> (web_todo s @ [control_writes body]) ! form_of ?y m
        = writes_of (code ?y (Worker m))" if "posting ?y m" for m
      using that assms(2) p [of m] old [of m]
      by (cases "m = n") (auto simp: matches_def Form t nth_append)
    ultimately show ?thesis using assms(2) True free
      by (auto simp: matches_def Form t split: option.split)
  qed (use True in \<open>simp_all add: same\<close>)
qed (use assms(2) in auto)

lemma matches_write:
  assumes "roles y" "matches y s" "code y t = Write_field w # c"
  shows "matches (lock_step (Run t) y) (fold sys_step (shown (Run t) y) s)"
proof -
  let ?y = "y\<lparr>lk_state := apply_write w (lk_state y), code := (code y)(t := c)\<rparr>"
  have y: "lock_step (Run t) y = ?y" by (simp add: assms(3))
  have sub: "posting ?y m \<Longrightarrow> posting y m" for m
    using assms(3) by (cases "t = Worker m") (auto simp: posting_def)
  have inj: "inj_on (form_of y) {m. posting y m}" using assms(2) by (simp add: matches_def)
  have inj': "inj_on (form_of ?y) {m. posting ?y m}"
    by (rule inj_on_subset [of _ "{m. posting y m}"]) (use inj sub in auto)
  show ?thesis
  proof (cases "holder y Match_mu = Some t")
    case True
    with assms(1) have t: "t \<noteq> Gamepad_thread" by (auto simp: roles_def)
    have "posting ?y m \<Longrightarrow> t \<noteq> Worker m" for m using True by (auto simp: posting_def)
    with True assms(2,3) t sub inj' show ?thesis unfolding y by (auto simp: matches_def)
  next
    case free: False
    have same: "(case holder y Match_mu of None \<Rightarrow> [] | Some u \<Rightarrow> writes_of (code ?y u))
        = (case holder y Match_mu of None \<Rightarrow> [] | Some u \<Rightarrow> writes_of (code y u))"
      using free by (simp split: option.split)
    show ?thesis
    proof (cases t)
      case (Worker n)
      with free assms(3) have n: "posting y n" by (simp add: posting_def)
      with assms(2) have i: "form_of y n < length (web_todo s)" "web_todo s ! form_of y n = w # writes_of c"
        by (simp_all add: matches_def Worker [symmetric] assms(3))
      have "form_of y m < forms y \<and> (web_todo s)[form_of y n := writes_of c] ! form_of y m
          = writes_of (code ?y (Worker m))" if "posting ?y m" for m
        using i assms(2) sub [OF that] n inj_onD [OF inj, of m n]
        by (cases "m = n") (auto simp: matches_def Worker nth_list_update)
      moreover have sh: "fold sys_step (shown (Run t) y) s
          = s\<lparr>sys_state := apply_write w (sys_state s), web_todo := (web_todo s)[form_of y n := writes_of c]\<rparr>"
        using i free assms(3) by (simp add: Worker)
      ultimately show ?thesis
        using assms(2) free inj' unfolding y sh by (auto simp: matches_def Worker split: option.split)
    next
      case Gamepad_thread
      with assms(2,3) free same sub inj' show ?thesis unfolding y by (auto simp: matches_def)
    qed (use assms free in \<open>auto simp: roles_def\<close>)
  qed
qed

lemma matches_run:
  assumes "well_locked y" "roles y" "matches y s"
  shows "matches (lock_step (Run t) y) (fold sys_step (shown (Run t) y) s)"
proof (cases "code y t")
  case (Cons i c)
  with well_lockedD [OF assms(1), of t] have d: "disciplined (held y t) (i # c)" by simp
  have same: "matches y' s"
    if "lk_state y' = lk_state y" "lk_match y' = lk_match y" "lk_gamepad y' = lk_gamepad y"
      "lk_sent y' = lk_sent y" "forms y' = forms y" "form_of y' = form_of y"
      "holder y' Match_mu = holder y Match_mu" "code y' = (code y)(t := c)" "writes_of [i] = []" for y'
    using assms(3) that(9) by (subst matches_cong [of _ y]) (simp_all add: that(1-8) Cons)
  show ?thesis
  proof (cases i)
    case (Write_field w)
    with assms(2,3) Cons show ?thesis by (intro matches_write) simp_all
  next
    case (Lock m)
    show ?thesis
    proof (cases "holder y m = None \<and> m = Match_mu")
      case True
      let ?y = "y\<lparr>holder := (holder y)(Match_mu := Some t), code := (code y)(t := c)\<rparr>"
      from True have m: "m = Match_mu" "holder y Match_mu = None" by auto
      then have y: "lock_step (Run t) y = ?y" and sh: "fold sys_step (shown (Run t) y) s = s"
        by (simp_all add: Cons Lock)
      have none: "writes_of (code y t) = []" "writes_of c = []" using d Lock True Cons by simp_all
      have p: "posting ?y = posting y" using none True by (auto simp: posting_def fun_eq_iff)
      from assms(3) True none show ?thesis
        unfolding y sh by (auto simp: matches_def p)
    next
      case False
      then show ?thesis using same [of "lock_step (Run t) y"] assms(3) by (cases m) (auto simp: Cons Lock)
    qed
  next
    case (Unlock m)
    show ?thesis
    proof (cases m)
      case Match_mu
      let ?y = "y\<lparr>holder := (holder y)(Match_mu := None), code := (code y)(t := c)\<rparr>"
      have c: "c = []" "holder y Match_mu = Some t"
        using d Unlock Match_mu held_mem [of Match_mu y t] by (cases "held y t"; auto)+
      have y: "lock_step (Run t) y = ?y" and sh: "fold sys_step (shown (Run t) y) s = s"
        by (simp_all add: Cons Unlock Match_mu)
      have none: "writes_of (code y t) = []" "writes_of c = []" using c Unlock Match_mu Cons by simp_all
      have p: "posting ?y = posting y" using none c by (auto simp: posting_def fun_eq_iff)
      from assms(3) c(2) none show ?thesis
        unfolding y sh by (auto simp: matches_def p)
    qed (use same [of "lock_step (Run t) y"] Unlock Cons in simp)
  next
    case (Op_body e)
    have c: "c = [Unlock Match_mu]" "holder y Match_mu = Some t" using d by (auto simp: Op_body held_eq)
    with assms(2) have t: "t \<noteq> Gamepad_thread" by (auto simp: roles_def)
    obtain mc ws where ws: "op_writes e (lk_match y) = (mc, ws)" by force
    let ?y = "y\<lparr>lk_match := mc, code := (code y)(t := setters_code ws @ c)\<rparr>"
    have y: "lock_step (Run t) y = ?y"
      by (simp add: Cons Op_body ws)
    have none: "writes_of (code y t) = []" using c Cons Op_body by simp
    have p: "posting ?y = posting y" using none c by (auto simp: posting_def fun_eq_iff)
    have none': "writes_of c = []" using c by simp
    from assms(3) c(2) none have "match_todo s = []" by (simp add: matches_def)
    with assms(3) ws have sh: "fold sys_step (shown (Run t) y) s = s\<lparr>sys_match := mc, match_todo := ws\<rparr>"
      by (simp add: matches_def Cons Op_body)
    from assms(3) c(2) none' t show ?thesis
      unfolding y sh by (auto simp: matches_def p posting_def)
  next
    case Read_fields
    show ?thesis
    proof (cases "t = Publisher_thread")
      case True
      have "matches (y\<lparr>code := (code y)(t := c)\<rparr>) s" by (rule same) (simp_all add: Read_fields)
      then show ?thesis using True Cons
        by (auto simp: Read_fields matches_def posting_def split: option.splits)
    qed (use same [of "lock_step (Run t) y"] Cons in \<open>simp add: Read_fields\<close>)
  next
    case Read_match
    with Cons show ?thesis using same [of "lock_step (Run t) y"] by simp
  qed
qed (use assms(3) in auto)

lemma matches_new: "matches (new_locked_system d) (new_system d)"
  by (simp add: matches_def new_locked_system_def new_system_def posting_def)

lemma roles_new: "roles (new_locked_system d)"
  by (simp add: roles_def new_locked_system_def)

lemma matches_steps:
  assumes "well_locked y" "roles y" "matches y s"
  shows "matches (fold lock_step es y) (fold sys_step (shown_run es y) s)"
  using assms
proof (induction es arbitrary: y s)
  case (Cons e es)
  have "well_locked (lock_step e y)"
    using well_locked_steps [OF Cons.prems(1), of "[e]"] by simp
  moreover have "matches (lock_step e y) (fold sys_step (shown e y) s)"
    using Cons.prems by (cases e) (simp_all only: matches_call matches_run)
  ultimately show ?case using Cons.IH roles_step [OF Cons.prems(1,2)] by simp
qed simp

section \<open>Properties\<close>

text \<open>
  C14 (safety): in whatever order the threads run, a thread touches the shared state only with
  the state's mutex, the match only with the controller's; it releases only a mutex it holds
  and never locks one it holds already.
\<close>

theorem accesses_hold_their_mutex: "step_allowed (fold lock_step es (new_locked_system d)) t"
proof -
  let ?y = "fold lock_step es (new_locked_system d)"
  show ?thesis
  proof (cases "code ?y t")
    case (Cons i c)
    then have "disciplined (held ?y t) (i # c)" using well_lockedD [OF well_locked_reachable, of es d t] by simp
    then show ?thesis using held_mem [of _ ?y t]
      by (cases i; cases "held ?y t") (auto simp: step_allowed_def Cons)
  qed (simp add: step_allowed_def)
qed

text \<open>
  C6 (liveness): no deadlock, and every call returns. From any reachable state, whichever
  thread that can go on is run next, the steps left become fewer each time; and when none can go
  on, none has anything left to do. A thread that cannot go on waits for one that can, or for
  one that waits for one that can.
\<close>

theorem calls_always_return:
  fixes es d ts
  defines "y \<equiv> fold lock_step es (new_locked_system d)"
  defines "z \<equiv> fold lock_step (map Run ts) y"
  assumes "possible ts y"
  shows "length ts + remaining z \<le> remaining y \<and> ((\<forall>t. \<not> can_step z t) \<longleftrightarrow> (\<forall>t. code z t = [])) \<and>
    (\<forall>t. code z t = [] \<or> can_step z t \<or>
      (\<exists>u. waits_for z t u \<and> (can_step z u \<or> (\<exists>v. waits_for z u v \<and> can_step z v))))"
proof (intro conjI allI iffI)
  have "finite (busy (new_locked_system d))" by (simp add: busy_def new_locked_system_def)
  then have "finite (busy y)" unfolding y_def by (rule finite_busy)
  with assms(3) show "length ts + remaining z \<le> remaining y" unfolding z_def by (rule possible_bounded)
  have wl: "well_locked z" unfolding z_def y_def by (intro well_locked_steps well_locked_new)
  show "code z t = [] \<or> can_step z t \<or>
      (\<exists>u. waits_for z t u \<and> (can_step z u \<or> (\<exists>v. waits_for z u v \<and> can_step z v)))" for t
    using blocked_chain [OF wl, of t] by blast
  show "code z t = []" if "\<forall>t. \<not> can_step z t" for t
    using blocked_chain [OF wl, of t] that by blast
  show "\<not> can_step z t" if "\<forall>t. code z t = []" for t
    using that by (simp add: can_step_def)
qed

text \<open>A request starts a match while the match thread waits to tick.\<close>

lemma calls_always_return_witness:
  "let y = fold lock_step [Call (Worker 0) (Op (StartMatch 5)), Call Match_thread (Op (Tick 7)), Run (Worker 0)]
         (new_locked_system default_durations);
       z = fold lock_step (map Run [Worker 0, Worker 0, Worker 0]) y
   in 3 + remaining z \<le> remaining y \<and>
     (\<exists>u. waits_for z Match_thread u \<and> (can_step z u \<or> (\<exists>v. waits_for z u v \<and> can_step z v)))"
proof -
  let ?es = "[Call (Worker 0) (Op (StartMatch 5)), Call Match_thread (Op (Tick 7)), Run (Worker 0)]"
  let ?ts = "[Worker 0, Worker 0, Worker 0]"
  let ?y = "fold lock_step ?es (new_locked_system default_durations)"
  let ?z = "fold lock_step (map Run ?ts) ?y"
  have "possible ?ts ?y"
    by (simp add: new_locked_system_def makes_call_def program_defs can_step_def enter_phase_def
        phase_writes_def Let_def)
  from calls_always_return [OF this] have "length ?ts + remaining ?z \<le> remaining ?y"
    "code ?z Match_thread = [] \<or> can_step ?z Match_thread \<or>
      (\<exists>u. waits_for ?z Match_thread u \<and> (can_step ?z u \<or> (\<exists>v. waits_for ?z u v \<and> can_step ?z v)))"
    by blast+
  moreover have "code ?z Match_thread \<noteq> []" "\<not> can_step ?z Match_thread"
    by (simp_all add: new_locked_system_def makes_call_def program_defs can_step_def enter_phase_def
        phase_writes_def Let_def)
  ultimately show ?thesis by (simp only: Let_def list.size) simp
qed


end
