(* ===== verification/Periodic_Task.thy ===== *)
theory Periodic_Task
  imports Surrogate_Prelude
begin

text \<open>
  periodic_task.hpp: the loop every thread of the daemon runs. The environment decides, per
  pass, whether a stop request is seen before or after the sleep, how late the thread wakes,
  and how long its tick takes; \<open>sleep_until\<close> returns no earlier than its deadline (and at once
  when that has passed), as the standard says. The result is the instants the ticks start at;
  a component's run is a fold of its tick over them.
\<close>

section \<open>The loop\<close>

record slot =
  stop_before :: bool
  late :: nat
  stop_after :: bool
  busy :: nat

definition sleep_until :: "int \<Rightarrow> int \<Rightarrow> nat \<Rightarrow> int" where
  "sleep_until now deadline lateness = max now deadline + int lateness"

text \<open>The \<open>while\<close> loop, over the passes observed; all times are in nanoseconds.\<close>

fun periodic_loop :: "int \<Rightarrow> int \<Rightarrow> int \<Rightarrow> slot list \<Rightarrow> int list" where
  "periodic_loop period now deadline [] = []"
| "periodic_loop period now deadline (x # xs) =
    (if stop_before x then []
     else let woke = sleep_until now deadline (late x) in
       if stop_after x then []
       else woke # periodic_loop period (woke + int (busy x)) (deadline + period) xs)"

definition run_periodic :: "int \<Rightarrow> int \<Rightarrow> slot list \<Rightarrow> int list" where
  "run_periodic period_us now xs =
    (let period = ns_of_us period_us in periodic_loop period now (now + period) xs)"

definition keeps_running :: "slot \<Rightarrow> bool" where
  "keeps_running x \<longleftrightarrow> \<not> stop_before x \<and> \<not> stop_after x"

text \<open>The lateness plus the work of a pass.\<close>

definition cost :: "slot \<Rightarrow> int" where
  "cost x = int (late x) + int (busy x)"

lemma loop_running [simp]:
  "keeps_running x \<Longrightarrow> periodic_loop p now dl (x # xs) =
     sleep_until now dl (late x)
       # periodic_loop p (sleep_until now dl (late x) + int (busy x)) (dl + p) xs"
  by (simp add: keeps_running_def Let_def)

lemma loop_stopped [simp]: "\<not> keeps_running x \<Longrightarrow> periodic_loop p now dl (x # xs) = []"
  by (auto simp: keeps_running_def Let_def)

declare periodic_loop.simps(2) [simp del]

lemma loop_length:
  "length (periodic_loop p now dl xs) = length (takeWhile keeps_running xs)"
proof (induction xs arbitrary: now dl)
  case (Cons x xs)
  then show ?case by (cases "keeps_running x") simp_all
qed simp

lemma loop_not_early:
  assumes "n < length (periodic_loop p now dl xs)"
  shows "dl + int n * p \<le> periodic_loop p now dl xs ! n"
  using assms
proof (induction xs arbitrary: now dl n)
  case (Cons x xs)
  from Cons.prems have x: "keeps_running x" by (cases "keeps_running x") simp_all
  show ?case
  proof (cases n)
    case 0
    with x show ?thesis by (simp add: sleep_until_def)
  next
    case (Suc m)
    with x Cons.prems Cons.IH [of m "sleep_until now dl (late x) + int (busy x)" "dl + p"]
    show ?thesis by (simp add: algebra_simps)
  qed
qed simp

text \<open>
  The lag at a tick's deadline shrinks by the slack of each pass; with no lag and passes that
  fit the period it stays zero.
\<close>

lemma loop_lag:
  assumes "list_all (\<lambda>x. cost x \<le> c) xs" "c \<le> p" "n < length (periodic_loop p now dl xs)"
  shows "periodic_loop p now dl xs ! n \<le>
    dl + int n * p + max 0 (now - dl - int n * (p - c)) + int (late (xs ! n))"
  using assms(1,3)
proof (induction xs arbitrary: now dl n)
  case (Cons x xs)
  from Cons.prems have x: "keeps_running x" by (cases "keeps_running x") simp_all
  show ?case
  proof (cases n)
    case 0
    with x show ?thesis by (simp add: sleep_until_def)
  next
    case (Suc m)
    let ?now = "sleep_until now dl (late x) + int (busy x)"
    from Cons.prems(1) have "cost x \<le> c" by simp
    then have "?now - (dl + p) \<le> max 0 (now - dl) - (p - c)"
      by (simp add: sleep_until_def cost_def)
    moreover have "0 \<le> int m * (p - c)" using assms(2) by simp
    ultimately have "max 0 (?now - (dl + p) - int m * (p - c)) \<le> max 0 (now - dl - int n * (p - c))"
      using Suc assms(2) by (simp add: algebra_simps)
    moreover from Suc x Cons.prems Cons.IH [of m ?now "dl + p"] have
      "periodic_loop p ?now (dl + p) xs ! m \<le>
        dl + p + int m * p + max 0 (?now - (dl + p) - int m * (p - c)) + int (late (xs ! m))"
      by simp
    ultimately show ?thesis using Suc x by (simp add: algebra_simps)
  qed
qed simp

lemma loop_on_time:
  assumes "list_all (\<lambda>x. cost x \<le> p) xs" "now \<le> dl" "n < length (periodic_loop p now dl xs)"
  shows "periodic_loop p now dl xs ! n = dl + int n * p + int (late (xs ! n))"
  using assms
proof (induction xs arbitrary: now dl n)
  case (Cons x xs)
  from Cons.prems have x: "keeps_running x" by (cases "keeps_running x") simp_all
  have woke: "sleep_until now dl (late x) = dl + int (late x)"
    using Cons.prems(2) by (simp add: sleep_until_def)
  show ?case
  proof (cases n)
    case 0
    with x woke show ?thesis by simp
  next
    case (Suc m)
    from Cons.prems(1) have "cost x \<le> p" by simp
    then have "dl + int (late x) + int (busy x) \<le> dl + p" by (simp add: cost_def)
    with Suc x woke Cons show ?thesis by (simp add: algebra_simps)
  qed
qed simp

text \<open>Ticks follow each other, no further apart than the period plus one pass's cost.\<close>

lemma loop_mono:
  assumes "n < m" "m < length (periodic_loop p now dl xs)"
  shows "periodic_loop p now dl xs ! n \<le> periodic_loop p now dl xs ! m"
  using assms
proof (induction xs arbitrary: now dl n m)
  case (Cons x xs)
  from Cons.prems have x: "keeps_running x" by (cases "keeps_running x") simp_all
  let ?now = "sleep_until now dl (late x) + int (busy x)"
  have ge: "?now \<le> periodic_loop p ?now (dl + p) xs ! k" if "k < length (periodic_loop p ?now (dl + p) xs)" for k
    using that
  proof (induction k)
    case 0
    then show ?case
    proof (cases xs)
      case (Cons y ys)
      with 0 have "keeps_running y" by (cases "keeps_running y") simp_all
      with Cons show ?thesis by (simp add: sleep_until_def)
    qed simp
  next
    case (Suc k)
    with Cons.IH [of k "Suc k"] show ?case by fastforce
  qed
  obtain k where k: "m = Suc k" using Cons.prems(1) by (cases m) auto
  show ?case
  proof (cases n)
    case 0
    with x k Cons.prems(2) ge [of k] show ?thesis by simp
  next
    case (Suc j)
    with x k Cons.prems Cons.IH [of j k ?now "dl + p"] show ?thesis by simp
  qed
qed simp

section \<open>Properties\<close>

text \<open>
  Whatever the delays, the loop ticks exactly once for every pass until the
  first stop request it sees, never skipping a deadline, and the tick of deadline number \<open>n\<close>
  starts no earlier than \<open>n + 1\<close> periods after the loop did.
\<close>

theorem periodic_ticks_every_deadline:
  "let ts = run_periodic period_us t0 xs in
     length ts = length (takeWhile keeps_running xs) \<and>
     list_all2 (\<lambda>n t. t0 + (int n + 1) * ns_of_us period_us \<le> t) [0..<length ts] ts"
proof -
  let ?p = "ns_of_us period_us"
  have "t0 + (int n + 1) * ?p \<le> periodic_loop ?p t0 (t0 + ?p) xs ! n"
    if "n < length (periodic_loop ?p t0 (t0 + ?p) xs)" for n
    using loop_not_early [OF that] by (simp add: algebra_simps)
  then show ?thesis
    by (simp add: run_periodic_def Let_def loop_length list_all2_conv_all_nth)
qed

text \<open>
  As long as lateness and work of every pass fit in the period, there is no drift
  at all: tick number \<open>n\<close> starts \<open>n + 1\<close> periods after the loop did, plus only its own lateness.
\<close>

theorem periodic_no_drift:
  assumes "list_all (\<lambda>x. keeps_running x \<and> cost x \<le> ns_of_us period_us) xs" "0 \<le> period_us"
  shows "run_periodic period_us t0 xs =
    map (\<lambda>n. t0 + (int n + 1) * ns_of_us period_us + int (late (xs ! n))) [0..<length xs]"
proof (rule nth_equalityI)
  let ?p = "ns_of_us period_us"
  have all: "list_all (\<lambda>x. cost x \<le> ?p) xs" "takeWhile keeps_running xs = xs"
    using assms(1) by (auto simp: list_all_iff takeWhile_eq_all_conv)
  show len: "length (run_periodic period_us t0 xs) = length (map (\<lambda>n. t0 + (int n + 1) * ?p
      + int (late (xs ! n))) [0..<length xs])"
    by (simp add: run_periodic_def Let_def loop_length all(2))
  fix n
  assume "n < length (run_periodic period_us t0 xs)"
  with len loop_on_time [OF all(1), of t0 "t0 + ?p" n] assms(2)
  show "run_periodic period_us t0 xs ! n = map (\<lambda>n. t0 + (int n + 1) * ?p
      + int (late (xs ! n))) [0..<length xs] ! n"
    by (simp add: run_periodic_def Let_def algebra_simps ns_of_us_def)
qed

definition pass :: "nat \<Rightarrow> nat \<Rightarrow> slot" where
  "pass l b = \<lparr>stop_before = False, late = l, stop_after = False, busy = b\<rparr>"

lemma periodic_no_drift_witness:
  "run_periodic 20000 0 [pass 100 3000000, pass 0 1000] = [20000100, 40000000]"
  by (subst periodic_no_drift)
    (simp_all add: pass_def keeps_running_def cost_def ns_of_us_def upt_rec)

text \<open>
  After any pause, one tick is fired per missed deadline and the backlog is worked
  off: when every pass costs at most \<open>c\<close> (up to a period), tick \<open>n\<close> of the loop lags its deadline
  by at most the initial lag less \<open>n\<close> times the slack \<open>period - c\<close>, plus its own lateness.
\<close>

theorem periodic_works_off_backlog:
  assumes "list_all (\<lambda>x. keeps_running x \<and> cost x \<le> c) xs" "c \<le> period" "n < length xs"
  shows "periodic_loop period now deadline xs ! n - (deadline + int n * period) \<le>
    max 0 (now - deadline - int n * (period - c)) + int (late (xs ! n))"
proof -
  have all: "list_all (\<lambda>x. cost x \<le> c) xs" "takeWhile keeps_running xs = xs"
    using assms(1) by (auto simp: list_all_iff takeWhile_eq_all_conv)
  with assms(3) have "n < length (periodic_loop period now deadline xs)"
    unfolding loop_length all(2) by simp
  from loop_lag [OF all(1) assms(2) this] show ?thesis by simp
qed

lemma periodic_works_off_backlog_witness:
  "periodic_loop 20 100 20 [pass 0 4, pass 0 4, pass 0 4, pass 0 4, pass 0 4, pass 0 4] ! 5 \<le> 120"
  using periodic_works_off_backlog [of 4 "[pass 0 4, pass 0 4, pass 0 4, pass 0 4, pass 0 4, pass 0 4]" 20 5 100 20]
  by (simp add: pass_def keeps_running_def cost_def)

end
