(* ===== verification/Latency.thy ===== *)
theory Latency
  imports Smartio_Bridge Gamepad_Ingest Publishers Periodic_Task Match_Controller
begin

text \<open>
  How fast the daemon is: the ticks of the components on the threads that run them, with topics
  whose values change in time. A tick sees a topic at the instant it starts, a value held for two
  periods is seen by a tick of a thread that keeps up, and what was seen is acted on at once.
\<close>

section \<open>Ticks of a thread that keeps up\<close>

text \<open>Ticks of an undelayed loop are at most two periods apart.\<close>

lemma loop_spaced:
  assumes "list_all (\<lambda>x. cost x \<le> p) xs" "dl - p \<le> prev" "prev \<le> now" "now \<le> dl"
  shows "spaced (2 * p) prev (periodic_loop p now dl xs)"
  using assms
proof (induction xs arbitrary: prev now dl)
  case (Cons x xs)
  show ?case
  proof (cases "keeps_running x")
    case True
    have woke: "sleep_until now dl (late x) = dl + int (late x)"
      using Cons.prems(4) by (simp add: sleep_until_def)
    from Cons.prems(1) have cost: "int (late x) + int (busy x) \<le> p" by (simp add: cost_def)
    have "spaced (2 * p) (dl + int (late x)) (periodic_loop p (dl + int (late x) + int (busy x)) (dl + p) xs)"
      using Cons.prems(1) cost by (intro Cons.IH) simp_all
    with True woke Cons.prems(2-4) cost show ?thesis by simp
  qed simp
qed simp

lemma spaced_prefix: "spaced g p (xs @ ys) \<Longrightarrow> spaced g p xs"
  by (induction xs arbitrary: p) simp_all

lemma spaced_from:
  assumes "spaced g p ts" "p \<le> s"
  shows "spaced g s (dropWhile (\<lambda>t. t < s) ts)"
  using assms by (induction ts arbitrary: p) auto

text \<open>The ticks begun by an instant, and the last of them.\<close>

definition begun_by :: "int \<Rightarrow> int list \<Rightarrow> int list" where
  "begun_by u ts = takeWhile (\<lambda>t. t \<le> u) ts"

lemma recent_tick:
  assumes "spaced g p ts" "p \<le> u" "t \<in> set ts" "u < t"
  shows "u - g \<le> last (p # begun_by u ts) \<and> last (p # begun_by u ts) \<le> u"
  using assms by (induction ts arbitrary: p) (auto simp: begun_by_def)

lemma keeps_up:
  assumes "list_all (\<lambda>x. cost x \<le> ns_of_us period) xs"
  shows "spaced (2 * ns_of_us period) now (run_periodic period now xs)"
  using loop_spaced [OF assms, of "now + ns_of_us period" now now]
    assms by (cases xs) (auto simp: run_periodic_def Let_def cost_def)

text \<open>A signal held since before the last two periods was seen by the last tick.\<close>

lemma last_tick_sees:
  assumes "list_all (\<lambda>x. cost x \<le> ns_of_us period) xs"
    and "\<exists>t \<in> set (run_periodic period now xs). u < t"
    and "now < u - 2 * ns_of_us period"
    and "\<And>v. u - 2 * ns_of_us period \<le> v \<Longrightarrow> v \<le> u \<Longrightarrow> f v = x"
  shows "begun_by u (run_periodic period now xs) \<noteq> []"
    and "f (last (begun_by u (run_periodic period now xs))) = x"
proof -
  let ?ts = "run_periodic period now xs"
  from assms(1) have "0 \<le> ns_of_us period \<or> xs = []" by (cases xs) (auto simp: cost_def)
  with assms(2,3) have "now \<le> u" by (auto simp: run_periodic_def)
  with recent_tick [OF keeps_up [OF assms(1), of now]] assms(2)
  have l: "u - 2 * ns_of_us period \<le> last (now # begun_by u ?ts)" "last (now # begun_by u ?ts) \<le> u" by blast+
  with assms(3) show "begun_by u ?ts \<noteq> []" by auto
  with l assms(4) show "f (last (begun_by u ?ts)) = x" by simp
qed

section \<open>The components on their threads\<close>

text \<open>
  The \<open>run\<close> functions, observed at an instant \<open>u\<close>: the ticks begun by then, each with the values
  that the topics have when it starts. The kTickPeriods are in milliseconds.
\<close>

definition bridge_thread_run ::
  "'b IGpioBackend \<Rightarrow> (int \<Rightarrow> i64 nt_values) \<Rightarrow> int \<Rightarrow> slot list \<Rightarrow> int
     \<Rightarrow> (ChannelGlue list \<times> 'b \<times> published, unit) act" where
  "bridge_thread_run B nt now xs u =
    bridge_run B (map nt (begun_by u (run_periodic (kBridgeTickPeriod * 1000) now xs)))"

definition gamepad_thread_run ::
  "(int \<Rightarrow> bool nt_values) \<Rightarrow> (int \<Rightarrow> i64 nt_values) \<Rightarrow> int \<Rightarrow> slot list \<Rightarrow> int
     \<Rightarrow> GamepadIngest \<times> DaemonState \<Rightarrow> GamepadIngest \<times> DaemonState" where
  "gamepad_thread_run nb ni now xs u =
    fold (\<lambda>t. gamepad_tick (nb t) (ni t)) (begun_by u (run_periodic (kGamepadTickPeriod * 1000) now xs))"

definition diagnostics_thread_run ::
  "int \<Rightarrow> slot list \<Rightarrow> int \<Rightarrow> DiagnosticsPublisher \<times> CadenceTracker \<times> publications
     \<Rightarrow> DiagnosticsPublisher \<times> CadenceTracker \<times> publications" where
  "diagnostics_thread_run now xs u =
    fold diagnostics_tick (begun_by u (run_periodic (kDiagTickPeriod * 1000) now xs))"

section \<open>Properties\<close>

lemma fold_seen_last:
  assumes "ts \<noteq> []" "f (last ts) = x" "x \<noteq> kSentinel"
  shows "fold (\<lambda>nt. seen (f nt)) ts k = x"
  using assms by (induction ts arbitrary: k rule: rev_induct) (simp_all add: seen_def)

text \<open>
  C8 (bounds): a robot program's command reaches its pin within 40 ms. Let the bridge's thread
  run with its 20 ms period, lateness and work fitting in it, and let a channel's type and
  value topics hold \<open>t\<close> and \<open>v\<close> from 40 ms before an instant \<open>u\<close>; then at \<open>u\<close> the mapped line is
  used as \<open>t\<close> and \<open>v\<close> say.
\<close>

theorem pin_follows_within_40_ms:
  assumes "distinct (map pm_gpio ms)" "m \<in> set ms"
    and "list_all (\<lambda>x. cost x \<le> ns_of_ms kBridgeTickPeriod) xs"
    and "\<exists>tick \<in> set (run_periodic (kBridgeTickPeriod * 1000) now xs). u < tick" "now < u - ns_of_ms 40"
    and "\<And>w. u - ns_of_ms 40 \<le> w \<Longrightarrow> w \<le> u \<Longrightarrow> nt w (io_topic (pm_channel m) ''/type'') = Some t
      \<and> nt w (io_topic (pm_channel m) ''/valset'') = Some v"
    and "t \<noteq> kSentinel" "v \<noteq> kSentinel"
    and "bridge_thread_run (libgpiod_backend L) nt now xs u
        (new_smartio_bridge ms, new_libgpiod_backend, []) = (Inr (), (gs, b, out))"
  shows "line_uses b (pm_gpio m) = use_seen t v"
proof -
  let ?ts = "begun_by u (run_periodic (kBridgeTickPeriod * 1000) now xs)"
  have ms: "ns_of_us (kBridgeTickPeriod * 1000) = ns_of_ms kBridgeTickPeriod"
    "2 * ns_of_ms kBridgeTickPeriod = ns_of_ms 40"
    by (simp_all add: ns_of_us_def ns_of_ms_def kBridgeTickPeriod_def)
  let ?f = "\<lambda>l w. topic_or kSentinel (nt w) (io_topic (pm_channel m) l)"
  note sees = last_tick_sees [of "kBridgeTickPeriod * 1000" xs now u, unfolded ms, OF assms(3-5)]
  have held: "?f ''/type'' w = t" "?f ''/valset'' w = v" if "u - ns_of_ms 40 \<le> w" "w \<le> u" for w
    using assms(6) [OF that] by (simp_all add: topic_or_def)
  have "?f ''/type'' (last ?ts) = t" by (rule sees(2)) (rule held(1))
  moreover have "?f ''/valset'' (last ?ts) = v" by (rule sees(2)) (rule held(2))
  moreover have "?ts \<noteq> []" by (rule sees(1)) (rule held(1))
  ultimately have
    "fold (\<lambda>c. seen (topic_or kSentinel c (io_topic (pm_channel m) ''/type''))) (map nt ?ts) kSentinel = t"
    "fold (\<lambda>c. seen (topic_or kSentinel c (io_topic (pm_channel m) ''/valset''))) (map nt ?ts) kSentinel = v"
    using assms(7,8) by (intro fold_seen_last; simp add: last_map)+
  with started_bridge_use [OF assms(1,2) assms(9) [unfolded bridge_thread_run_def]] show ?thesis
    by (simp only:)
qed

lemma pin_follows_within_40_ms_witness:
  "line_uses (fst (snd (snd (bridge_thread_run (libgpiod_backend quiet_lib) (\<lambda>_. demo_nt) 0
      (replicate 3 (pass 0 0)) 50000000 (new_smartio_bridge demo_pins, new_libgpiod_backend, []))))) 17
    = Some (UseOutput True)"
proof -
  let ?r = "bridge_thread_run (libgpiod_backend quiet_lib) (\<lambda>_. demo_nt) 0
      (replicate 3 (pass 0 0)) 50000000 (new_smartio_bridge demo_pins, new_libgpiod_backend, [])"
  let ?m = "\<lparr>pm_channel = 0, pm_gpio = 17\<rparr>"
  have ticks: "run_periodic (kBridgeTickPeriod * 1000) 0 (replicate 3 (pass 0 0)) = [20000000, 40000000, 60000000]"
    by (simp add: run_periodic_def kBridgeTickPeriod_def ns_of_us_def keeps_running_def pass_def
        sleep_until_def eval_nat_numeral)
  have "fst ?r = Inr ()"
    by (simp add: bridge_thread_run_def ticks begun_by_def new_smartio_bridge_def demo_pins_def new_glue_def
        demo_topics glue_tick_def tick_type_def tick_valset_def tick_sample_def topic_or_def demo_nt_def
        kSentinel_def andThen_def on_channel_def on_type_changed_def on_valset_def sample_input_def
        requested_mode_def new_channel_def on_backend_def gpiod_defs quiet_lib_def new_libgpiod_backend_def
        usable_def int_of_int64_def Let_def)
  then have r: "?r = (Inr (), (fst (snd ?r), fst (snd (snd ?r)), snd (snd (snd ?r))))"
    by (simp add: prod_eq_iff)
  have d: "distinct (map pm_gpio demo_pins)" "?m \<in> set demo_pins" by (simp_all add: demo_pins_def)
  have k: "list_all (\<lambda>x. cost x \<le> ns_of_ms kBridgeTickPeriod) (replicate 3 (pass 0 0))"
    by (simp add: list_all_iff cost_def pass_def ns_of_ms_def kBridgeTickPeriod_def)
  have u: "\<exists>tick \<in> set (run_periodic (kBridgeTickPeriod * 1000) 0 (replicate 3 (pass 0 0))). 50000000 < tick"
    "0 < 50000000 - ns_of_ms 40"
    by (simp_all add: ticks ns_of_ms_def)
  have nt: "demo_nt (io_topic (pm_channel ?m) ''/type'') = Some 1 \<and>
      demo_nt (io_topic (pm_channel ?m) ''/valset'') = Some 255"
    by (simp add: demo_topics demo_nt_def)
  have s: "(1 :: i64) \<noteq> kSentinel" "(255 :: i64) \<noteq> kSentinel" by (simp_all add: kSentinel_def)
  from pin_follows_within_40_ms [OF d k u _ s r] nt
  have "line_uses (fst (snd (snd ?r))) 17 = use_seen 1 255" by simp
  then show ?thesis
    by (simp add: use_seen_def mode_seen_def mode_of_type_def requested_mode_def level_seen_def int_of_int64_def
        kSentinel_def)
qed

section \<open>From the gamepad to the robot\<close>

text \<open>
  The ingest's passes, other threads' writes and the publisher's snapshots, in the order they
  happen, each with its instant.
\<close>

datatype timed_event =
    Pass_at int
  | Write_at int state_write
  | Publish_at int

fun event_time :: "timed_event \<Rightarrow> int" where
  "event_time (Pass_at t) = t"
| "event_time (Write_at t w) = t"
| "event_time (Publish_at t) = t"

record pipeline =
  pl_gamepad :: GamepadIngest
  pl_state :: DaemonState
  pl_views :: "(int \<times> ControlDataView) list"

definition new_pipeline :: "DaemonState \<Rightarrow> pipeline" where
  "new_pipeline s = \<lparr>pl_gamepad = new_gamepad_ingest, pl_state = s, pl_views = []\<rparr>"

fun timed_step :: "(int \<Rightarrow> bool nt_values) \<Rightarrow> (int \<Rightarrow> i64 nt_values) \<Rightarrow> timed_event \<Rightarrow> pipeline \<Rightarrow> pipeline" where
  "timed_step nb ni (Pass_at t) y = (case gamepad_tick (nb t) (ni t) (pl_gamepad y, pl_state y) of
     (g, s) \<Rightarrow> y\<lparr>pl_gamepad := g, pl_state := s\<rparr>)"
| "timed_step nb ni (Write_at t w) y = y\<lparr>pl_state := apply_write w (pl_state y)\<rparr>"
| "timed_step nb ni (Publish_at t) y = y\<lparr>pl_views := pl_views y @ [(t, snapshot_control (pl_state y))]\<rparr>"

definition passes :: "timed_event list \<Rightarrow> int list" where
  "passes es = [t. Pass_at t \<leftarrow> es]"

definition publishes :: "timed_event list \<Rightarrow> int list" where
  "publishes es = [t. Publish_at t \<leftarrow> es]"

definition timed_writes :: "timed_event list \<Rightarrow> state_write list" where
  "timed_writes es = [w. Write_at t w \<leftarrow> es]"

lemma timed_lists [simp]:
  "passes [] = []" "passes (a @ b) = passes a @ passes b"
  "passes (e # es) = (case e of Pass_at t \<Rightarrow> [t] | _ \<Rightarrow> []) @ passes es"
  "publishes [] = []" "publishes (a @ b) = publishes a @ publishes b"
  "publishes (e # es) = (case e of Publish_at t \<Rightarrow> [t] | _ \<Rightarrow> []) @ publishes es"
  "timed_writes [] = []" "timed_writes (a @ b) = timed_writes a @ timed_writes b"
  "timed_writes (e # es) = (case e of Write_at t w \<Rightarrow> [w] | _ \<Rightarrow> []) @ timed_writes es"
  by (simp_all add: passes_def publishes_def timed_writes_def split: timed_event.split)

text \<open>While nobody else writes the e-stop, the state has that of the last pass.\<close>

lemma estop_of_last_pass:
  assumes "\<forall>b. SetEStop b \<notin> set (timed_writes es)"
  shows "let y = fold (timed_step nb ni) es (new_pipeline s) in subs_ok (pl_gamepad y) \<and>
    (if passes es = [] then first_tick (pl_gamepad y)
     else \<not> first_tick (pl_gamepad y) \<and> last_estop_seen (pl_gamepad y) = topic_estop (nb (last (passes es)))
       \<and> ds_e_stop (pl_state y) = topic_estop (nb (last (passes es))))"
  using assms
proof (induction es rule: rev_induct)
  case Nil
  then show ?case by (simp add: new_pipeline_def subs_ok_def new_gamepad_ingest_def)
next
  case (snoc e es)
  show ?case
  proof (cases e)
    case (Pass_at t)
    let ?y = "fold (timed_step nb ni) es (new_pipeline s)"
    obtain g st where y: "gamepad_tick (nb t) (ni t) (pl_gamepad ?y, pl_state ?y) = (g, st)" by force
    have ok: "subs_ok (fst (pl_gamepad ?y, pl_state ?y))" using snoc by (simp add: Let_def)
    have "subs_ok g" "remembers (nb t) (ni t) g"
      using subs_ok_tick [OF ok, of "nb t" "ni t"] remembers_tick [OF ok, of "nb t" "ni t"] y by simp_all
    moreover have "ds_e_stop st = topic_estop (nb t)"
      using snoc ok y gamepad_tick_eq [of "pl_gamepad ?y" "nb t" "ni t" "pl_state ?y"]
      by (auto simp: Let_def split: if_splits)
    ultimately show ?thesis by (simp add: Pass_at y remembers_def)
  next
    case (Write_at t w)
    have "\<forall>b. w \<noteq> SetEStop b" using snoc.prems by (auto simp: Write_at)
    then have "ds_e_stop (apply_write w st) = ds_e_stop st" for st by (cases w) auto
    with snoc show ?thesis by (simp add: Write_at Let_def)
  qed (use snoc in \<open>simp_all add: Let_def\<close>)
qed

lemma views_taken:
  assumes "(u, v) \<in> set (pl_views (fold (timed_step nb ni) es (new_pipeline s)))"
  shows "\<exists>before later. es = before @ Publish_at u # later \<and>
    v = snapshot_control (pl_state (fold (timed_step nb ni) before (new_pipeline s)))"
  using assms
proof (induction es rule: rev_induct)
  case Nil
  then show ?case by (simp add: new_pipeline_def)
next
  case (snoc e es)
  let ?y = "fold (timed_step nb ni) es (new_pipeline s)"
  from snoc.prems consider "(u, v) \<in> set (pl_views ?y)" |
    "e = Publish_at u" "v = snapshot_control (pl_state ?y)"
    by (cases e) (auto split: prod.splits)
  then show ?case
  proof cases
    case 1
    with snoc.IH obtain before later where "es = before @ Publish_at u # later"
      "v = snapshot_control (pl_state (fold (timed_step nb ni) before (new_pipeline s)))" by blast
    then show ?thesis by (intro exI [of _ before] exI [of _ "later @ [e]"]) simp
  next
    case 2
    then show ?thesis by (intro exI [of _ es] exI [of _ "[]"]) simp
  qed
qed

lemma view_times: "map fst (pl_views (fold (timed_step nb ni) es y)) = map fst (pl_views y) @ publishes es"
proof (induction es arbitrary: y)
  case (Cons e es)
  then show ?case by (cases e) (simp_all split: prod.split)
qed simp

lemma view_at:
  assumes "u \<in> set (publishes es)"
  obtains v where "(u, v) \<in> set (pl_views (fold (timed_step nb ni) es (new_pipeline s)))"
proof -
  have "map fst (pl_views (fold (timed_step nb ni) es (new_pipeline s))) = publishes es"
    using view_times [of nb ni es "new_pipeline s"] by (simp add: new_pipeline_def)
  with assms have "u \<in> fst ` set (pl_views (fold (timed_step nb ni) es (new_pipeline s)))"
    by (simp flip: set_map)
  with that show ?thesis by auto
qed

lemma not_empty: "x \<in> set xs \<Longrightarrow> xs \<noteq> []"
  by auto

lemma spaced_last: "spaced g p (xs @ y # ys) \<Longrightarrow> y - g \<le> last (p # xs)"
  by (induction xs arbitrary: p) auto

lemma event_times: "set (passes es) \<subseteq> event_time ` set es" "set (publishes es) \<subseteq> event_time ` set es"
  by (induction es) (auto split: timed_event.splits)

text \<open>
  C7 (bounds): an emergency stop reaches the robot within 80 ms. Let the ingest's and the
  publisher's threads run with their 20 ms periods and keep up, any other thread write what it
  likes but the e-stop, and let the e-stop topic be \<open>b\<close> from \<open>a\<close> on for 80 ms. Then in the second
  half of that time control words are sent, and each of them shows \<open>b\<close>; a release is as fast as a
  stop.
\<close>

theorem estop_reaches_robot:
  assumes "list_all (\<lambda>x. cost x \<le> ns_of_ms 20) xs" "list_all (\<lambda>x. cost x \<le> ns_of_ms 20) ys"
    and "prefix (passes es) (run_periodic (kGamepadTickPeriod * 1000) tg xs)" "tg < a"
    and "prefix (publishes es) (run_periodic 20000 tp ys)" "tp < a + ns_of_ms 40"
    and "sorted (map event_time es)" "\<forall>b. SetEStop b \<notin> set (timed_writes es)"
    and "\<And>v. a \<le> v \<Longrightarrow> v \<le> a + ns_of_ms 80 \<Longrightarrow> topic_or False (nb v) kCtrlEStop = b"
    and "\<exists>t \<in> set (passes es). a + ns_of_ms 80 < t" "\<exists>t \<in> set (publishes es). a + ns_of_ms 80 < t"
  shows "let sent = filter (\<lambda>(u, v). a + ns_of_ms 40 \<le> u \<and> u \<le> a + ns_of_ms 80)
      (pl_views (fold (timed_step nb ni) es (new_pipeline s)))
    in sent \<noteq> [] \<and> list_all (\<lambda>(u, v). cw_flag (pack_control_word v) kCwEStopBit = b) sent"
proof -
  let ?y = "fold (timed_step nb ni) es (new_pipeline s)"
  have ms: "ns_of_us (kGamepadTickPeriod * 1000) = ns_of_ms 20" "ns_of_us 20000 = ns_of_ms 20"
    "2 * ns_of_ms 20 = ns_of_ms 40" "ns_of_ms 80 = 2 * ns_of_ms 40" "0 < ns_of_ms 40"
    by (simp_all add: ns_of_us_def ns_of_ms_def kGamepadTickPeriod_def)
  have sg: "spaced (ns_of_ms 40) tg (passes es)"
    using keeps_up [of "kGamepadTickPeriod * 1000" xs tg, unfolded ms, OF assms(1)] assms(3)
    by (auto simp: prefix_def dest: spaced_prefix)
  have sp: "spaced (ns_of_ms 40) tp (publishes es)"
    using keeps_up [of 20000 ys tp, unfolded ms, OF assms(2)] assms(5)
    by (auto simp: prefix_def dest: spaced_prefix)
  let ?b = "begun_by (a + ns_of_ms 80) (publishes es)"
  from assms(11) obtain t where "t \<in> set (publishes es)" "a + ns_of_ms 80 < t" by blast
  from recent_tick [OF sp _ this] assms(6) ms have
    l: "a + ns_of_ms 40 \<le> last (tp # ?b)" "last (tp # ?b) \<le> a + ns_of_ms 80" by simp_all
  with assms(6) have "?b \<noteq> []" by auto
  with l have last: "a + ns_of_ms 40 \<le> last ?b" "last ?b \<le> a + ns_of_ms 80" "last ?b \<in> set ?b" by simp_all
  then have "last ?b \<in> set (publishes es)" unfolding begun_by_def by (metis set_takeWhileD)
  then obtain v where "(last ?b, v) \<in> set (pl_views ?y)" by (rule view_at)
  with last(1,2) have "(last ?b, v) \<in> set (filter (\<lambda>(u, v). a + ns_of_ms 40 \<le> u \<and> u \<le> a + ns_of_ms 80) (pl_views ?y))"
    by (simp only: set_filter mem_Collect_eq prod.case simp_thms)
  then have "filter (\<lambda>(u, v). a + ns_of_ms 40 \<le> u \<and> u \<le> a + ns_of_ms 80) (pl_views ?y) \<noteq> []"
    by (rule not_empty)
  moreover have "cw_flag (pack_control_word v) kCwEStopBit = b"
    if "(u, v) \<in> set (pl_views ?y)" "a + ns_of_ms 40 \<le> u" "u \<le> a + ns_of_ms 80" for u v
  proof -
    from views_taken [OF that(1)] obtain before later where es: "es = before @ Publish_at u # later"
      and v: "v = snapshot_control (pl_state (fold (timed_step nb ni) before (new_pipeline s)))" by blast
    have early: "t \<le> u" if "t \<in> set (passes before)" for t
      using that assms(7) event_times(1) [of before] by (auto simp: es sorted_append)
    have late: "u \<le> t" if "t \<in> set (passes later)" for t
      using that assms(7) event_times(1) [of later] by (auto simp: es sorted_append)
    from assms(10) obtain t where "t \<in> set (passes es)" "a + ns_of_ms 80 < t" by blast
    with that(3) early [of t] have "t \<in> set (passes later)" by (auto simp: es)
    then obtain p ps where p: "passes later = p # ps" by (cases "passes later") auto
    with sg have "p - ns_of_ms 40 \<le> last (tg # passes before)" by (intro spaced_last) (simp add: es)
    moreover from late p have "u \<le> p" by simp
    ultimately have "a \<le> last (tg # passes before)" using that(2) by linarith
    with assms(4) have ne: "passes before \<noteq> []" and a: "a \<le> last (passes before)" by (auto split: if_splits)
    from early [OF last_in_set [OF ne]] that(3) have "last (passes before) \<le> a + ns_of_ms 80" by linarith
    with assms(9) a have "topic_estop (nb (last (passes before))) = b" by blast
    moreover have "\<forall>b. SetEStop b \<notin> set (timed_writes before)" using assms(8) by (simp add: es)
    ultimately have "ds_e_stop (pl_state (fold (timed_step nb ni) before (new_pipeline s))) = b"
      using estop_of_last_pass [of before nb ni s] ne by (simp add: Let_def)
    then show ?thesis by (simp add: v cw_flag_pack)
  qed
  ultimately show ?thesis by (auto simp: Let_def list_all_iff)
qed

text \<open>A stop on the topic from 10 ms on; both threads tick on time.\<close>

definition demo_timeline :: "timed_event list" where
  "demo_timeline = [Pass_at 20000000, Publish_at 20000000, Write_at 30000000 (SetEnabled True),
     Pass_at 40000000, Publish_at 40000000, Pass_at 60000000, Publish_at 60000000,
     Pass_at 80000000, Publish_at 80000000, Pass_at 100000000, Publish_at 100000000]"

definition demo_stop :: "int \<Rightarrow> bool nt_values" where
  "demo_stop t = [kCtrlEStop \<mapsto> 10000000 \<le> t]"

lemma estop_reaches_robot_witness:
  "list_all (\<lambda>(u, v). cw_flag (pack_control_word v) kCwEStopBit)
    (filter (\<lambda>(u, v). 10000000 + ns_of_ms 40 \<le> u \<and> u \<le> 10000000 + ns_of_ms 80)
      (pl_views (fold (timed_step demo_stop (\<lambda>_. Map.empty)) demo_timeline (new_pipeline initial_daemon_state))))"
proof -
  let ?xs = "replicate 5 (pass 0 0)"
  have run: "run_periodic 20000 0 ?xs = [20000000, 40000000, 60000000, 80000000, 100000000]"
    by (simp add: run_periodic_def ns_of_us_def keeps_running_def pass_def sleep_until_def eval_nat_numeral)
  have k: "list_all (\<lambda>x. cost x \<le> ns_of_ms 20) ?xs"
    by (simp add: list_all_iff cost_def pass_def ns_of_ms_def)
  have p: "prefix (passes demo_timeline) (run_periodic (kGamepadTickPeriod * 1000) 0 ?xs)"
    "prefix (publishes demo_timeline) (run_periodic 20000 0 ?xs)"
    by (simp_all add: demo_timeline_def run kGamepadTickPeriod_def)
  have t: "(0 :: int) < 10000000" "0 < 10000000 + ns_of_ms 40" by (simp_all add: ns_of_ms_def)
  have s: "sorted (map event_time demo_timeline)" "\<forall>b. SetEStop b \<notin> set (timed_writes demo_timeline)"
    "\<exists>t \<in> set (passes demo_timeline). 10000000 + ns_of_ms 80 < t"
    "\<exists>t \<in> set (publishes demo_timeline). 10000000 + ns_of_ms 80 < t"
    by (simp_all add: demo_timeline_def ns_of_ms_def)
  have nb: "topic_or False (demo_stop v) kCtrlEStop = True" if "10000000 \<le> v" for v
    using that by (simp add: topic_or_def demo_stop_def)
  from estop_reaches_robot [OF k k p(1) t(1) p(2) t(2) s(1,2) nb s(3,4), where ni = "\<lambda>_. Map.empty" and s = initial_daemon_state]
  show ?thesis by (simp add: Let_def)
qed

end
