(* ===== verification/Rsl_Blinker.thy ===== *)
theory Rsl_Blinker
  imports Gpio_Backend Daemon_State
begin

text \<open>
  rsl_blinker.{hpp,cpp}: the robot signal light. \<open>start\<close> takes the line, the thread's loop
  body writes the level it should have whenever that changes, \<open>stop\<close> joins and gives the line
  back. The thread's locals are a record; a tick is given the instant its clock shows.
\<close>

section \<open>State and operations\<close>

definition kRslTickPeriod :: int where
  "kRslTickPeriod = 20"

definition kBlinkHalfPeriod :: int where
  "kBlinkHalfPeriod = 500"

record RslBlinker =
  rsl_gpio :: i32
  rsl_joinable :: bool

definition new_rsl_blinker :: "i32 \<Rightarrow> RslBlinker" where
  "new_rsl_blinker gpio = \<lparr>rsl_gpio = gpio, rsl_joinable = False\<rparr>"

text \<open>The locals \<open>t0\<close> and \<open>last\<close> of \<open>run\<close>.\<close>

record rsl_locals =
  rsl_t0 :: int
  rsl_last :: bool

definition new_rsl_locals :: "int \<Rightarrow> rsl_locals" where
  "new_rsl_locals t0 = \<lparr>rsl_t0 = t0, rsl_last = True\<rparr>"

definition desired_level :: "bool \<Rightarrow> int \<Rightarrow> bool" where
  "desired_level enabled elapsed =
    (if \<not> enabled then True
     else let whole_periods = cdiv elapsed kBlinkHalfPeriod in whole_periods AND 1 = 0)"

definition rsl_start :: "'b IGpioBackend \<Rightarrow> (RslBlinker \<times> 'b, unit) act" where
  "rsl_start B = (\<lambda>(r, b). case request_output B (rsl_gpio r) True b of
      (Inl e, b') \<Rightarrow> (Inl e, (r, b'))
    | (Inr _, b') \<Rightarrow> (Inr (), (r\<lparr>rsl_joinable := True\<rparr>, b')))"

definition rsl_stop :: "'b IGpioBackend \<Rightarrow> (RslBlinker \<times> 'b, unit) act" where
  "rsl_stop B = (\<lambda>(r, b).
    if rsl_joinable r
    then let r = r\<lparr>rsl_joinable := False\<rparr> in
      (case release_line B (rsl_gpio r) b of (res, b') \<Rightarrow> (res, (r, b')))
    else (Inr (), (r, b)))"

definition rsl_tick ::
  "'b IGpioBackend \<Rightarrow> i32 \<Rightarrow> DaemonState \<Rightarrow> int \<Rightarrow> (rsl_locals \<times> 'b, unit) act" where
  "rsl_tick B gpio st now = (\<lambda>(l, b).
    let elapsed = cast_ms (now - rsl_t0 l);
        enabled = cv_enabled (snapshot_control st);
        want = desired_level enabled elapsed
    in if want \<noteq> rsl_last l
       then case set_value B gpio want b of
           (Inl e, b') \<Rightarrow> (Inl e, (l, b'))
         | (Inr _, b') \<Rightarrow> (Inr (), (l\<lparr>rsl_last := want\<rparr>, b'))
       else (Inr (), (l, b)))"

text \<open>The loop: one tick per instant, each with the shared state it finds.\<close>

fun rsl_ticks ::
  "'b IGpioBackend \<Rightarrow> i32 \<Rightarrow> (DaemonState \<times> int) list \<Rightarrow> (rsl_locals \<times> 'b, unit) act" where
  "rsl_ticks B gpio [] = ret ()"
| "rsl_ticks B gpio ((st, now) # ts) =
     andThen (rsl_tick B gpio st now) (\<lambda>_. rsl_ticks B gpio ts)"

section \<open>The line shows the level last written\<close>

lemma rsl_start_Inr [act_simps]:
  "rsl_start B (r, b) = (Inr ok, (r', b')) \<longleftrightarrow>
     (\<exists>ok'. request_output B (rsl_gpio r) True b = (Inr ok', b')) \<and> r' = r\<lparr>rsl_joinable := True\<rparr>"
  by (auto simp: rsl_start_def split: prod.splits sum.splits)

lemma rsl_stop_joinable:
  "rsl_joinable r \<Longrightarrow> rsl_stop B (r, b) = (res, (r', b')) \<longleftrightarrow>
     release_line B (rsl_gpio r) b = (res, b') \<and> r' = r\<lparr>rsl_joinable := False\<rparr>"
  by (auto simp: rsl_stop_def Let_def split: prod.splits)

definition rsl_want :: "rsl_locals \<Rightarrow> DaemonState \<Rightarrow> int \<Rightarrow> bool" where
  "rsl_want l st now = desired_level (ds_enabled st) (cast_ms (now - rsl_t0 l))"

lemma rsl_tick_cases:
  assumes "rsl_tick B gpio st now (l, b) = (r, (l', b'))"
  obtains "rsl_want l st now = rsl_last l" "r = Inr ()" "l' = l" "b' = b"
    | e where "rsl_want l st now \<noteq> rsl_last l" "set_value B gpio (rsl_want l st now) b = (Inl e, b')"
        "r = Inl e" "l' = l"
    | ok where "rsl_want l st now \<noteq> rsl_last l" "set_value B gpio (rsl_want l st now) b = (Inr ok, b')"
        "r = Inr ()" "l' = l\<lparr>rsl_last := rsl_want l st now\<rparr>"
proof (cases "rsl_want l st now = rsl_last l")
  case True
  with assms have "r = Inr ()" "l' = l" "b' = b"
    by (simp_all add: rsl_tick_def rsl_want_def Let_def)
  with True that(1) show thesis by blast
next
  case False
  obtain x b1 where x: "set_value B gpio (rsl_want l st now) b = (x, b1)"
    by (cases "set_value B gpio (rsl_want l st now) b")
  with False assms show thesis
    using that(2,3) by (cases x) (simp_all add: rsl_tick_def rsl_want_def Let_def)
qed

lemma rsl_tick_t0: "rsl_tick B gpio st now (l, b) = (r, (l', b')) \<Longrightarrow> rsl_t0 l' = rsl_t0 l"
  by (erule rsl_tick_cases) simp_all

context gpio_driver
begin

text \<open>The loop invariant: the line is our output, at the level \<open>last\<close> remembers.\<close>

lemma rsl_tick_use:
  assumes "invar b" "uses b g = Some (UseOutput (rsl_last l))"
    and "rsl_tick B g st now (l, b) = (Inr ok, (l', b'))"
  shows "invar b' \<and> uses b' = (uses b)(g \<mapsto> UseOutput (rsl_last l')) \<and>
    rsl_last l' = rsl_want l st now"
  using assms(3)
proof (cases rule: rsl_tick_cases)
  case 1
  with assms(1,2) show ?thesis by (simp add: fun_upd_idem)
next
  case (3 ok')
  from set_law [OF assms(1) 3(2)] 3(4) assms(2) show ?thesis by (simp add: drive_def)
qed simp

lemma rsl_ticks_use:
  assumes "invar b" "uses b g = Some (UseOutput (rsl_last l))"
    and "rsl_ticks B g ts (l, b) = (Inr ok, (l', b'))"
  shows "invar b' \<and> uses b' = (uses b)(g \<mapsto> UseOutput (rsl_last l')) \<and> rsl_t0 l' = rsl_t0 l \<and>
    rsl_last l' = (if ts = [] then rsl_last l else rsl_want l (fst (last ts)) (snd (last ts)))"
  using assms
proof (induction ts arbitrary: l b)
  case Nil
  then show ?case by (simp add: fun_upd_idem)
next
  case (Cons t ts)
  obtain st now where t: "t = (st, now)" by (cases t)
  with Cons.prems(3) obtain ok1 l1 b1 where
    s: "rsl_tick B g st now (l, b) = (Inr ok1, (l1, b1))"
    and rest: "rsl_ticks B g ts (l1, b1) = (Inr ok, (l', b'))"
    by (auto simp: act_simps)
  from rsl_tick_use [OF Cons.prems(1,2) s] have 1: "invar b1"
    "uses b1 = (uses b)(g \<mapsto> UseOutput (rsl_last l1))" "rsl_last l1 = rsl_want l st now" by simp_all
  have t0: "rsl_t0 l1 = rsl_t0 l" by (rule rsl_tick_t0 [OF s])
  from 1(2) have "uses b1 g = Some (UseOutput (rsl_last l1))" by simp
  note IH = Cons.IH [OF 1(1) this rest]
  then have uses: "uses b' = (uses b)(g \<mapsto> UseOutput (rsl_last l'))"
    unfolding 1(2) by (simp only: fun_upd_upd)
  from IH have "invar b'" "rsl_t0 l' = rsl_t0 l1"
    "rsl_last l' = (if ts = [] then rsl_last l1 else rsl_want l1 (fst (last ts)) (snd (last ts)))"
    by simp_all
  with uses 1(3) t t0 show ?case by (simp add: rsl_want_def)
qed

lemma rsl_start_use:
  assumes "invar b" "rsl_start B (r, b) = (Inr ok, (r', b'))"
  shows "invar b' \<and> uses b' = (uses b)(rsl_gpio r \<mapsto> UseOutput True)"
  using assms output_law [OF assms(1)] output_exact [OF assms(1)] by (fastforce simp: act_simps)

lemma rsl_tick_frame:
  assumes "invar b" "rsl_tick B g st now (l, b) = (r, (l', b'))"
  shows "invar b' \<and> (\<forall>h. h \<noteq> g \<longrightarrow> uses b' h = uses b h)"
  using assms(2)
proof (cases rule: rsl_tick_cases)
  case 1
  with assms(1) show ?thesis by simp
next
  case (2 e)
  from set_frame [OF assms(1) 2(2)] show ?thesis .
next
  case (3 ok)
  from set_frame [OF assms(1) 3(2)] show ?thesis .
qed

end

section \<open>Properties\<close>

text \<open>
  Start the light on the libgpiod backend and tick it at any instants with any
  shared states; if nothing threw, its line is an output, whose level after the last tick is
  the desired level for the enable bit and time of that tick, and no other line changed.
\<close>

theorem rsl_line_shows_desired_level:
  assumes "gpiod_inv b" "rsl_start (libgpiod_backend L) (r, b) = (Inr (), (r1, b1))"
    and "rsl_ticks (libgpiod_backend L) (rsl_gpio r) (ts @ [(st, now)]) (new_rsl_locals t0, b1)
      = (Inr (), (l, b2))"
  shows "line_uses b2 = (line_uses b)(rsl_gpio r \<mapsto>
    UseOutput (desired_level (ds_enabled st) (cast_ms (now - t0))))"
proof -
  from lib.rsl_start_use [OF assms(1,2)] have 1: "gpiod_inv b1"
    "line_uses b1 = (line_uses b)(rsl_gpio r \<mapsto> UseOutput True)" by simp_all
  then have "line_uses b1 (rsl_gpio r) = Some (UseOutput (rsl_last (new_rsl_locals t0)))"
    by (simp add: new_rsl_locals_def)
  from lib.rsl_ticks_use [OF 1(1) this assms(3)] 1(2) show ?thesis
    by (simp add: rsl_want_def new_rsl_locals_def)
qed

lemma rsl_line_shows_desired_level_witness:
  "line_uses (snd (snd (rsl_ticks (libgpiod_backend quiet_lib) 25
     [(set_enabled True initial_daemon_state, ns_of_ms 620)]
     (new_rsl_locals 0, snd (snd (rsl_start (libgpiod_backend quiet_lib)
       (new_rsl_blinker 25, new_libgpiod_backend))))))) 25 = Some (UseOutput False)"
proof -
  let ?B = "libgpiod_backend quiet_lib" and ?st = "set_enabled True initial_daemon_state"
  let ?s = "rsl_start ?B (new_rsl_blinker 25, new_libgpiod_backend)"
  let ?t = "rsl_ticks ?B 25 ([] @ [(?st, ns_of_ms 620)]) (new_rsl_locals 0, snd (snd ?s))"
  have s: "?s = (Inr (), (fst (snd ?s), snd (snd ?s)))"
    by (simp add: rsl_start_def new_rsl_blinker_def gpiod_defs andThen_def quiet_lib_def
        new_libgpiod_backend_def)
  have g: "rsl_gpio (new_rsl_blinker 25) = 25" by (simp add: new_rsl_blinker_def)
  have off: "\<not> desired_level True 620"
    by (simp add: desired_level_def cdiv_def kBlinkHalfPeriod_def)
  have t: "?t = (Inr (), (fst (snd ?t), snd (snd ?t)))"
    by (simp add: rsl_start_def new_rsl_blinker_def gpiod_defs andThen_def quiet_lib_def
        new_libgpiod_backend_def rsl_tick_def new_rsl_locals_def off usable_def)
  from rsl_line_shows_desired_level [OF gpiod_inv_new s, unfolded g, OF t] off show ?thesis
    by simp
qed

text \<open>
  An enabled light is on in the first half of every second since its start and
  off in the second half (period 1000 ms, half on); a disabled one is always on.
\<close>

theorem rsl_blink_pattern:
  assumes "0 \<le> elapsed"
  shows "desired_level enabled elapsed \<longleftrightarrow> \<not> enabled \<or> elapsed mod 1000 < 500"
proof -
  have "elapsed mod 1000 = 500 * (elapsed div 500 mod 2) + elapsed mod 500"
    using zmod_zmult2_eq [of 2 elapsed 500] by simp
  moreover have "0 \<le> elapsed mod 500" "elapsed mod 500 < 500" by simp_all
  moreover have "elapsed div 500 mod 2 = 0 \<or> elapsed div 500 mod 2 = 1" by linarith
  ultimately have "elapsed div 500 mod 2 = 0 \<longleftrightarrow> elapsed mod 1000 < 500" by linarith
  then have "even (elapsed div 500) \<longleftrightarrow> elapsed mod 1000 < 500" by (simp only: even_iff_mod_2_eq_zero)
  moreover have "elapsed div 500 AND 1 = 0 \<longleftrightarrow> even (elapsed div 500)"
    by (simp add: and_one_eq even_iff_mod_2_eq_zero)
  ultimately show ?thesis
    using assms by (simp add: desired_level_def kBlinkHalfPeriod_def cdiv_nonneg)
qed

lemma rsl_blink_pattern_witness:
  "desired_level True 499 \<and> \<not> desired_level True 500 \<and> desired_level True 1000"
  using rsl_blink_pattern [of 499 True] rsl_blink_pattern [of 500 True]
    rsl_blink_pattern [of 1000 True] by simp

text \<open>
  The light borrows its line: if it was free, then starting, any ticking and
  stopping leave every line used as before, and the thread is no longer joinable.
\<close>

theorem rsl_gives_line_back:
  assumes "gpiod_inv b" "line_uses b (rsl_gpio r) = None"
    and "rsl_start (libgpiod_backend L) (r, b) = (Inr (), (r1, b1))"
    and "rsl_ticks (libgpiod_backend L) (rsl_gpio r) ts (new_rsl_locals t0, b1) = (Inr (), (l, b2))"
    and "rsl_stop (libgpiod_backend L) (r1, b2) = (Inr (), (r2, b3))"
  shows "line_uses b3 = line_uses b \<and> \<not> rsl_joinable r2"
proof -
  from lib.rsl_start_use [OF assms(1,3)] have 1: "gpiod_inv b1"
    "line_uses b1 = (line_uses b)(rsl_gpio r \<mapsto> UseOutput True)" by simp_all
  then have "line_uses b1 (rsl_gpio r) = Some (UseOutput (rsl_last (new_rsl_locals t0)))"
    by (simp add: new_rsl_locals_def)
  from lib.rsl_ticks_use [OF 1(1) this assms(4)] 1(2) have 2: "gpiod_inv b2"
    "(line_uses b2)(rsl_gpio r := None) = (line_uses b)(rsl_gpio r := None)" by simp_all
  from assms(3) have r1: "rsl_joinable r1" "rsl_gpio r1 = rsl_gpio r" by (auto simp: act_simps)
  from rsl_stop_joinable [OF r1(1), THEN iffD1, OF assms(5)] r1(2)
  have "release_line (libgpiod_backend L) (rsl_gpio r) b2 = (Inr (), b3)" and "\<not> rsl_joinable r2"
    by simp_all
  with lib.release_law [OF 2(1)] 2(2) assms(2) show ?thesis
    by (metis fun_upd_triv)
qed

lemma rsl_gives_line_back_witness:
  "line_uses (snd (snd (rsl_stop (libgpiod_backend quiet_lib)
     (snd (rsl_start (libgpiod_backend quiet_lib) (new_rsl_blinker 25, new_libgpiod_backend)))))) = Map.empty"
proof -
  let ?B = "libgpiod_backend quiet_lib"
  let ?s = "rsl_start ?B (new_rsl_blinker 25, new_libgpiod_backend)"
  let ?e = "rsl_stop ?B (snd ?s)"
  have s: "?s = (Inr (), (fst (snd ?s), snd (snd ?s)))"
    and e: "rsl_stop ?B (fst (snd ?s), snd (snd ?s)) = (Inr (), (fst (snd ?e), snd (snd ?e)))"
    by (simp_all add: rsl_start_def rsl_stop_def new_rsl_blinker_def gpiod_defs andThen_def
        quiet_lib_def new_libgpiod_backend_def usable_def)
  from rsl_gives_line_back [OF gpiod_inv_new _ s _ e, of "[]"] show ?thesis by simp
qed

end
