(* ===== verification/Linux_Runtime.thy ===== *)
theory Linux_Runtime
  imports Surrogate_Prelude
begin

text \<open>
  linux_runtime.{hpp,cpp}: the systemd notifications. The environment variable and the outcome
  of \<open>socket\<close> are parameters; the result is the datagram handed to \<open>sendto\<close>, as the bytes of
  \<open>sun_path\<close> and the payload. C strings are character lists without NUL.
\<close>

datatype NotifyKind = Ready | Watchdog | Stopping

definition NUL :: char where "NUL = char_of (0 :: nat)"

text \<open>The size of \<open>sockaddr_un::sun_path\<close> on Linux.\<close>

definition kSunPathSize :: nat where "kSunPathSize = 108"

definition lock_all_memory :: "int \<Rightarrow> bool" where
  "lock_all_memory mlockall_result = (mlockall_result = 0)"

definition strncpy :: "string \<Rightarrow> nat \<Rightarrow> string" where
  "strncpy src n = take n src @ replicate (n - length src) NUL"

text \<open>A zeroed \<open>sun_path\<close>, filled from \<open>sock_path\<close>.\<close>

definition sun_path :: "string \<Rightarrow> string" where
  "sun_path sock_path =
    (if hd sock_path = CHR ''@''
     then [NUL] @ strncpy (tl sock_path) (kSunPathSize - 2) @ [NUL]
     else strncpy sock_path (kSunPathSize - 1) @ [NUL])"

definition notify_raw :: "string option \<Rightarrow> bool \<Rightarrow> string \<Rightarrow> (string \<times> string) list" where
  "notify_raw notify_socket socket_ok payload =
    (case notify_socket of
       None \<Rightarrow> []
     | Some sock_path \<Rightarrow>
         if sock_path = [] then []
         else if \<not> socket_ok then []
         else [(sun_path sock_path, payload)])"

definition notify :: "string option \<Rightarrow> bool \<Rightarrow> NotifyKind \<Rightarrow> (string \<times> string) list" where
  "notify notify_socket socket_ok kind =
    (case kind of
       Ready \<Rightarrow> notify_raw notify_socket socket_ok ''READY=1''
     | Watchdog \<Rightarrow> notify_raw notify_socket socket_ok ''WATCHDOG=1''
     | Stopping \<Rightarrow> notify_raw notify_socket socket_ok ''STOPPING=1'')"

text \<open>
  The name the kernel looks up (unix(7)), for a datagram sent with the full size of the
  address structure: the C string of a path, or for a leading NUL every byte of the array.
\<close>

definition kernel_name :: "string \<Rightarrow> string" where
  "kernel_name bytes =
    (if bytes ! 0 \<noteq> NUL then takeWhile (\<lambda>c. c \<noteq> NUL) bytes else bytes)"

lemma strncpy_length [simp]: "length (strncpy src n) = n"
  by (simp add: strncpy_def)

lemma takeWhile_strncpy:
  "NUL \<notin> set src \<Longrightarrow> takeWhile (\<lambda>c. c \<noteq> NUL) (strncpy src n @ [NUL]) = take n src"
proof -
  assume nul: "NUL \<notin> set src"
  have "\<forall>c \<in> set (take n src). c \<noteq> NUL" using nul in_set_takeD by fastforce
  moreover have "takeWhile (\<lambda>c. c \<noteq> NUL) (replicate k NUL @ [NUL]) = []" for k
    by (cases k) simp_all
  ultimately show ?thesis by (simp add: strncpy_def takeWhile_append2)
qed

section \<open>Properties\<close>

text \<open>
  For every non-empty \<open>NOTIFY_SOCKET\<close> the address fills the 108 bytes and ends in
  NUL, so nothing is written past the array; a file-system path of at most 107 bytes reaches
  the kernel unchanged (a longer one is cut to 107); but an abstract name keeps its padding,
  so the kernel looks up a name other than the one \<open>NOTIFY_SOCKET\<close> gives.
\<close>

theorem notify_address:
  assumes "NUL \<notin> set path" "path \<noteq> []"
  shows "length (sun_path path) = 108 \<and> last (sun_path path) = NUL \<and>
    (if hd path = CHR ''@'' then kernel_name (sun_path path) \<noteq> NUL # tl path
     else kernel_name (sun_path path) = take 107 path)"
proof (cases "hd path = CHR ''@''")
  case True
  let ?b = "[NUL] @ strncpy (tl path) 106 @ [NUL]"
  have b: "sun_path path = ?b" using True by (simp add: sun_path_def kSunPathSize_def)
  have "strncpy (tl path) 106 @ [NUL] \<noteq> tl path"
  proof
    assume eq: "strncpy (tl path) 106 @ [NUL] = tl path"
    have "NUL \<in> set (strncpy (tl path) 106 @ [NUL])" by simp
    with eq have "NUL \<in> set (tl path)" by simp
    with assms(1) show False by (meson list.set_sel(2) assms(2))
  qed
  with True b show ?thesis by (simp add: kernel_name_def)
next
  case False
  let ?b = "strncpy path 107 @ [NUL]"
  have b: "sun_path path = ?b" using False by (simp add: sun_path_def kSunPathSize_def)
  have "?b ! 0 \<noteq> NUL" using assms by (cases path) (auto simp: strncpy_def)
  with takeWhile_strncpy [OF assms(1), of 107] False b show ?thesis
    by (simp add: kernel_name_def)
qed

lemma notify_address_witness:
  "kernel_name (sun_path ''/run/systemd/notify'') = ''/run/systemd/notify''"
proof -
  have "NUL \<notin> set ''/run/systemd/notify''" by code_simp
  from notify_address [OF this] show ?thesis by simp
qed

end
