(* ===== verification/Nt_Processes.thy ===== *)
theory Nt_Processes
  imports Smartio_Bridge Publishers
begin

text \<open>
  nt_server.{hpp,cpp}, the owner of the NetworkTables server, and nt_smartio_test.cpp, the
  command-line client that plays the HAL's part towards the bridge. NetworkTables appears as
  the calls made on it.
\<close>

section \<open>NtServer\<close>

datatype nt_call =
    Create_instance
  | Start_nt_server string string string nat
  | Stop_nt_server
  | Destroy_instance

definition kDefaultPort :: nat where "kDefaultPort = 6810"

record NtServer =
  nt_port :: nat

definition new_nt_server_on :: "nat \<Rightarrow> NtServer \<times> nt_call list" where
  "new_nt_server_on port =
    (\<lparr>nt_port = port\<rparr>,
     [Create_instance, Start_nt_server ''pi5-system-surrogate.json'' ''127.0.0.1'' [] port])"

definition new_nt_server :: "NtServer \<times> nt_call list" where
  "new_nt_server = new_nt_server_on kDefaultPort"

definition destroy_nt_server :: "NtServer \<Rightarrow> nt_call list" where
  "destroy_nt_server s = [Stop_nt_server, Destroy_instance]"

section \<open>nt_smartio_test\<close>

text \<open>The exit code and the values set, in order.\<close>

definition nt_smartio_test :: "string list \<Rightarrow> nat \<times> (string \<times> i64) list" where
  "nt_smartio_test argv =
    (if length argv < 4 then (2, [])
     else
       let ch = from_chars_int (argv ! 1) 0;
           type = from_chars_int (argv ! 2) 0;
           val = from_chars_int (argv ! 3) 0
       in (0, [(''/io/'' @ int_string ch @ ''/type'', word_of_int type),
               (''/io/'' @ int_string ch @ ''/valset'', word_of_int val)]))"

text \<open>What the topics hold after some values were set.\<close>

definition set_topics :: "i64 nt_values \<Rightarrow> (string \<times> i64) list \<Rightarrow> i64 nt_values" where
  "set_topics nt pubs = fold (\<lambda>(topic, v) nt. nt(topic \<mapsto> v)) pubs nt"

lemma from_chars_int_range:
  assumes "- 2147483648 \<le> old" "old \<le> 2147483647"
  shows "- 2147483648 \<le> from_chars_int s old \<and> from_chars_int s old \<le> 2147483647"
  using assms by (auto simp: from_chars_int_def Let_def)

lemma io_topics_differ: "''/io/'' @ c @ ''/type'' \<noteq> ''/io/'' @ c @ ''/valset''"
  by simp

text \<open>An \<open>int\<close> widened to \<open>int64_t\<close> and cut back by the bridge is the same number.\<close>

lemma int_of_widened:
  assumes "- 2147483648 \<le> k" "k \<le> 2147483647"
  shows "int_of_int64 (word_of_int k) = (word_of_int k :: i32)"
    and "(word_of_int k :: i32) = 0 \<longleftrightarrow> k = 0" "(word_of_int k :: i32) = 1 \<longleftrightarrow> k = 1"
    and "(word_of_int k :: i64) = kSentinel \<longleftrightarrow> k = - 9999"
proof -
  show "int_of_int64 (word_of_int k) = (word_of_int k :: i32)"
    unfolding int_of_int64_def by transfer simp
  have sint: "sint (word_of_int j :: i32) = j" if "- 2147483648 \<le> j" "j \<le> 2147483647" for j
    using that by (intro sint_word_of_int_32) simp_all
  have inj: "(word_of_int k :: i32) = word_of_int j \<longleftrightarrow> k = j"
    if "- 2147483648 \<le> j" "j \<le> 2147483647" for j
    using sint [OF assms] sint [OF that] by metis
  from inj [of 0] show "(word_of_int k :: i32) = 0 \<longleftrightarrow> k = 0" by simp
  from inj [of 1] show "(word_of_int k :: i32) = 1 \<longleftrightarrow> k = 1" by simp
  have "sint (word_of_int k :: i64) = k" using assms by (simp add: int_word_sint)
  moreover have "sint kSentinel = - 9999" by (simp add: kSentinel_def)
  moreover have "word_of_int (- 9999) = kSentinel" by (simp add: kSentinel_def)
  ultimately show "(word_of_int k :: i64) = kSentinel \<longleftrightarrow> k = - 9999" by metis
qed

section \<open>Properties\<close>

lemma seen_last: "v \<noteq> kSentinel \<Longrightarrow> seen v old = v"
  by (simp add: seen_def)

lemma use_seen_int:
  assumes "- 2147483648 \<le> t" "t \<le> 2147483647" "t \<noteq> - 9999"
    and "- 2147483648 \<le> v" "v \<le> 2147483647" "v \<noteq> - 9999"
  shows "use_seen (word_of_int t) (word_of_int v) =
    (if t = 0 then Some UseInput else if t = 1 then Some (UseOutput (v \<noteq> 0)) else None)"
  using int_of_widened [OF assms(1,2)] int_of_widened [OF assms(4,5)] assms(3,6)
  by (simp add: use_seen_def mode_seen_def level_seen_def mode_of_type_def requested_mode_def)

text \<open>
  The command-line client drives a line. Whatever the bridge saw before, once
  it has run a tick on topics that hold what \<open>nt_smartio_test c t v\<close> set, the GPIO mapped to
  channel \<open>c\<close> is an input for type 0, an output that is high exactly for \<open>v\<close> other than 0 for
  type 1, and free for any other type (-9999, which the bridge takes for no value, apart).
\<close>

theorem smartio_test_drives_line:
  assumes "nt_smartio_test argv = (0, pubs)"
    and "distinct (map pm_gpio ms)" "m \<in> set ms" "from_chars_int (argv ! 1) 0 = sint (pm_channel m)"
    and "from_chars_int (argv ! 2) 0 = t" "t \<noteq> - 9999" "from_chars_int (argv ! 3) 0 = v" "v \<noteq> - 9999"
    and "bridge_run (libgpiod_backend L) (nts @ [set_topics nt pubs])
      (new_smartio_bridge ms, new_libgpiod_backend, []) = (Inr (), (gs, b, out))"
  shows "line_uses b (pm_gpio m) =
    (if t = 0 then Some UseInput else if t = 1 then Some (UseOutput (v \<noteq> 0)) else None)"
proof -
  let ?nt = "set_topics nt pubs" and ?io = "io_topic (pm_channel m)"
  from assms(1) have "length argv \<ge> 4" by (auto simp: nt_smartio_test_def split: if_splits)
  with assms(1,4,5,7) have pubs: "pubs = [(?io ''/type'', word_of_int t), (?io ''/valset'', word_of_int v)]"
    by (simp add: nt_smartio_test_def Let_def io_topic_def)
  have range: "- 2147483648 \<le> t" "t \<le> 2147483647" "- 2147483648 \<le> v" "v \<le> 2147483647"
    using from_chars_int_range [of 0 "argv ! 2"] from_chars_int_range [of 0 "argv ! 3"] assms(5,7) by simp_all
  have "topic_or kSentinel ?nt (?io ''/type'') = word_of_int t"
    "topic_or kSentinel ?nt (?io ''/valset'') = word_of_int v"
    by (simp_all add: pubs set_topics_def topic_or_def io_topic_def)
  moreover have "word_of_int t \<noteq> kSentinel" "word_of_int v \<noteq> kSentinel"
    using int_of_widened(4) range assms(6,8) by blast+
  ultimately show ?thesis
    using started_bridge_use [OF assms(2,3,9)] use_seen_int [OF range(1,2) assms(6) range(3,4) assms(8)]
    by (simp add: seen_last)
qed

lemma smartio_test_drives_line_witness:
  "line_uses (fst (snd (snd (bridge_run (libgpiod_backend quiet_lib)
     [set_topics Map.empty (snd (nt_smartio_test [''nt_smartio_test'', ''5'', ''1'', ''255'']))]
     (new_smartio_bridge demo_pins, new_libgpiod_backend, []))))) 26 = Some (UseOutput True)"
proof -
  let ?argv = "[''nt_smartio_test'', ''5'', ''1'', ''255'']" and ?m = "\<lparr>pm_channel = 5, pm_gpio = 26\<rparr>"
  have chars: "from_chars_int ''5'' 0 = 5" "from_chars_int ''1'' 0 = 1" "from_chars_int ''255'' 0 = 255"
    by code_simp+
  have five: "int_string 5 = ''5''" by (simp add: int_string_def decimal.simps)
  let ?pubs = "[(''/io/5/type'', 1), (''/io/5/valset'', 255)]"
  have t: "nt_smartio_test ?argv = (0, ?pubs)"
    by (simp add: nt_smartio_test_def chars five)
  let ?r = "bridge_run (libgpiod_backend quiet_lib) ([] @ [set_topics Map.empty ?pubs])
     (new_smartio_bridge demo_pins, new_libgpiod_backend, [])"
  have "fst ?r = Inr ()"
    by (simp add: set_topics_def new_smartio_bridge_def demo_pins_def new_glue_def demo_topics glue_tick_def
      tick_type_def tick_valset_def tick_sample_def topic_or_def kSentinel_def andThen_def
      on_channel_def on_type_changed_def on_valset_def sample_input_def requested_mode_def
      new_channel_def on_backend_def gpiod_defs quiet_lib_def new_libgpiod_backend_def usable_def
      int_of_int64_def Let_def)
  then have r: "?r = (Inr (), (fst (snd ?r), fst (snd (snd ?r)), snd (snd (snd ?r))))"
    by (simp add: prod_eq_iff)
  have m: "distinct (map pm_gpio demo_pins)" "?m \<in> set demo_pins" by (simp_all add: demo_pins_def)
  from smartio_test_drives_line [OF t m _ _ _ _ _ r, of 1 255] show ?thesis
    by (simp add: t chars)
qed

end
