(* ===== verification/Main_Daemon.thy ===== *)
theory Main_Daemon
  imports Rsl_Blinker Linux_Runtime Nt_Processes
begin

text \<open>
  main.cpp: the pin map, the choice of backend, the order in which things appear and go, and
  the watchdog loop.
\<close>

section \<open>Configuration\<close>

definition kPinMap :: "PinMapping list" where
  "kPinMap = [\<lparr>pm_channel = 0, pm_gpio = 17\<rparr>, \<lparr>pm_channel = 1, pm_gpio = 27\<rparr>,
     \<lparr>pm_channel = 2, pm_gpio = 22\<rparr>, \<lparr>pm_channel = 3, pm_gpio = 23\<rparr>]"

definition kRslGpio :: i32 where "kRslGpio = 26"

definition chip_path :: "string option \<Rightarrow> string" where
  "chip_path override_path =
    (case override_path of
       Some p \<Rightarrow> if p \<noteq> [] then p else ''/dev/gpiochip0''
     | None \<Rightarrow> ''/dev/gpiochip0'')"

text \<open>\<open>Some\<close> backend state for libgpiod, \<open>None\<close> for the null backend.\<close>

definition choose_backend :: "(string \<Rightarrow> cxx_exn + bool) \<Rightarrow> string option \<Rightarrow> LibgpiodBackend option" where
  "choose_backend open_chip override_path =
    (case open_libgpiod_backend open_chip (chip_path override_path) of
       Inr b \<Rightarrow> Some b
     | Inl _ \<Rightarrow> None)"

section \<open>What main does, in order\<close>

datatype component = Publisher | Smartio | Rsl | Gamepad | Diagnostics | Match | Web

datatype action =
    Install_handlers
  | Lock_memory
  | Start_server nat
  | Set_topic string nt_value
  | Publish_topic string string
  | Start component
  | Stop component
  | Notify NotifyKind
  | Terminate

text \<open>Up to the start of the bridge, whose thread runs from then on.\<close>

definition main_setup :: "action list" where
  "main_setup =
    [Install_handlers, Lock_memory, Start_server kDefaultPort,
     Set_topic kServerReady (NtBool True), Set_topic kBattery (NtDouble 12)]
    @ map (\<lambda>(topic, v). Set_topic topic v) imu_publications
    @ [Publish_topic kControlData kTypeProtoControlData, Start Publisher, Start Smartio]"

definition main_threads :: "action list" where
  "main_threads =
    [Start Rsl, Start Gamepad, Start Diagnostics, Start Match, Start Web, Notify Ready]"

definition main_shutdown :: "action list" where
  "main_shutdown =
    [Notify Stopping, Stop Web, Stop Match, Stop Diagnostics, Stop Gamepad, Stop Rsl, Stop Smartio,
     Stop Publisher]"

text \<open>
  Whether the light starts, on the backend as the bridge's ticks so far left it. An exception
  that leaves a thread, or \<open>main\<close> itself, ends the process.
\<close>

definition light_starts :: "'b IGpioBackend \<Rightarrow> 'b \<Rightarrow> i64 nt_values list \<Rightarrow> bool" where
  "light_starts B b nts =
    (case bridge_run B nts (new_smartio_bridge kPinMap, b, []) of
       (Inl _, _) \<Rightarrow> False
     | (Inr _, (_, b', _)) \<Rightarrow>
         (case rsl_start B (new_rsl_blinker kRslGpio, b') of (Inl _, _) \<Rightarrow> False | (Inr _, _) \<Rightarrow> True))"

definition light_starts_on :: "gpiod_lib \<Rightarrow> LibgpiodBackend option \<Rightarrow> i64 nt_values list \<Rightarrow> bool" where
  "light_starts_on L backend nts = (case backend of
      Some b \<Rightarrow> light_starts (libgpiod_backend L) b nts
    | None \<Rightarrow> light_starts null_gpio_backend () nts)"

text \<open>
  The idle loop, over its passes: what the stop flag held, and the clock after the sleep. The
  result is the instants of the watchdog notifications.
\<close>

definition one_second :: int where "one_second = 1000000000"

fun watchdog_loop :: "int \<Rightarrow> (bool \<times> int) list \<Rightarrow> int list" where
  "watchdog_loop next_watchdog [] = []"
| "watchdog_loop next_watchdog ((stop_requested, now) # passes) =
    (if stop_requested then []
     else if next_watchdog \<le> now then now # watchdog_loop (next_watchdog + one_second) passes
     else watchdog_loop next_watchdog passes)"

definition main_loop :: "int \<Rightarrow> (bool \<times> int) list \<Rightarrow> int list" where
  "main_loop now passes = watchdog_loop (now + one_second) passes"

definition main_program ::
  "gpiod_lib \<Rightarrow> (string \<Rightarrow> cxx_exn + bool) \<Rightarrow> string option \<Rightarrow> i64 nt_values list
     \<Rightarrow> int \<Rightarrow> (bool \<times> int) list \<Rightarrow> action list" where
  "main_program L open_chip override_path nts now passes =
    (if light_starts_on L (choose_backend open_chip override_path) nts
     then main_setup @ main_threads @ map (\<lambda>_. Notify Watchdog) (main_loop now passes) @ main_shutdown
     else main_setup @ [Terminate])"

text \<open>
  A ping answers its deadline within one pass, and after the last pass no deadline is open.
\<close>

fun pings_ok :: "int \<Rightarrow> int \<Rightarrow> int list \<Rightarrow> bool" where
  "pings_ok g dl [] \<longleftrightarrow> True"
| "pings_ok g dl (t # ts) \<longleftrightarrow> dl \<le> t \<and> t < dl + g \<and> pings_ok g (dl + one_second) ts"

fun close_passes :: "int \<Rightarrow> int \<Rightarrow> (bool \<times> int) list \<Rightarrow> bool" where
  "close_passes g p [] \<longleftrightarrow> True"
| "close_passes g p ((stop, t) # ps) \<longleftrightarrow> \<not> stop \<and> p \<le> t \<and> t - p \<le> g \<and> close_passes g t ps"

lemma watchdog_pings:
  assumes "close_passes g p passes" "p < dl" "g \<le> one_second"
  shows "pings_ok g dl (watchdog_loop dl passes) \<and>
    last (p # map snd passes) < dl + int (length (watchdog_loop dl passes)) * one_second"
  using assms(1,2)
proof (induction passes arbitrary: p dl)
  case (Cons x xs)
  obtain stop t where x: "x = (stop, t)" by (cases x)
  with Cons.prems have t: "\<not> stop" "p \<le> t" "t - p \<le> g" "close_passes g t xs" by simp_all
  show ?case
  proof (cases "dl \<le> t")
    case True
    from t Cons.prems(2) assms(3) have "t < dl + one_second" "t < dl + g" by linarith+
    with Cons.IH [OF t(4) this(1)] True t(1) x show ?thesis
      by (simp add: algebra_simps split: if_splits)
  next
    case False
    with Cons.IH [OF t(4), of dl] t(1) x show ?thesis by (simp split: if_splits)
  qed
qed simp

lemma pings_ok_nth:
  assumes "pings_ok g dl ts" "n < length ts"
  shows "dl + int n * one_second \<le> ts ! n \<and> ts ! n < dl + int n * one_second + g"
  using assms
proof (induction ts arbitrary: dl n)
  case (Cons t ts)
  show ?case
  proof (cases n)
    case 0
    with Cons.prems show ?thesis by simp
  next
    case (Suc m)
    with Cons.prems Cons.IH [of "dl + one_second" m] show ?thesis by (simp add: algebra_simps)
  qed
qed simp

section \<open>The null backend never throws\<close>

lemma null_ops [simp]:
  "release_line null_gpio_backend g = ret ()" "request_input null_gpio_backend g = ret ()"
  "request_output null_gpio_backend g v = ret ()" "set_value null_gpio_backend g v = ret ()"
  "get_value null_gpio_backend g = ret False"
  by (simp_all add: null_gpio_backend_def)

definition never_throws :: "('s, 'a) act \<Rightarrow> bool" where
  "never_throws m \<longleftrightarrow> (\<forall>s e t. m s \<noteq> (Inl e, t))"

lemma never_throws_outcome: "never_throws m \<Longrightarrow> \<not> isl (fst (m s))"
  by (cases "m s"; cases "fst (m s)") (auto simp: never_throws_def)

lemma never_throws_returns: "never_throws m \<Longrightarrow> \<exists>a t. m s = (Inr a, t)"
  by (cases "m s"; cases "fst (m s)") (auto simp: never_throws_def)

lemma never_throws_andThen:
  "never_throws m \<Longrightarrow> (\<And>a. never_throws (f a)) \<Longrightarrow> never_throws (andThen m f)"
  by (auto simp: never_throws_def act_simps)

lemma never_throws_basic [simp]:
  "never_throws (ret a)" "never_throws (modify f)" "never_throws (Pair (Inr a))"
  by (simp_all add: never_throws_def)

lemma never_throws_on_channel: "never_throws m \<Longrightarrow> never_throws (on_channel m)"
  by (auto simp: never_throws_def act_simps)

lemma null_channel_never_throws:
  "never_throws (on_type_changed null_gpio_backend t)" "never_throws (on_valset null_gpio_backend v)"
  "never_throws (sample_input null_gpio_backend)"
  by (auto simp: never_throws_def on_type_changed_def on_valset_def sample_input_def on_backend_def
      andThen_def Let_def split: option.splits if_splits)

lemma null_glue_never_throws: "never_throws (glue_tick null_gpio_backend nt)"
proof -
  note c = null_channel_never_throws [THEN never_throws_on_channel]
  have "never_throws (tick_type null_gpio_backend nt)" "never_throws (tick_valset null_gpio_backend nt)"
    "never_throws (tick_sample null_gpio_backend)"
    using c by (auto simp: never_throws_def tick_type_def tick_valset_def tick_sample_def Let_def
        act_simps split: if_splits)
  then show ?thesis by (simp add: glue_tick_def never_throws_andThen)
qed

lemma null_bridge_never_throws:
  "never_throws (bridge_tick null_gpio_backend nt)" "never_throws (bridge_run null_gpio_backend nts)"
proof -
  show tick: "never_throws (bridge_tick null_gpio_backend nt)" for nt
  proof -
    have "bridge_tick null_gpio_backend nt (gs, b, out) \<noteq> (Inl e, t)" for gs b out e t
    proof (induction gs arbitrary: b out t)
      case (Cons g gs)
      obtain ok g1 b1 out1 where "glue_tick null_gpio_backend nt (g, b, out) = (Inr ok, (g1, b1, out1))"
        using never_throws_returns [OF null_glue_never_throws] by (metis prod_cases3)
      with Cons.IH [of b1 out1] show ?case by (auto split: prod.splits)
    qed simp
    then show ?thesis by (simp add: never_throws_def split_paired_all)
  qed
  show "never_throws (bridge_run null_gpio_backend nts)"
    by (induction nts) (simp_all add: never_throws_andThen tick)
qed

lemma null_rsl_never_throws:
  "never_throws (rsl_start null_gpio_backend)" "never_throws (rsl_tick null_gpio_backend g st now)"
  "never_throws (rsl_stop null_gpio_backend)"
  by (auto simp: never_throws_def rsl_start_def rsl_tick_def rsl_stop_def Let_def split: if_splits)

lemma light_starts_null: "light_starts null_gpio_backend () nts"
  using null_bridge_never_throws(2) [of nts]
  by (auto simp: never_throws_def light_starts_def rsl_start_def split: prod.split sum.split)

lemma main_program_runs:
  "choose_backend open_chip override_path = None \<Longrightarrow>
     Notify Ready \<in> set (main_program L open_chip override_path nts t0 passes)"
  by (simp add: main_program_def light_starts_on_def light_starts_null main_threads_def)

section \<open>Signals\<close>

text \<open>
  SIGTERM and SIGINT run \<open>on_signal\<close>, which sets the flag that the idle loop loads before each
  sleep of 100 ms. A pass is the instant of the load and the instant the loop wakes at.
\<close>

definition on_signal :: "bool \<Rightarrow> bool" where
  "on_signal stop_requested = True"

definition stop_flag :: "int list \<Rightarrow> int \<Rightarrow> bool" where
  "stop_flag signals now = fold (\<lambda>s. on_signal) (filter (\<lambda>s. s \<le> now) signals) False"

definition signalled_passes :: "int list \<Rightarrow> (int \<times> int) list \<Rightarrow> (bool \<times> int) list" where
  "signalled_passes signals = map (\<lambda>(check, woke). (stop_flag signals check, woke))"

text \<open>When the loop leaves, if it does within the passes.\<close>

fun main_exit :: "(bool \<times> int) list \<Rightarrow> (int \<times> int) list \<Rightarrow> int option" where
  "main_exit ((stop_requested, _) # passes) ((check, _) # checks) =
    (if stop_requested then Some check else main_exit passes checks)"
| "main_exit _ _ = None"

text \<open>Passes that follow each other, each at most \<open>g\<close> long, from the instant \<open>c\<close>.\<close>

fun polled :: "int \<Rightarrow> int \<Rightarrow> (int \<times> int) list \<Rightarrow> bool" where
  "polled g c [] \<longleftrightarrow> True"
| "polled g c ((check, woke) # ps) \<longleftrightarrow> check = c \<and> c \<le> woke \<and> woke - c \<le> g \<and> polled g woke ps"

lemma stop_flag_iff: "stop_flag signals now \<longleftrightarrow> (\<exists>s \<in> set signals. s \<le> now)"
proof -
  have "fold (\<lambda>s. on_signal) ss b \<longleftrightarrow> ss \<noteq> [] \<or> b" for ss :: "int list" and b
    by (induction ss arbitrary: b) (simp_all add: on_signal_def)
  then show ?thesis by (simp add: stop_flag_def filter_empty_conv)
qed

lemma loop_leaves:
  assumes "polled g c ps" "c \<le> s + g" "s \<in> set signals" "\<forall>s' \<in> set signals. s \<le> s'"
    and "\<exists>p \<in> set ps. s \<le> fst p"
  shows "\<exists>e. main_exit (signalled_passes signals ps) ps = Some e \<and> s \<le> e \<and> e \<le> s + g
    \<and> list_all (\<lambda>t. t \<le> e) (watchdog_loop dl (signalled_passes signals ps))"
  using assms(1,2,5)
proof (induction ps arbitrary: c dl)
  case (Cons p ps)
  obtain woke where p: "p = (c, woke)" and woke: "c \<le> woke" "woke - c \<le> g" and ps: "polled g woke ps"
    using Cons.prems(1) by (cases p) auto
  show ?case
  proof (cases "s \<le> c")
    case True
    with assms(3) have "stop_flag signals c" by (auto simp: stop_flag_iff)
    with True Cons.prems(2) show ?thesis by (simp add: p signalled_passes_def)
  next
    case False
    with assms(4) have go: "\<not> stop_flag signals c" by (fastforce simp: stop_flag_iff)
    from False Cons.prems(3) have late: "\<exists>p \<in> set ps. s \<le> fst p" by (auto simp: p)
    from False woke have "woke \<le> s + g" by simp
    note IH = Cons.IH [OF ps this late]
    from IH [of dl] IH [of "dl + one_second"] obtain e where
      e: "main_exit (signalled_passes signals ps) ps = Some e" "s \<le> e" "e \<le> s + g"
      "list_all (\<lambda>t. t \<le> e) (watchdog_loop dl (signalled_passes signals ps))"
      "list_all (\<lambda>t. t \<le> e) (watchdog_loop (dl + one_second) (signalled_passes signals ps))" by auto
    have "woke \<le> e" if "main_exit (signalled_passes signals ps) ps = Some e" "polled g woke ps" for ps woke e
      using that
    proof (induction ps arbitrary: woke)
      case (Cons r rs)
      obtain v where r: "r = (woke, v)" using Cons.prems(2) by (cases r) auto
      with Cons.prems Cons.IH [of v] show ?case by (auto simp: signalled_passes_def split: if_splits)
    qed (simp add: signalled_passes_def)
    from this [OF e(1) ps] go e show ?thesis by (simp add: p signalled_passes_def)
  qed
qed simp

section \<open>Properties\<close>

text \<open>
  C40 (bounds): while the idle loop's passes are at most \<open>g\<close> apart (100 ms and the scheduling
  delay; at most a second), the n-th watchdog notification leaves less than \<open>g\<close> after its
  deadline, n seconds after the start, and none is left out: at the last pass fewer than a
  second is due. Two in a row are less than 2 seconds apart, the unit's \<open>WatchdogSec\<close>.
\<close>

theorem watchdog_pings_in_time:
  assumes "close_passes g t0 passes" "g \<le> one_second"
  shows "(\<forall>i < length (main_loop t0 passes). let d = t0 + (int i + 1) * one_second in
      d \<le> main_loop t0 passes ! i \<and> main_loop t0 passes ! i < d + g) \<and>
    last (t0 # map snd passes) < t0 + (int (length (main_loop t0 passes)) + 1) * one_second"
proof -
  from watchdog_pings [OF assms(1) _ assms(2), of "t0 + one_second"]
  have p: "pings_ok g (t0 + one_second) (main_loop t0 passes)"
    and l: "last (t0 # map snd passes) <
      t0 + one_second + int (length (main_loop t0 passes)) * one_second"
    by (simp_all add: main_loop_def one_second_def)
  from pings_ok_nth [OF p] l show ?thesis by (simp add: Let_def algebra_simps)
qed

lemma watchdog_pings_in_time_witness:
  "main_loop 0 [(False, 700000000), (False, 1100000000), (False, 1900000000), (False, 2000000000)]
   = [1100000000, 2000000000] \<and> (2000000000::int) < 3 * one_second"
proof -
  let ?ps = "[(False, 700000000), (False, 1100000000), (False, 1900000000), (False, 2000000000 :: int)]"
  have loop: "main_loop 0 ?ps = [1100000000, 2000000000]"
    by (simp add: main_loop_def one_second_def)
  have "close_passes 800000000 0 ?ps" "(800000000::int) \<le> one_second"
    by (simp_all add: one_second_def)
  from watchdog_pings_in_time [OF this] loop show ?thesis by simp
qed





fun started :: "action list \<Rightarrow> component list" where
  "started [] = []"
| "started (a # as) = (case a of Start c \<Rightarrow> c # started as | _ \<Rightarrow> started as)"

fun stopped :: "action list \<Rightarrow> component list" where
  "stopped [] = []"
| "stopped (a # as) = (case a of Stop c \<Rightarrow> c # stopped as | _ \<Rightarrow> stopped as)"

fun notified :: "action list \<Rightarrow> NotifyKind list" where
  "notified [] = []"
| "notified (a # as) = (case a of Notify k \<Rightarrow> k # notified as | _ \<Rightarrow> notified as)"

lemma pings_only_notify [simp]:
  "started (map (\<lambda>_. Notify Watchdog) ts @ as) = started as"
  "stopped (map (\<lambda>_. Notify Watchdog) ts @ as) = stopped as"
  "notified (map (\<lambda>_. Notify Watchdog) ts @ as) = map (\<lambda>_. Watchdog) ts @ notified as"
  by (induction ts) simp_all


end
