(* ===== verification/Shared_Gpio.thy ===== *)
theory Shared_Gpio
  imports Main_Daemon
begin

text \<open>
  What main brings together on one GPIO backend: the bridge's thread and the signal light's, as
  any interleaving of their ticks, on the libgpiod backend and on the null backend.
\<close>

section \<open>The shared backend\<close>

datatype gpio_tick = Bridge_tick "i64 nt_values" | Rsl_tick DaemonState int

type_synonym gpio_world = "ChannelGlue list \<times> rsl_locals \<times> LibgpiodBackend \<times> published"

text \<open>One tick of either thread; a tick that throws ends the process.\<close>

fun gpio_tick_step :: "gpiod_lib \<Rightarrow> gpio_tick \<Rightarrow> (gpio_world, unit) act" where
  "gpio_tick_step L (Bridge_tick nt) = (\<lambda>(gs, l, b, out).
     case bridge_tick (libgpiod_backend L) nt (gs, b, out) of
       (r, (gs', b', out')) \<Rightarrow> (r, (gs', l, b', out')))"
| "gpio_tick_step L (Rsl_tick st now) = (\<lambda>(gs, l, b, out).
     case rsl_tick (libgpiod_backend L) kRslGpio st now (l, b) of
       (r, (l', b')) \<Rightarrow> (r, (gs, l', b', out)))"

fun gpio_ticks_run :: "gpiod_lib \<Rightarrow> gpio_tick list \<Rightarrow> (gpio_world, unit) act" where
  "gpio_ticks_run L [] = ret ()"
| "gpio_ticks_run L (x # xs) = andThen (gpio_tick_step L x) (\<lambda>_. gpio_ticks_run L xs)"

definition world_ok :: "gpio_world \<Rightarrow> bool" where
  "world_ok = (\<lambda>(gs, l, b, out). gpiod_inv b \<and> list_all (tracks (line_uses b)) gs
     \<and> map glue_gpio gs = map pm_gpio kPinMap
     \<and> line_uses b kRslGpio = Some (UseOutput (rsl_last l)))"

lemma rsl_not_in_pin_map: "kRslGpio \<notin> pm_gpio ` set kPinMap"
  and pin_map_distinct: "distinct (map pm_gpio kPinMap)"
  by (simp_all add: kRslGpio_def kPinMap_def)

lemma tracks_elsewhere:
  assumes "list_all (tracks u) gs" "\<And>h. h \<in> glue_gpio ` set gs \<Longrightarrow> u' h = u h"
  shows "list_all (tracks u') gs"
  using assms by (simp add: list_all_iff tracks_def)

lemma gpio_tick_step_ok:
  assumes "world_ok (gs, l, b, out)" "gpio_tick_step L x (gs, l, b, out) = (Inr ok, (gs', l', b', out'))"
  shows "world_ok (gs', l', b', out') \<and>
    (case x of Bridge_tick nt \<Rightarrow> gs' = map (abstract_glue nt) gs \<and> l' = l
     | Rsl_tick st now \<Rightarrow> gs' = gs \<and> rsl_last l' = rsl_want l st now \<and> rsl_t0 l' = rsl_t0 l)"
proof (cases x)
  case (Bridge_tick nt)
  with assms(2) have run: "bridge_tick (libgpiod_backend L) nt (gs, b, out) = (Inr ok, (gs', b', out'))"
    and l: "l' = l" by (auto split: prod.splits)
  from assms(1) have ok: "gpiod_inv b" "\<forall>g \<in> set gs. tracks (line_uses b) g"
    "map glue_gpio gs = map pm_gpio kPinMap" "line_uses b kRslGpio = Some (UseOutput (rsl_last l))"
    by (simp_all add: world_ok_def list_all_iff)
  from lib.bridge_tick_refines [OF ok(1,2) _ run] ok(3) pin_map_distinct
  have r: "gs' = map (abstract_glue nt) gs" "gpiod_inv b'" "\<forall>g \<in> set gs'. tracks (line_uses b') g"
    "\<forall>h. h \<notin> glue_gpio ` set gs \<longrightarrow> line_uses b' h = line_uses b h" by simp_all
  from ok(3) have "glue_gpio ` set gs = pm_gpio ` set kPinMap" by (metis set_map)
  with r(4) rsl_not_in_pin_map have "line_uses b' kRslGpio = line_uses b kRslGpio" by simp
  with ok(4) l have rsl: "line_uses b' kRslGpio = Some (UseOutput (rsl_last l'))" by simp
  have "map glue_gpio gs' = map glue_gpio gs" by (simp add: r(1))
  with ok(3) have "map glue_gpio gs' = map pm_gpio kPinMap" by (simp only:)
  with r(2,3) rsl have "world_ok (gs', l', b', out')"
    unfolding world_ok_def list_all_iff prod.case by blast
  with r(1) l Bridge_tick show ?thesis by simp
next
  case (Rsl_tick st now)
  with assms(2) have run: "rsl_tick (libgpiod_backend L) kRslGpio st now (l, b) = (Inr ok, (l', b'))"
    and gs: "gs' = gs" by (auto split: prod.splits)
  from assms(1) have ok: "gpiod_inv b" "list_all (tracks (line_uses b)) gs"
    "map glue_gpio gs = map pm_gpio kPinMap" "line_uses b kRslGpio = Some (UseOutput (rsl_last l))"
    by (simp_all add: world_ok_def)
  from lib.rsl_tick_use [OF ok(1,4) run] have r: "gpiod_inv b'"
    "line_uses b' = (line_uses b)(kRslGpio \<mapsto> UseOutput (rsl_last l'))"
    "rsl_last l' = rsl_want l st now" by simp_all
  from ok(3) have "glue_gpio ` set gs = pm_gpio ` set kPinMap" by (metis set_map)
  with rsl_not_in_pin_map have "h \<noteq> kRslGpio" if "h \<in> glue_gpio ` set gs" for h
    using that by metis
  then have "list_all (tracks (line_uses b')) gs"
    by (intro tracks_elsewhere [OF ok(2)]) (simp add: r(2))
  with r ok(3) gs rsl_tick_t0 [OF run] Rsl_tick show ?thesis by (simp add: world_ok_def)
qed

definition bridge_values :: "gpio_tick list \<Rightarrow> i64 nt_values list" where
  "bridge_values xs = [nt. Bridge_tick nt \<leftarrow> xs]"

definition rsl_instants :: "gpio_tick list \<Rightarrow> (DaemonState \<times> int) list" where
  "rsl_instants xs = [(st, now). Rsl_tick st now \<leftarrow> xs]"

lemma tick_lists [simp]:
  "bridge_values [] = []" "rsl_instants [] = []"
  "bridge_values (Bridge_tick nt # xs) = nt # bridge_values xs"
  "bridge_values (Rsl_tick st now # xs) = bridge_values xs"
  "rsl_instants (Bridge_tick nt # xs) = rsl_instants xs"
  "rsl_instants (Rsl_tick st now # xs) = (st, now) # rsl_instants xs"
  "bridge_values (xs @ ys) = bridge_values xs @ bridge_values ys"
  "rsl_instants (xs @ ys) = rsl_instants xs @ rsl_instants ys"
  by (simp_all add: bridge_values_def rsl_instants_def)

lemma gpio_ticks_run_ok:
  assumes "world_ok (gs, l, b, out)" "gpio_ticks_run L xs (gs, l, b, out) = (Inr ok, (gs', l', b', out'))"
  shows "world_ok (gs', l', b', out') \<and> gs' = map (fold abstract_glue (bridge_values xs)) gs \<and>
    rsl_last l' = fold (\<lambda>(st, now) _. rsl_want l st now) (rsl_instants xs) (rsl_last l)"
  using assms
proof (induction xs arbitrary: gs l b out)
  case Nil
  then show ?case by simp
next
  case (Cons x xs)
  from Cons.prems(2) obtain ok1 gs1 l1 b1 out1 where
    s: "gpio_tick_step L x (gs, l, b, out) = (Inr ok1, (gs1, l1, b1, out1))"
    and rest: "gpio_ticks_run L xs (gs1, l1, b1, out1) = (Inr ok, (gs', l', b', out'))"
    by (auto simp: act_simps)
  from gpio_tick_step_ok [OF Cons.prems(1) s] have w: "world_ok (gs1, l1, b1, out1)"
    and f: "case x of Bridge_tick nt \<Rightarrow> gs1 = map (abstract_glue nt) gs \<and> l1 = l
     | Rsl_tick st now \<Rightarrow> gs1 = gs \<and> rsl_last l1 = rsl_want l st now \<and> rsl_t0 l1 = rsl_t0 l"
    by simp_all
  from Cons.IH [OF w rest] have IH: "world_ok (gs', l', b', out')"
    "gs' = map (fold abstract_glue (bridge_values xs)) gs1"
    "rsl_last l' = fold (\<lambda>(st, now) _. rsl_want l1 st now) (rsl_instants xs) (rsl_last l1)"
    by blast+
  show ?case
  proof (cases x)
    case (Bridge_tick nt)
    with f have f: "gs1 = map (abstract_glue nt) gs" "l1 = l" by simp_all
    have "gs' = map (fold abstract_glue (bridge_values (x # xs))) gs"
      unfolding IH(2) f(1) Bridge_tick by simp
    with IH(1,3) f(2) Bridge_tick show ?thesis by auto
  next
    case (Rsl_tick st now)
    with f have g: "gs1 = gs" "rsl_last l1 = rsl_want l st now" "rsl_t0 l1 = rsl_t0 l" by simp_all
    from g(3) have "rsl_want l1 = rsl_want l" by (simp add: rsl_want_def fun_eq_iff)
    with IH g Rsl_tick show ?thesis by auto
  qed
qed

text \<open>
  From the start: some bridge ticks run before main starts the light, which claims its line.
\<close>

lemma started_world_ok:
  assumes "bridge_run (libgpiod_backend L) nts (new_smartio_bridge kPinMap, new_libgpiod_backend, [])
      = (Inr (), (gs, b, out))"
    and "rsl_start (libgpiod_backend L) (new_rsl_blinker kRslGpio, b) = (Inr (), (r, b'))"
  shows "world_ok (gs, new_rsl_locals t0, b', out) \<and>
    gs = map (fold abstract_glue nts) (new_smartio_bridge kPinMap)"
proof -
  note gs = started_bridge_tracks(1) [OF pin_map_distinct assms(1)]
  have b: "gpiod_inv b" "list_all (tracks (line_uses b)) gs"
    using started_bridge_tracks(2,3) [OF pin_map_distinct assms(1)] by (simp_all add: list_all_iff)
  from lib.rsl_start_use [OF b(1) assms(2)] have b': "gpiod_inv b'"
    "line_uses b' = (line_uses b)(kRslGpio \<mapsto> UseOutput True)" by (simp_all add: new_rsl_blinker_def)
  have pins: "map glue_gpio gs = map pm_gpio kPinMap"
    by (simp add: gs new_smartio_bridge_def fold_abstract_glue new_glue_topics o_def)
  then have "glue_gpio ` set gs = pm_gpio ` set kPinMap" by (metis set_map)
  with rsl_not_in_pin_map have "h \<noteq> kRslGpio" if "h \<in> glue_gpio ` set gs" for h
    using that by metis
  then have "list_all (tracks (line_uses b')) gs"
    by (intro tracks_elsewhere [OF b(2)]) (simp add: b'(2))
  with b' pins have "world_ok (gs, new_rsl_locals t0, b', out)"
    by (simp add: world_ok_def new_rsl_locals_def)
  with gs show ?thesis by blast
qed

lemma fold_last_instant:
  "fold (\<lambda>(st, now) _. f st now) xs a = (if xs = [] then a else f (fst (last xs)) (snd (last xs)))"
  by (induction xs rule: rev_induct) (simp_all add: case_prod_beta)

text \<open>
  C11 (invariant): the bridge's and the signal light's threads share one libgpiod backend. Start
  them as main does, on main's pin map, and run their ticks in any interleaving that does not
  end the process: each mapped GPIO is used as the latest proper values of its channel's topics
  say, and the light's GPIO is an output at the level its last tick wanted (on, before any
  tick). Neither thread disturbs the other.
\<close>

theorem threads_share_backend:
  assumes "bridge_run (libgpiod_backend L) nts (new_smartio_bridge kPinMap, new_libgpiod_backend, [])
      = (Inr (), (gs, b, out))"
    and "rsl_start (libgpiod_backend L) (new_rsl_blinker kRslGpio, b) = (Inr (), (r, b'))"
    and "gpio_ticks_run L xs (gs, new_rsl_locals t0, b', out) = (Inr (), (gs', l', b'', out'))"
    and "m \<in> set kPinMap"
  shows "line_uses b'' (pm_gpio m) =
      use_seen (fold (\<lambda>nt. seen (topic_or kSentinel nt (io_topic (pm_channel m) ''/type'')))
          (nts @ bridge_values xs) kSentinel)
        (fold (\<lambda>nt. seen (topic_or kSentinel nt (io_topic (pm_channel m) ''/valset'')))
          (nts @ bridge_values xs) kSentinel) \<and>
    line_uses b'' kRslGpio = Some (UseOutput (rsl_instants xs = [] \<or>
      desired_level (ds_enabled (fst (last (rsl_instants xs))))
        (cast_ms (snd (last (rsl_instants xs)) - t0))))"
proof -
  let ?g = "fold abstract_glue (nts @ bridge_values xs) (new_glue m)"
  from started_world_ok [OF assms(1,2)] have w: "world_ok (gs, new_rsl_locals t0, b', out)"
    and gs: "gs = map (fold abstract_glue nts) (new_smartio_bridge kPinMap)" by blast+
  from gpio_ticks_run_ok [OF w assms(3)] have w': "world_ok (gs', l', b'', out')"
    and gs': "gs' = map (fold abstract_glue (bridge_values xs)) gs"
    and l': "rsl_last l' = fold (\<lambda>(st, now) _. rsl_want (new_rsl_locals t0) st now) (rsl_instants xs)
      (rsl_last (new_rsl_locals t0))"
    by blast+
  from w' have tr: "list_all (tracks (line_uses b'')) gs'"
    and rsl: "line_uses b'' kRslGpio = Some (UseOutput (rsl_last l'))" by (simp_all add: world_ok_def)
  from assms(4) have "?g \<in> set gs'" unfolding gs' gs by (auto simp: new_smartio_bridge_def)
  with tr have "tracks (line_uses b'') ?g" by (simp add: list_all_iff)
  from tracks_use_seen [OF this] rsl l' show ?thesis
    by (simp add: fold_abstract_glue new_glue_topics fold_last_instant rsl_want_def new_rsl_locals_def)
qed

definition demo_values :: "i64 nt_values" where
  "demo_values = [''/io/0/type'' \<mapsto> 1, ''/io/0/valset'' \<mapsto> 255]"

lemma io_topic_small:
  "io_topic 0 l = ''/io/0'' @ l" "io_topic 1 l = ''/io/1'' @ l"
  "io_topic 2 l = ''/io/2'' @ l" "io_topic 3 l = ''/io/3'' @ l"
  by (simp_all add: io_topic_def int_string_def decimal.simps)

lemma demo_light_off: "\<not> desired_level True 620"
  by (simp add: desired_level_def cdiv_def kBlinkHalfPeriod_def)

lemmas demo_threads = new_smartio_bridge_def kPinMap_def new_glue_def io_topic_small glue_tick_def
  tick_type_def tick_valset_def tick_sample_def topic_or_def demo_values_def kSentinel_def andThen_def
  on_channel_def on_type_changed_def on_valset_def sample_input_def requested_mode_def new_channel_def
  on_backend_def gpiod_defs quiet_lib_def new_libgpiod_backend_def usable_def int_of_int64_def Let_def
  rsl_start_def new_rsl_blinker_def rsl_tick_def new_rsl_locals_def demo_light_off kRslGpio_def

definition demo_ticks :: "gpio_tick list" where
  "demo_ticks = [Bridge_tick demo_values, Rsl_tick (set_enabled True initial_daemon_state) (ns_of_ms 620)]"

definition demo_start :: "(cxx_exn + unit) \<times> RslBlinker \<times> LibgpiodBackend" where
  "demo_start = rsl_start (libgpiod_backend quiet_lib) (new_rsl_blinker kRslGpio, new_libgpiod_backend)"

definition demo_threads_run :: "(cxx_exn + unit) \<times> gpio_world" where
  "demo_threads_run = gpio_ticks_run quiet_lib demo_ticks
     (new_smartio_bridge kPinMap, new_rsl_locals 0, snd (snd demo_start), [])"

lemma threads_share_backend_witness:
  "line_uses (fst (snd (snd (snd demo_threads_run)))) 17 = Some (UseOutput True) \<and>
   line_uses (fst (snd (snd (snd demo_threads_run)))) 26 = Some (UseOutput False)"
proof -
  let ?s = demo_start and ?t = demo_threads_run
  have n: "bridge_run (libgpiod_backend quiet_lib) [] (new_smartio_bridge kPinMap, new_libgpiod_backend, [])
    = (Inr (), (new_smartio_bridge kPinMap, new_libgpiod_backend, []))" by simp
  have "fst ?s = Inr ()" by (simp add: demo_start_def demo_threads)
  then have s: "rsl_start (libgpiod_backend quiet_lib) (new_rsl_blinker kRslGpio, new_libgpiod_backend)
    = (Inr (), (fst (snd ?s), snd (snd ?s)))" by (simp add: demo_start_def prod_eq_iff)
  have "fst ?t = Inr ()"
    by (simp add: demo_threads_run_def demo_start_def demo_ticks_def demo_threads)
  then have t: "gpio_ticks_run quiet_lib demo_ticks
     (new_smartio_bridge kPinMap, new_rsl_locals 0, snd (snd demo_start), [])
    = (Inr (), (fst (snd ?t), fst (snd (snd ?t)), fst (snd (snd (snd ?t))), snd (snd (snd (snd ?t)))))"
    by (simp add: demo_threads_run_def prod_eq_iff)
  have "\<lparr>pm_channel = 0, pm_gpio = 17\<rparr> \<in> set kPinMap" by (simp add: kPinMap_def)
  from threads_share_backend [OF n s t this] demo_light_off show ?thesis
    by (simp add: demo_ticks_def io_topic_small topic_or_def demo_values_def seen_def kSentinel_def
        use_seen_def mode_seen_def mode_of_type_def requested_mode_def level_seen_def
        int_of_int64_def kRslGpio_def)
qed

end
