(* ===== verification/Gpio_Shutdown.thy ===== *)
theory Gpio_Shutdown
  imports Shared_Gpio
begin

text \<open>
  The GPIO lines over the whole life of the process: the bridge starts, the light starts, both
  tick, the light stops while the bridge still ticks, the bridge stops, and at the end of main
  the light's and the backend's destructors run. Any call of the library may throw, which ends
  the process there.
\<close>

section \<open>From start to exit\<close>

type_synonym gpio_process = "ChannelGlue list \<times> RslBlinker \<times> LibgpiodBackend \<times> published"

definition on_bridge ::
  "(ChannelGlue list \<times> LibgpiodBackend \<times> published, unit) act \<Rightarrow> (gpio_process, unit) act" where
  "on_bridge m = (\<lambda>(gs, r, b, out). case m (gs, b, out) of (res, (gs', b', out')) \<Rightarrow> (res, (gs', r, b', out')))"

definition on_light :: "(RslBlinker \<times> LibgpiodBackend, unit) act \<Rightarrow> (gpio_process, unit) act" where
  "on_light m = (\<lambda>(gs, r, b, out). case m (r, b) of (res, (r', b')) \<Rightarrow> (res, (gs, r', b', out)))"

definition on_lines :: "(LibgpiodBackend, unit) act \<Rightarrow> (gpio_process, unit) act" where
  "on_lines m = (\<lambda>(gs, r, b, out). case m b of (res, b') \<Rightarrow> (res, (gs, r, b', out)))"

text \<open>Both threads tick, the light's from its own start \<open>t0\<close>.\<close>

definition on_both :: "gpiod_lib \<Rightarrow> int \<Rightarrow> gpio_tick list \<Rightarrow> (gpio_process, unit) act" where
  "on_both L t0 xs = (\<lambda>(gs, r, b, out). case gpio_ticks_run L xs (gs, new_rsl_locals t0, b, out) of
     (res, (gs', l, b', out')) \<Rightarrow> (res, (gs', r, b', out')))"

text \<open>
  \<open>early\<close> and \<open>late\<close>: what the bridge sees before the light starts and after it stops; \<open>ks\<close>: the
  order in which the backend's map is iterated.
\<close>

definition gpio_session :: "gpiod_lib \<Rightarrow> i64 nt_values list \<Rightarrow> int \<Rightarrow> gpio_tick list \<Rightarrow> (gpio_process, unit) act" where
  "gpio_session L early t0 xs =
    andThen (on_bridge (bridge_run (libgpiod_backend L) early)) (\<lambda>_.
    andThen (on_light (rsl_start (libgpiod_backend L))) (\<lambda>_. on_both L t0 xs))"

definition gpio_stops :: "gpiod_lib \<Rightarrow> i64 nt_values list \<Rightarrow> (gpio_process, unit) act" where
  "gpio_stops L late =
    andThen (on_light (rsl_stop (libgpiod_backend L))) (\<lambda>_.
    on_bridge (bridge_run (libgpiod_backend L) late))"

definition gpio_destructors :: "gpiod_lib \<Rightarrow> i32 list \<Rightarrow> (gpio_process, unit) act" where
  "gpio_destructors L ks =
    andThen (on_light (rsl_stop (libgpiod_backend L))) (\<lambda>_. on_lines (gpiod_destroy L ks))"

definition gpio_life ::
  "gpiod_lib \<Rightarrow> i64 nt_values list \<Rightarrow> int \<Rightarrow> gpio_tick list \<Rightarrow> i64 nt_values list \<Rightarrow> i32 list
     \<Rightarrow> (cxx_exn + unit) \<times> gpio_process" where
  "gpio_life L early t0 xs late ks =
    andThen (gpio_session L early t0 xs) (\<lambda>_. andThen (gpio_stops L late) (\<lambda>_. gpio_destructors L ks))
      (new_smartio_bridge kPinMap, new_rsl_blinker kRslGpio, new_libgpiod_backend, [])"

section \<open>What every step keeps\<close>

definition daemon_pins :: "i32 set" where
  "daemon_pins = insert kRslGpio (pm_gpio ` set kPinMap)"

definition on_pins :: "gpio_process \<Rightarrow> bool" where
  "on_pins = (\<lambda>(gs, r, b, out). gpiod_inv b \<and> map glue_gpio gs = map pm_gpio kPinMap \<and>
     rsl_gpio r = kRslGpio \<and> (\<forall>h. h \<notin> daemon_pins \<longrightarrow> line_uses b h = None))"

definition keeps_pins :: "(gpio_process, unit) act \<Rightarrow> bool" where
  "keeps_pins m \<longleftrightarrow> (\<forall>w. on_pins w \<longrightarrow> on_pins (snd (m w)))"

lemma keeps_pins_andThen:
  assumes "keeps_pins m" "\<And>a. keeps_pins (f a)"
  shows "keeps_pins (andThen m f)"
  unfolding keeps_pins_def
proof (intro allI impI)
  fix w
  assume w: "on_pins w"
  obtain r w' where mw: "m w = (r, w')" by (meson surj_pair)
  with assms(1) w have "on_pins w'" unfolding keeps_pins_def by (metis snd_conv)
  with assms(2) mw show "on_pins (snd (andThen m f w))"
    by (cases r) (simp_all add: keeps_pins_def andThen_def del: split_paired_All)
qed

lemma glue_pins: "map glue_gpio gs = map pm_gpio kPinMap \<Longrightarrow> glue_gpio ` set gs \<subseteq> daemon_pins"
  unfolding daemon_pins_def by (metis set_map subset_insertI)

context gpio_backend begin

lemma bridge_run_pins:
  assumes "invar b" "bridge_run B nts (gs, b, out) = (r, (gs', b', out'))"
  shows "map glue_gpio gs' = map glue_gpio gs"
  using assms
proof (induction nts arbitrary: gs b out)
  case (Cons nt nts)
  from Cons.prems(2) [unfolded bridge_run.simps] show ?case
  proof (cases rule: andThen_cases)
    case (throw e)
    from bridge_tick_frame [OF Cons.prems(1) throw(1)] show ?thesis by simp
  next
    case (step a u)
    obtain gs1 b1 out1 where u: "u = (gs1, b1, out1)" by (cases u)
    from bridge_tick_frame [OF Cons.prems(1) step(1) [unfolded u]]
    have "map glue_gpio gs1 = map glue_gpio gs" "invar b1" by simp_all
    with Cons.IH [OF _ step(2) [unfolded u]] show ?thesis by metis
  qed
qed simp

text \<open>Starting and stopping the light concerns its own line only.\<close>

lemma rsl_start_frame:
  assumes "invar b" "rsl_start B (r, b) = (res, (r', b'))"
  shows "invar b' \<and> rsl_gpio r' = rsl_gpio r \<and> (\<exists>u. uses b' = (uses b)(rsl_gpio r := u))"
proof -
  obtain x b1 where q: "request_output B (rsl_gpio r) True b = (x, b1)" by (meson surj_pair)
  with assms(2) have b: "b' = b1" "rsl_gpio r' = rsl_gpio r" by (auto simp: rsl_start_def split: sum.splits)
  show ?thesis
  proof (cases x)
    case (Inl e)
    with q output_throw [OF assms(1)] b show ?thesis by blast
  next
    case (Inr ok)
    with q output_law [OF assms(1)] b show ?thesis by blast
  qed
qed

lemma rsl_stop_frame:
  assumes "invar b" "rsl_stop B (r, b) = (res, (r', b'))"
  shows "invar b' \<and> rsl_gpio r' = rsl_gpio r \<and>
    (uses b' = uses b \<or> (\<exists>u. uses b' = (uses b)(rsl_gpio r := u)))"
proof (cases "rsl_joinable r")
  case True
  with assms(2) have rel: "release_line B (rsl_gpio r) b = (res, b')" and r: "r' = r\<lparr>rsl_joinable := False\<rparr>"
    by (auto simp: rsl_stop_joinable)
  have "invar b' \<and> (\<exists>u. uses b' = (uses b)(rsl_gpio r := u))"
  proof (cases res)
    case (Inl e)
    with rel release_throw [OF assms(1)] show ?thesis by blast
  next
    case (Inr ok)
    with rel release_law [OF assms(1)] show ?thesis by blast
  qed
  with r show ?thesis by simp
qed (use assms in \<open>simp add: rsl_stop_def\<close>)

end

lemma keeps_on_bridge: "keeps_pins (on_bridge (bridge_run (libgpiod_backend L) nts))"
proof -
  have "on_pins (gs', r, b', out')" if c: "on_pins (gs, r, b, out)"
    and run: "bridge_run (libgpiod_backend L) nts (gs, b, out) = (res, (gs', b', out'))" for gs r b out res gs' b' out'
  proof -
    from c have b: "gpiod_inv b" and gs: "map glue_gpio gs = map pm_gpio kPinMap" by (simp_all add: on_pins_def)
    from lib.bridge_run_frame [OF b run] lib.bridge_run_pins [OF b run] glue_pins [OF gs] c gs
    show ?thesis unfolding on_pins_def prod.case by (metis subsetD)
  qed
  then show ?thesis by (auto simp: keeps_pins_def on_bridge_def split: prod.split)
qed

lemma rsl_pin: "kRslGpio \<in> daemon_pins"
  by (simp add: daemon_pins_def)

lemma keeps_on_light:
  assumes "\<And>r b res r' b'. gpiod_inv b \<Longrightarrow> m (r, b) = (res, (r', b')) \<Longrightarrow>
    gpiod_inv b' \<and> rsl_gpio r' = rsl_gpio r \<and> (\<forall>h. h \<noteq> rsl_gpio r \<longrightarrow> line_uses b' h = line_uses b h)"
  shows "keeps_pins (on_light m)"
proof -
  have "on_pins (gs, r', b', out)" if c: "on_pins (gs, r, b, out)" and run: "m (r, b) = (res, (r', b'))"
    for gs r b out res r' b'
  proof -
    from c have b: "gpiod_inv b" by (simp add: on_pins_def)
    from assms [OF b run] c rsl_pin show ?thesis unfolding on_pins_def prod.case by metis
  qed
  then show ?thesis by (auto simp: keeps_pins_def on_light_def split: prod.split)
qed

lemma keeps_rsl_start: "keeps_pins (on_light (rsl_start (libgpiod_backend L)))"
  by (rule keeps_on_light) (use lib.rsl_start_frame in fastforce)

lemma keeps_rsl_stop: "keeps_pins (on_light (rsl_stop (libgpiod_backend L)))"
  by (rule keeps_on_light) (use lib.rsl_stop_frame in fastforce)

lemma gpio_step_frame:
  assumes "on_pins (gs, r, b, out)" "gpio_tick_step L x (gs, l, b, out) = (res, (gs', l', b', out'))"
  shows "on_pins (gs', r, b', out')"
proof -
  from assms(1) have b: "gpiod_inv b" and gs: "map glue_gpio gs = map pm_gpio kPinMap"
    by (simp_all add: on_pins_def)
  show ?thesis
  proof (cases x)
    case (Bridge_tick nt)
    with assms(2) have "bridge_tick (libgpiod_backend L) nt (gs, b, out) = (res, (gs', b', out'))"
      by (auto split: prod.splits)
    from lib.bridge_tick_frame [OF b this] glue_pins [OF gs] assms(1) gs show ?thesis
      unfolding on_pins_def prod.case by (metis subsetD)
  next
    case (Rsl_tick st now)
    with assms(2) have "rsl_tick (libgpiod_backend L) kRslGpio st now (l, b) = (res, (l', b'))" and g: "gs' = gs"
      by (auto split: prod.splits)
    from lib.rsl_tick_frame [OF b this(1)] g assms(1) rsl_pin show ?thesis
      unfolding on_pins_def prod.case by metis
  qed
qed

lemma keeps_on_both: "keeps_pins (on_both L t0 xs)"
proof -
  have "on_pins (gs', r, b', out')" if "on_pins (gs, r, b, out)"
    and "gpio_ticks_run L xs (gs, l, b, out) = (res, (gs', l', b', out'))" for gs r b out res gs' l l' b' out'
    using that
  proof (induction xs arbitrary: gs l b out)
    case (Cons x xs)
    from Cons.prems(2) [unfolded gpio_ticks_run.simps] show ?case
    proof (cases rule: andThen_cases)
      case (throw e)
      then show ?thesis using gpio_step_frame [OF Cons.prems(1)] by blast
    next
      case (step a u)
      obtain gs1 l1 b1 out1 where u: "u = (gs1, l1, b1, out1)" by (cases u)
      from gpio_step_frame [OF Cons.prems(1) step(1) [unfolded u]] have "on_pins (gs1, r, b1, out1)" .
      from Cons.IH [OF this step(2) [unfolded u]] show ?thesis .
    qed
  qed simp
  then show ?thesis by (auto simp: keeps_pins_def on_both_def split: prod.split)
qed

lemma keeps_session: "keeps_pins (gpio_session L early t0 xs)"
  and keeps_stops: "keeps_pins (gpio_stops L late)"
  by (simp_all add: gpio_session_def gpio_stops_def keeps_pins_andThen keeps_on_bridge keeps_rsl_start
      keeps_rsl_stop keeps_on_both)

lemma on_pins_new: "on_pins (new_smartio_bridge kPinMap, new_rsl_blinker kRslGpio, new_libgpiod_backend, [])"
  by (simp add: on_pins_def new_smartio_bridge_def new_glue_topics o_def new_rsl_blinker_def)

section \<open>The backend's destructor\<close>

lemma gpiod_destroy_legal:
  assumes "gpiod_destroy L ks s = (r, s')" "history_legal (calls s)" "distinct ks"
    and "\<And>k p. k \<in> set ks \<Longrightarrow> lines s k = Some p \<Longrightarrow> p = Some (Line k) \<and> line_uses s k \<noteq> None"
  shows "history_legal (calls s')"
  using assms
proof (induction ks arbitrary: s)
  case (Cons k ks)
  show ?case
  proof (cases "lines s k")
    case None
    with Cons.prems show ?thesis by (intro Cons.IH [of s]) auto
  next
    case (Some p)
    with Cons.prems(4) [of k p] have u: "usable p = Some k" "line_uses s k \<noteq> None" by (simp_all add: usable_def)
    with Some Cons.prems(1) have "andThen (gpiod_do L (Release k)) (\<lambda>_. gpiod_destroy L ks) s = (r, s')" by simp
    then show ?thesis
    proof (cases rule: andThen_cases)
      case (throw e)
      from gpiod_do_effect [OF throw(1)] Cons.prems(2) u(2) show ?thesis by simp
    next
      case (step a s1)
      from gpiod_do_effect [OF step(1)] Cons.prems(2) u(2) have
        s1: "lines s1 = lines s" "line_uses s1 = (line_uses s)(k := None)" "history_legal (calls s1)" by simp_all
      have "k' \<noteq> k" if "k' \<in> set ks" for k' using that Cons.prems(3) by auto
      with s1 Cons.prems(3,4) show ?thesis by (intro Cons.IH [OF step(2)]) auto
    qed
  qed
qed simp

section \<open>Properties\<close>

text \<open>
  C12 (safety): whatever the threads do and wherever the library throws, from the first call to
  the last destructor no line is requested twice or used without being requested; and if the
  process ends normally every line has been given back. The backend's map may be iterated in
  any order.
\<close>

theorem gpio_given_back:
  assumes "distinct ks" "set ks = daemon_pins"
    and "gpio_life L early t0 xs late ks = (r, (gs, rsl, b, out))"
  shows "history_legal (calls b) \<and> (r = Inr () \<longrightarrow> line_uses b = Map.empty)"
proof -
  have inv: "gpiod_inv b" if "on_pins (gs, rsl, b, out)" for gs rsl b out
    using that by (simp add: on_pins_def)
  have legal: "history_legal (calls b)" if "on_pins (gs, rsl, b, out)" for gs rsl b out
    using inv [OF that] by (simp add: gpiod_inv_def)
  let ?w = "(new_smartio_bridge kPinMap, new_rsl_blinker kRslGpio, new_libgpiod_backend, [])"
  from assms(3) [unfolded gpio_life_def] show ?thesis
  proof (cases rule: andThen_cases)
    case (throw e)
    with keeps_session on_pins_new have "on_pins (gs, rsl, b, out)" unfolding keeps_pins_def by (metis snd_conv)
    with legal throw(2) show ?thesis by simp
  next
    case (step a w1)
    with keeps_session on_pins_new have w1: "on_pins w1" unfolding keeps_pins_def by (metis snd_conv)
    from step(2) show ?thesis
    proof (cases rule: andThen_cases)
      case (throw e)
      with keeps_stops w1 have "on_pins (gs, rsl, b, out)" unfolding keeps_pins_def by (metis snd_conv)
      with legal throw(2) show ?thesis by simp
    next
      case (step a w2)
      with keeps_stops w1 have w2: "on_pins w2" unfolding keeps_pins_def by (metis snd_conv)
      from step(2) [unfolded gpio_destructors_def] show ?thesis
      proof (cases rule: andThen_cases)
        case (throw e)
        with keeps_rsl_stop w2 have "on_pins (gs, rsl, b, out)" unfolding keeps_pins_def by (metis snd_conv)
        with legal throw(2) show ?thesis by simp
      next
        case (step a w3)
        with keeps_rsl_stop w2 have "on_pins w3" unfolding keeps_pins_def by (metis snd_conv)
        moreover obtain gs3 r3 b3 out3 where w3: "w3 = (gs3, r3, b3, out3)" by (cases w3)
        ultimately have b3: "on_pins (gs3, r3, b3, out3)" "gpiod_inv b3" using inv by blast+
        from step(2) have d: "gpiod_destroy L ks b3 = (r, b)" by (auto simp: w3 on_lines_def split: prod.splits)
        have p: "lines b3 k = Some p \<Longrightarrow> p = Some (Line k) \<and> line_uses b3 k \<noteq> None" for k p
          using b3(2) by (simp add: gpiod_inv_def handles_Some)
        from gpiod_destroy_legal [OF d legal [OF b3(1)] assms(1) p] have "history_legal (calls b)" .
        moreover have "line_uses b = Map.empty" if "r = Inr ()"
        proof
          fix g
          from b3(1) have "g \<notin> daemon_pins \<Longrightarrow> line_uses b3 g = None" by (simp add: on_pins_def)
          with gpiod_destroy_effect [OF d [unfolded that], of] p b3(2) assms(2)
          show "line_uses b g = None" by (cases "g \<in> daemon_pins") (simp_all add: gpiod_inv_None)
        qed
        ultimately show ?thesis by blast
      qed
    qed
  qed
qed

lemma gpio_given_back_witness:
  "line_uses (fst (snd (snd (snd (gpio_life quiet_lib [] 0 demo_ticks [demo_values] [26, 17, 27, 22, 23])))))
    = Map.empty"
proof -
  let ?r = "gpio_life quiet_lib [] 0 demo_ticks [demo_values] [26, 17, 27, 22, 23]"
  have ks: "distinct [26, 17, 27, 22, 23 :: i32]" "set [26, 17, 27, 22, 23] = daemon_pins"
    by (auto simp: daemon_pins_def kRslGpio_def kPinMap_def)
  have "fst ?r = Inr ()"
    by (simp add: gpio_life_def gpio_session_def gpio_stops_def gpio_destructors_def on_bridge_def on_light_def
        on_lines_def on_both_def rsl_stop_def demo_ticks_def demo_threads)
  then have r: "?r = (Inr (), (fst (snd ?r), fst (snd (snd ?r)), fst (snd (snd (snd ?r))), snd (snd (snd (snd ?r)))))"
    by (simp add: prod_eq_iff)
  from gpio_given_back [OF ks r] show ?thesis by simp
qed

end
