(* ===== verification/Worker_Thread.thy ===== *)
theory Worker_Thread
  imports Match_Controller Smartio_Bridge Gamepad_Ingest Publishers Periodic_Task
begin

text \<open>
  The life of a component's thread: \<open>start\<close>, \<open>stop\<close> and the destructor of the match controller,
  the bridge, the ingest and the publishers are the same code around a \<open>std::jthread\<close> that runs
  \<open>run_periodic\<close>. Here they are interleaved with the thread's own steps, one step per check of
  the stop token, wake-up and tick.
\<close>

section \<open>State\<close>

text \<open>
  Where a thread is in the loop, with its next deadline; where the caller is: between calls, in
  the assignment \<open>thread_ = jthread{...}\<close> (which asks the old thread to stop and joins it while
  the new one already runs), or in the join of \<open>stop\<close>.
\<close>

datatype thread_pc = Starting | At_head int | Asleep int | Ticking int

datatype caller_pc = Outside | Assigning nat | Joining

record worker =
  wk_handle :: "nat option"
  wk_stopping :: "nat set"
  wk_live :: "nat \<rightharpoonup> thread_pc"
  wk_caller :: caller_pc
  wk_spawned :: nat
  wk_clock :: int
  wk_ticks :: "(nat \<times> int) list"

definition new_worker :: "int \<Rightarrow> worker" where
  "new_worker now = \<lparr>wk_handle = None, wk_stopping = {}, wk_live = Map.empty, wk_caller = Outside,
     wk_spawned = 0, wk_clock = now, wk_ticks = []\<rparr>"

section \<open>Steps\<close>

text \<open>Asking the thread the handle refers to, if any, to stop.\<close>

definition request_stop :: "worker \<Rightarrow> worker" where
  "request_stop w = w\<lparr>wk_stopping := wk_stopping w \<union> set_option (wk_handle w)\<rparr>"

definition joined :: "worker \<Rightarrow> bool" where
  "joined w \<longleftrightarrow> (\<forall>t \<in> set_option (wk_handle w). wk_live w t = None)"

definition spawn :: "worker \<Rightarrow> worker" where
  "spawn w = w\<lparr>wk_live := (wk_live w)(wk_spawned w \<mapsto> Starting),
     wk_caller := Assigning (wk_spawned w), wk_spawned := Suc (wk_spawned w)\<rparr>"

datatype worker_event =
    Call_start | Start_returns | Call_stop | Stop_returns
  | Begin_loop nat | Loop_head nat | Wake_up nat | Run_tick nat | Time_passes nat

inductive worker_step :: "int \<Rightarrow> worker \<Rightarrow> worker_event \<Rightarrow> worker \<Rightarrow> bool" for period where
  call_start: "wk_caller w = Outside \<Longrightarrow> worker_step period w Call_start (request_stop (spawn w))"
| start_returns: "wk_caller w = Assigning t \<Longrightarrow> joined w \<Longrightarrow>
    worker_step period w Start_returns (w\<lparr>wk_handle := Some t, wk_caller := Outside\<rparr>)"
| call_stop: "wk_caller w = Outside \<Longrightarrow> wk_handle w \<noteq> None \<Longrightarrow>
    worker_step period w Call_stop (request_stop (w\<lparr>wk_caller := Joining\<rparr>))"
| call_stop_idle: "wk_caller w = Outside \<Longrightarrow> wk_handle w = None \<Longrightarrow> worker_step period w Call_stop w"
| stop_returns: "wk_caller w = Joining \<Longrightarrow> joined w \<Longrightarrow>
    worker_step period w Stop_returns (w\<lparr>wk_handle := None, wk_caller := Outside\<rparr>)"
| begin_loop: "wk_live w t = Some Starting \<Longrightarrow>
    worker_step period w (Begin_loop t) (w\<lparr>wk_live := (wk_live w)(t \<mapsto> At_head (wk_clock w + period))\<rparr>)"
| head_stops: "wk_live w t = Some (At_head d) \<Longrightarrow> t \<in> wk_stopping w \<Longrightarrow>
    worker_step period w (Loop_head t) (w\<lparr>wk_live := (wk_live w)(t := None)\<rparr>)"
| head_sleeps: "wk_live w t = Some (At_head d) \<Longrightarrow> t \<notin> wk_stopping w \<Longrightarrow>
    worker_step period w (Loop_head t) (w\<lparr>wk_live := (wk_live w)(t \<mapsto> Asleep d)\<rparr>)"
| wake_stops: "wk_live w t = Some (Asleep d) \<Longrightarrow> d \<le> wk_clock w \<Longrightarrow> t \<in> wk_stopping w \<Longrightarrow>
    worker_step period w (Wake_up t) (w\<lparr>wk_live := (wk_live w)(t := None)\<rparr>)"
| wake_goes_on: "wk_live w t = Some (Asleep d) \<Longrightarrow> d \<le> wk_clock w \<Longrightarrow> t \<notin> wk_stopping w \<Longrightarrow>
    worker_step period w (Wake_up t) (w\<lparr>wk_live := (wk_live w)(t \<mapsto> Ticking (d + period))\<rparr>)"
| run_tick: "wk_live w t = Some (Ticking d) \<Longrightarrow>
    worker_step period w (Run_tick t) (w\<lparr>wk_live := (wk_live w)(t \<mapsto> At_head d),
      wk_ticks := wk_ticks w @ [(t, wk_clock w)]\<rparr>)"
| time_passes: "worker_step period w (Time_passes n) (w\<lparr>wk_clock := wk_clock w + int n\<rparr>)"

inductive_cases worker_stepE: "worker_step period w e w'"

inductive worker_run :: "int \<Rightarrow> worker \<Rightarrow> worker_event list \<Rightarrow> worker \<Rightarrow> bool" for period where
  stay: "worker_run period w [] w"
| move: "worker_step period w e w1 \<Longrightarrow> worker_run period w1 es w' \<Longrightarrow> worker_run period w (e # es) w'"

inductive_cases worker_run_ConsE: "worker_run period w (e # es) w'"
inductive_simps worker_run_Nil [simp]: "worker_run period w [] w'"

text \<open>The same steps as a function: each event can happen in at most one way.\<close>

fun worker_next :: "int \<Rightarrow> worker \<Rightarrow> worker_event \<Rightarrow> worker option" where
  "worker_next period w Call_start =
    (if wk_caller w = Outside then Some (request_stop (spawn w)) else None)"
| "worker_next period w Start_returns =
    (case wk_caller w of
       Assigning t \<Rightarrow> if joined w then Some (w\<lparr>wk_handle := Some t, wk_caller := Outside\<rparr>) else None
     | _ \<Rightarrow> None)"
| "worker_next period w Call_stop =
    (if wk_caller w \<noteq> Outside then None
     else if wk_handle w \<noteq> None then Some (request_stop (w\<lparr>wk_caller := Joining\<rparr>)) else Some w)"
| "worker_next period w Stop_returns =
    (if wk_caller w = Joining \<and> joined w then Some (w\<lparr>wk_handle := None, wk_caller := Outside\<rparr>) else None)"
| "worker_next period w (Begin_loop t) =
    (case wk_live w t of
       Some Starting \<Rightarrow> Some (w\<lparr>wk_live := (wk_live w)(t \<mapsto> At_head (wk_clock w + period))\<rparr>)
     | _ \<Rightarrow> None)"
| "worker_next period w (Loop_head t) =
    (case wk_live w t of
       Some (At_head d) \<Rightarrow>
         Some (w\<lparr>wk_live := (wk_live w)(t := if t \<in> wk_stopping w then None else Some (Asleep d))\<rparr>)
     | _ \<Rightarrow> None)"
| "worker_next period w (Wake_up t) =
    (case wk_live w t of
       Some (Asleep d) \<Rightarrow>
         if d \<le> wk_clock w
         then Some (w\<lparr>wk_live := (wk_live w)(t := if t \<in> wk_stopping w then None
                else Some (Ticking (d + period)))\<rparr>)
         else None
     | _ \<Rightarrow> None)"
| "worker_next period w (Run_tick t) =
    (case wk_live w t of
       Some (Ticking d) \<Rightarrow> Some (w\<lparr>wk_live := (wk_live w)(t \<mapsto> At_head d),
           wk_ticks := wk_ticks w @ [(t, wk_clock w)]\<rparr>)
     | _ \<Rightarrow> None)"
| "worker_next period w (Time_passes n) = Some (w\<lparr>wk_clock := wk_clock w + int n\<rparr>)"

fun run_next :: "int \<Rightarrow> worker \<Rightarrow> worker_event list \<Rightarrow> worker option" where
  "run_next period w [] = Some w"
| "run_next period w (e # es) =
    (case worker_next period w e of None \<Rightarrow> None | Some w' \<Rightarrow> run_next period w' es)"

lemma worker_step_next: "worker_step period w e w' \<Longrightarrow> worker_next period w e = Some w'"
  by (erule worker_stepE) auto

lemma worker_next_step: "worker_next period w e = Some w' \<Longrightarrow> worker_step period w e w'"
  by (cases e) (auto split: if_splits caller_pc.splits option.splits thread_pc.splits
      intro: worker_step.intros)

lemma worker_run_next: "worker_run period w es w' \<longleftrightarrow> run_next period w es = Some w'"
proof
  show "worker_run period w es w' \<Longrightarrow> run_next period w es = Some w'"
    by (induction rule: worker_run.induct) (auto dest: worker_step_next)
  show "run_next period w es = Some w' \<Longrightarrow> worker_run period w es w'"
    by (induction es arbitrary: w)
      (auto intro: worker_run.intros worker_next_step split: option.splits)
qed

text \<open>The threads of the daemon's components, by their periods.\<close>

definition match_thread :: "worker \<Rightarrow> worker_event \<Rightarrow> worker \<Rightarrow> bool" where
  "match_thread = worker_step (ns_of_ms kMatchTickPeriod)"

definition bridge_thread :: "worker \<Rightarrow> worker_event \<Rightarrow> worker \<Rightarrow> bool" where
  "bridge_thread = worker_step (ns_of_ms kBridgeTickPeriod)"

definition gamepad_thread :: "worker \<Rightarrow> worker_event \<Rightarrow> worker \<Rightarrow> bool" where
  "gamepad_thread = worker_step (ns_of_ms kGamepadTickPeriod)"

definition diagnostics_thread :: "worker \<Rightarrow> worker_event \<Rightarrow> worker \<Rightarrow> bool" where
  "diagnostics_thread = worker_step (ns_of_ms kDiagTickPeriod)"

definition publisher_thread :: "int \<Rightarrow> worker \<Rightarrow> worker_event \<Rightarrow> worker \<Rightarrow> bool" where
  "publisher_thread period_us = worker_step (ns_of_us period_us)"

section \<open>The invariant\<close>

text \<open>
  Between calls the threads alive are exactly the one the handle refers to, and it has not been
  asked to stop; during the assignment there may be the old one too, which has; during the join
  of \<open>stop\<close> the only one alive has been asked to stop.
\<close>

definition worker_ok :: "worker \<Rightarrow> bool" where
  "worker_ok w \<longleftrightarrow>
    dom (wk_live w) \<union> wk_stopping w \<union> set_option (wk_handle w) \<subseteq> {..<wk_spawned w} \<and>
    (case wk_caller w of
       Outside \<Rightarrow> dom (wk_live w) = set_option (wk_handle w) \<and> wk_handle w \<notin> Some ` wk_stopping w
     | Assigning t \<Rightarrow> t < wk_spawned w \<and> wk_handle w \<noteq> Some t \<and> t \<notin> wk_stopping w \<and> t \<in> dom (wk_live w) \<and>
         dom (wk_live w) \<subseteq> insert t (set_option (wk_handle w)) \<and> set_option (wk_handle w) \<subseteq> wk_stopping w
     | Joining \<Rightarrow> wk_handle w \<in> Some ` wk_stopping w \<and> dom (wk_live w) \<subseteq> set_option (wk_handle w))"

lemma worker_ok_new: "worker_ok (new_worker now)"
  by (simp add: worker_ok_def new_worker_def)

lemma worker_ok_step:
  assumes "worker_step period w e w'" "worker_ok w"
  shows "worker_ok w'"
  using assms
proof (cases rule: worker_step.cases)
  case call_start
  then show ?thesis using assms(2)
    by (auto simp: worker_ok_def request_stop_def spawn_def)
next
  case (start_returns t)
  then show ?thesis using assms(2) by (auto simp: worker_ok_def joined_def)
next
  case call_stop
  then show ?thesis using assms(2) by (auto simp: worker_ok_def request_stop_def)
next
  case stop_returns
  then show ?thesis using assms(2)
    by (auto simp: worker_ok_def joined_def simp del: dom_eq_empty_conv)
qed (use assms(2) in \<open>auto simp: worker_ok_def dom_def split: caller_pc.splits\<close>)

lemma worker_ok_run: "worker_run period w es w' \<Longrightarrow> worker_ok w \<Longrightarrow> worker_ok w'"
  by (induction rule: worker_run.induct) (auto intro: worker_ok_step)

section \<open>Stopping\<close>

text \<open>How many of its own steps a thread that has been asked to stop has left.\<close>

fun steps_left :: "thread_pc option \<Rightarrow> nat" where
  "steps_left None = 0"
| "steps_left (Some Starting) = 2"
| "steps_left (Some (At_head d)) = 1"
| "steps_left (Some (Asleep d)) = 1"
| "steps_left (Some (Ticking d)) = 2"

fun ticks_left :: "thread_pc option \<Rightarrow> nat" where
  "ticks_left (Some (Ticking d)) = 1"
| "ticks_left _ = 0"

lemma steps_left_bound: "steps_left pc \<le> 2" "ticks_left pc \<le> 1"
  by (cases pc rule: steps_left.cases; simp)+

text \<open>A thread is ready for a step of its own, or it sleeps until a deadline yet to come.\<close>

lemma thread_moves:
  assumes "wk_live w t = Some pc"
  shows "(\<exists>e w'. e \<in> {Begin_loop t, Loop_head t, Wake_up t, Run_tick t} \<and> worker_step period w e w') \<or>
    (\<exists>d. pc = Asleep d \<and> wk_clock w < d)"
proof -
  have moves: ?thesis if "worker_step period w e w'" "e \<in> {Begin_loop t, Loop_head t, Wake_up t, Run_tick t}" for e w'
    using that by blast
  show ?thesis
  proof (cases pc)
    case Starting
    with assms moves [OF begin_loop [of w t period]] show ?thesis by simp
  next
    case (At_head d)
    with assms moves [OF head_stops [of w t d period]] moves [OF head_sleeps [of w t d period]] show ?thesis
      by (cases "t \<in> wk_stopping w") simp_all
  next
    case (Asleep d)
    with assms moves [OF wake_stops [of w t d period]] moves [OF wake_goes_on [of w t d period]] show ?thesis
      by (cases "t \<in> wk_stopping w"; cases "d \<le> wk_clock w") simp_all
  next
    case (Ticking d)
    with assms moves [OF run_tick [of w t d period]] show ?thesis by simp
  qed
qed

lemma stopped_thread_step:
  assumes "worker_step period w e w'" "wk_caller w = Joining" "wk_handle w = Some t" "t \<in> wk_stopping w"
    and "dom (wk_live w) \<subseteq> {t}" "e \<noteq> Stop_returns"
  shows "wk_caller w' = Joining \<and> wk_handle w' = Some t \<and> t \<in> wk_stopping w' \<and> dom (wk_live w') \<subseteq> {t} \<and>
    (if \<exists>n. e = Time_passes n then wk_live w' = wk_live w
     else steps_left (wk_live w' t) < steps_left (wk_live w t)) \<and>
    length (wk_ticks w') + ticks_left (wk_live w' t) \<le> length (wk_ticks w) + ticks_left (wk_live w t)"
  using assms by cases (auto simp: dom_def split: if_splits)

lemma idle_stays_idle:
  assumes "worker_run period w es w'" "wk_caller w = Outside" "wk_handle w = None"
    and "wk_live w = Map.empty" "Call_start \<notin> set es"
  shows "wk_ticks w' = wk_ticks w \<and> wk_live w' = Map.empty \<and> wk_handle w' = None"
  using assms
proof (induction rule: worker_run.induct)
  case (move w e w1 es w')
  from move.hyps(1) move.prems have "wk_caller w1 = Outside" "wk_handle w1 = None"
    "wk_live w1 = Map.empty" "wk_ticks w1 = wk_ticks w"
    by (auto elim!: worker_stepE)
  with move show ?case by simp
qed simp

lemma joining_run:
  assumes "worker_run period w es w'" "wk_caller w = Joining" "wk_handle w = Some t"
    and "t \<in> wk_stopping w" "dom (wk_live w) \<subseteq> {t}" "Stop_returns \<notin> set es"
  shows "wk_caller w' = Joining \<and> wk_handle w' = Some t \<and> dom (wk_live w') \<subseteq> {t} \<and>
    length (filter (\<lambda>e. \<forall>n. e \<noteq> Time_passes n) es) + steps_left (wk_live w' t) \<le> steps_left (wk_live w t) \<and>
    length (wk_ticks w') + ticks_left (wk_live w' t) \<le> length (wk_ticks w) + ticks_left (wk_live w t)"
  using assms
proof (induction rule: worker_run.induct)
  case (move w e w1 es w')
  from move.prems(5) have "e \<noteq> Stop_returns" by auto
  note s = stopped_thread_step [OF move.hyps(1) move.prems(1-4) this]
  with move.IH move.prems(5) have IH: "wk_caller w' = Joining" "wk_handle w' = Some t"
    "dom (wk_live w') \<subseteq> {t}"
    "length (filter (\<lambda>e. \<forall>n. e \<noteq> Time_passes n) es) + steps_left (wk_live w' t) \<le> steps_left (wk_live w1 t)"
    "length (wk_ticks w') + ticks_left (wk_live w' t) \<le> length (wk_ticks w1) + ticks_left (wk_live w1 t)"
    by simp_all
  with s show ?case by (cases "\<exists>n. e = Time_passes n") auto
qed simp

section \<open>Properties\<close>

text \<open>
  C28 (invariant): in any interleaving of calls, thread steps and passing time, from a fresh
  component: between calls the component runs exactly the thread its handle refers to, which has
  not been asked to stop, and none when there is no handle; while \<open>start\<close> replaces a thread at
  most two are alive, and only the new one has not been asked to stop.
\<close>

theorem component_runs_one_thread:
  assumes "worker_run period (new_worker now) es w"
  shows "case wk_caller w of
      Outside \<Rightarrow> dom (wk_live w) = set_option (wk_handle w) \<and> wk_handle w \<notin> Some ` wk_stopping w
    | Assigning t \<Rightarrow> t \<in> dom (wk_live w) \<and> t \<notin> wk_stopping w \<and> card (dom (wk_live w)) \<le> 2 \<and>
        dom (wk_live w) - {t} \<subseteq> wk_stopping w
    | Joining \<Rightarrow> dom (wk_live w) \<subseteq> set_option (wk_handle w) \<and> dom (wk_live w) \<subseteq> wk_stopping w"
proof -
  have ok: "worker_ok w" using worker_ok_run [OF assms worker_ok_new] .
  show ?thesis
  proof (cases "wk_caller w")
    case (Assigning t)
    with ok have d: "dom (wk_live w) \<subseteq> insert t (set_option (wk_handle w))" by (simp add: worker_ok_def)
    have "card (insert t (set_option (wk_handle w))) \<le> 2"
      by (cases "wk_handle w") (simp_all add: card_insert_if)
    moreover have "card (dom (wk_live w)) \<le> card (insert t (set_option (wk_handle w)))"
      by (rule card_mono [OF _ d]) simp
    ultimately have "card (dom (wk_live w)) \<le> 2" by (rule order_trans [rotated])
    with Assigning ok d show ?thesis by (auto simp: worker_ok_def)
  qed (use ok in \<open>auto simp: worker_ok_def\<close>)
qed

definition two_starts :: "worker_event list" where
  "two_starts = [Call_start, Start_returns, Begin_loop 0, Loop_head 0, Time_passes 50, Wake_up 0,
     Run_tick 0, Call_start, Begin_loop 1]"

lemma component_runs_one_thread_witness:
  "card (dom (wk_live (the (run_next 50 (new_worker 0) two_starts)))) \<le> 2"
proof -
  let ?w = "the (run_next 50 (new_worker 0) two_starts)"
  have "run_next 50 (new_worker 0) two_starts = Some ?w" and c: "wk_caller ?w = Assigning 1"
    by (simp_all add: two_starts_def new_worker_def request_stop_def spawn_def joined_def)
  then have "worker_run 50 (new_worker 0) two_starts ?w" by (simp only: worker_run_next)
  from component_runs_one_thread [OF this] c show ?thesis by simp
qed

text \<open>
  C20 (safety): once \<open>stop\<close> has returned, the thread is gone and nothing ticks until the next
  \<open>start\<close>, whatever else happens; the objects a tick uses may be destroyed then.
\<close>

theorem no_tick_after_stop:
  assumes "worker_run period (new_worker now) es w" "wk_caller w = Outside" "wk_handle w = None"
    and "worker_run period w es' w'" "Call_start \<notin> set es'"
  shows "wk_live w' = Map.empty \<and> wk_ticks w' = wk_ticks w"
proof -
  have "worker_ok w" using worker_ok_run [OF assms(1) worker_ok_new] .
  with assms(2,3) have "wk_live w = Map.empty" by (simp add: worker_ok_def)
  from idle_stays_idle [OF assms(4,2,3) this assms(5)] show ?thesis by simp
qed

definition start_tick_stop :: "worker_event list" where
  "start_tick_stop = [Call_start, Begin_loop 0, Start_returns, Loop_head 0, Time_passes 50, Wake_up 0,
     Call_stop, Run_tick 0, Loop_head 0, Stop_returns]"

lemma no_tick_after_stop_witness:
  "wk_ticks (the (run_next 50 (the (run_next 50 (new_worker 0) start_tick_stop)) [Call_stop, Time_passes 99]))
   = [(0, 50)]"
proof -
  let ?w = "the (run_next 50 (new_worker 0) start_tick_stop)"
  let ?w' = "the (run_next 50 ?w [Call_stop, Time_passes 99])"
  have w: "run_next 50 (new_worker 0) start_tick_stop = Some ?w" "wk_caller ?w = Outside"
    "wk_handle ?w = None" "wk_ticks ?w = [(0, 50)]"
    by (simp_all add: start_tick_stop_def new_worker_def request_stop_def spawn_def joined_def)
  have "run_next 50 ?w [Call_stop, Time_passes 99] = Some ?w'" using w(2,3) by simp
  from no_tick_after_stop [of 50 0 start_tick_stop ?w "[Call_stop, Time_passes 99]" ?w'] this w
  show ?thesis by (simp only: worker_run_next) simp
qed

text \<open>
  C21 (termination): \<open>stop\<close> returns. From the moment it waits, the thread takes at most two more
  steps and finishes at most one more tick, however calls, steps and time interleave; and until
  it is gone it is never stuck: a step of its own is possible, or it sleeps to a deadline that
  passing time reaches. When it is gone, the join returns.
\<close>

theorem stop_returns_soon:
  assumes "worker_run period (new_worker now) es w" "wk_caller w = Joining"
    and "worker_run period w es' w'" "Stop_returns \<notin> set es'"
  shows "length (filter (\<lambda>e. \<forall>n. e \<noteq> Time_passes n) es') \<le> 2 \<and>
    length (wk_ticks w') \<le> length (wk_ticks w) + 1 \<and>
    (case wk_live w' (the (wk_handle w')) of
       None \<Rightarrow> worker_next period w' Stop_returns \<noteq> None
     | Some pc \<Rightarrow> (\<exists>e \<in> {Begin_loop, Loop_head, Wake_up, Run_tick}. worker_next period w' (e (the (wk_handle w'))) \<noteq> None)
         \<or> (\<exists>d. pc = Asleep d \<and> wk_clock w' < d))"
proof -
  from worker_ok_run [OF assms(1) worker_ok_new] assms(2) obtain t where
    t: "wk_handle w = Some t" "t \<in> wk_stopping w" "dom (wk_live w) \<subseteq> {t}" by (auto simp: worker_ok_def)
  from joining_run [OF assms(3,2) t assms(4)] have r: "wk_caller w' = Joining" "wk_handle w' = Some t"
    "length (filter (\<lambda>e. \<forall>n. e \<noteq> Time_passes n) es') \<le> steps_left (wk_live w t)"
    "length (wk_ticks w') \<le> length (wk_ticks w) + ticks_left (wk_live w t)"
    by simp_all
  have "worker_next period w' Stop_returns \<noteq> None" if "wk_live w' t = None"
    using r(1,2) that by (simp add: joined_def)
  moreover have "(\<exists>e \<in> {Begin_loop, Loop_head, Wake_up, Run_tick}. worker_next period w' (e t) \<noteq> None)
      \<or> (\<exists>d. pc = Asleep d \<and> wk_clock w' < d)" if "wk_live w' t = Some pc" for pc
    using thread_moves [OF that, of period] by (auto dest!: worker_step_next)
  ultimately show ?thesis
    using r steps_left_bound(1) [of "wk_live w t"] steps_left_bound(2) [of "wk_live w t"]
    by (auto split: option.split)
qed

lemma stop_returns_soon_witness:
  "length (wk_ticks (the (run_next 50 (the (run_next 50 (new_worker 0) (take 7 start_tick_stop)))
     [Run_tick 0, Loop_head 0]))) \<le> 1"
proof -
  let ?w = "the (run_next 50 (new_worker 0) (take 7 start_tick_stop))"
  let ?w' = "the (run_next 50 ?w [Run_tick 0, Loop_head 0])"
  have w: "run_next 50 (new_worker 0) (take 7 start_tick_stop) = Some ?w" "wk_caller ?w = Joining"
    "wk_ticks ?w = []" "run_next 50 ?w [Run_tick 0, Loop_head 0] = Some ?w'"
    by (simp_all add: start_tick_stop_def new_worker_def request_stop_def spawn_def joined_def)
  from stop_returns_soon [of 50 0 "take 7 start_tick_stop" ?w "[Run_tick 0, Loop_head 0]" ?w'] w
  show ?thesis by (simp only: worker_run_next) simp
qed

end
