(* ===== verification/Thread_Loop.thy ===== *)
theory Thread_Loop
  imports Worker_Thread
begin

text \<open>
  The thread of \<open>Worker_Thread\<close>, stepped in an interleaving, refines the loop of \<open>Periodic_Task\<close>:
  the instants at which a thread ticks are those of a run of \<open>run_periodic\<close>, so what is proved
  of that loop holds for every thread of the daemon, however its component is started and
  stopped around it.
\<close>

section \<open>The ticks of one thread\<close>

definition ticks_of :: "nat \<Rightarrow> worker \<Rightarrow> int list" where
  "ticks_of t w = map snd (filter (\<lambda>(t', now). t' = t) (wk_ticks w))"

text \<open>Instants in order, the n-th not before the n-th deadline of a loop that began at \<open>b\<close>.\<close>

definition in_time :: "int \<Rightarrow> int \<Rightarrow> int list \<Rightarrow> bool" where
  "in_time period dl ts \<longleftrightarrow> sorted ts \<and> (\<forall>n < length ts. dl + int n * period \<le> ts ! n)"

lemma in_time_snoc:
  assumes "in_time period dl ts" "\<forall>x \<in> set ts. x \<le> now" "dl + int (length ts) * period \<le> now"
  shows "in_time period dl (ts @ [now])"
  using assms by (auto simp: in_time_def sorted_append nth_append less_Suc_eq)

text \<open>Such instants are what the loop gives for some lateness and work of its passes.\<close>

lemma in_time_loop:
  assumes "in_time period dl ts" "\<forall>x \<in> set ts. now \<le> x"
  shows "\<exists>xs. list_all keeps_running xs \<and> periodic_loop period now dl xs = ts"
  using assms
proof (induction ts arbitrary: now dl)
  case Nil
  then show ?case by (intro exI [of _ "[]"]) simp
next
  case (Cons t ts)
  let ?x = "\<lparr>stop_before = False, late = nat (t - max now dl), stop_after = False, busy = 0\<rparr>"
  from Cons.prems have t: "dl \<le> t" "now \<le> t" "\<forall>x \<in> set ts. t \<le> x" by (auto simp: in_time_def)
  have "in_time period (dl + period) ts"
    using Cons.prems(1) unfolding in_time_def by (auto simp: algebra_simps)
  from Cons.IH [OF this t(3)] obtain xs where
    xs: "list_all keeps_running xs" "periodic_loop period t (dl + period) xs = ts" by blast
  have "keeps_running ?x" "sleep_until now dl (late ?x) = t"
    using t by (auto simp: keeps_running_def sleep_until_def)
  with xs have "list_all keeps_running (?x # xs) \<and> periodic_loop period now dl (?x # xs) = t # ts"
    by simp
  then show ?case by blast
qed

section \<open>The invariant of a thread\<close>

text \<open>
  A thread's next deadline counts the ticks it has done (and the one it is about to do).
\<close>

definition pc_ok :: "int \<Rightarrow> nat \<Rightarrow> int \<Rightarrow> int \<Rightarrow> thread_pc option \<Rightarrow> bool" where
  "pc_ok period n clock b pc = (case pc of
     None \<Rightarrow> True
   | Some Starting \<Rightarrow> n = 0
   | Some (At_head d) \<Rightarrow> d = b + (int n + 1) * period
   | Some (Asleep d) \<Rightarrow> d = b + (int n + 1) * period
   | Some (Ticking d) \<Rightarrow> d = b + (int n + 2) * period \<and> b + (int n + 1) * period \<le> clock)"

definition thread_ok :: "int \<Rightarrow> worker \<Rightarrow> nat \<Rightarrow> bool" where
  "thread_ok period w t \<longleftrightarrow> (\<forall>x \<in> set (ticks_of t w). x \<le> wk_clock w) \<and>
    (\<exists>b \<le> wk_clock w. in_time period (b + period) (ticks_of t w) \<and>
      pc_ok period (length (ticks_of t w)) (wk_clock w) b (wk_live w t)) \<and>
    (wk_spawned w \<le> t \<longrightarrow> wk_live w t = None \<and> ticks_of t w = [])"

lemma thread_okI:
  assumes "\<forall>x \<in> set (ticks_of t w). x \<le> wk_clock w" "b \<le> wk_clock w"
    "in_time period (b + period) (ticks_of t w)"
    "pc_ok period (length (ticks_of t w)) (wk_clock w) b (wk_live w t)"
    "wk_spawned w \<le> t \<Longrightarrow> wk_live w t = None \<and> ticks_of t w = []"
  shows "thread_ok period w t"
  using assms unfolding thread_ok_def by blast

lemma thread_ok_new: "thread_ok period (new_worker now) t"
  by (rule thread_okI [where b = now])
    (simp_all add: new_worker_def ticks_of_def in_time_def pc_ok_def)

text \<open>What matters of a state for one thread.\<close>

lemma thread_ok_cong:
  assumes "thread_ok period w t" "ticks_of t w' = ticks_of t w" "wk_clock w' = wk_clock w"
    "wk_live w' t = wk_live w t" "wk_spawned w' = wk_spawned w"
  shows "thread_ok period w' t"
  using assms by (simp add: thread_ok_def)

lemma thread_ok_live:
  assumes "thread_ok period w t" "ticks_of t w' = ticks_of t w" "wk_clock w' = wk_clock w"
    "wk_spawned w' = wk_spawned w" "t < wk_spawned w"
    "\<And>n b. pc_ok period n (wk_clock w) b (wk_live w t) \<Longrightarrow> pc_ok period n (wk_clock w) b (wk_live w' t)"
  shows "thread_ok period w' t"
  using assms unfolding thread_ok_def by (metis leD)

text \<open>The three steps that count: the loop begins, wakes up to tick, ticks.\<close>

lemma thread_ok_begin:
  assumes "thread_ok period w t" "wk_live w t = Some Starting"
  shows "thread_ok period (w\<lparr>wk_live := (wk_live w)(t \<mapsto> At_head (wk_clock w + period))\<rparr>) t"
proof (rule thread_okI [where b = "wk_clock w"])
  from assms have "ticks_of t w = []" and "t < wk_spawned w"
    by (auto simp: thread_ok_def pc_ok_def not_le [symmetric])
  then show "\<forall>x \<in> set (ticks_of t (w\<lparr>wk_live := (wk_live w)(t \<mapsto> At_head (wk_clock w + period))\<rparr>)).
      x \<le> wk_clock (w\<lparr>wk_live := (wk_live w)(t \<mapsto> At_head (wk_clock w + period))\<rparr>)"
    "in_time period (wk_clock w + period) (ticks_of t (w\<lparr>wk_live := (wk_live w)(t \<mapsto> At_head (wk_clock w + period))\<rparr>))"
    "pc_ok period (length (ticks_of t (w\<lparr>wk_live := (wk_live w)(t \<mapsto> At_head (wk_clock w + period))\<rparr>)))
      (wk_clock (w\<lparr>wk_live := (wk_live w)(t \<mapsto> At_head (wk_clock w + period))\<rparr>)) (wk_clock w)
      (wk_live (w\<lparr>wk_live := (wk_live w)(t \<mapsto> At_head (wk_clock w + period))\<rparr>) t)"
    by (simp_all add: ticks_of_def in_time_def pc_ok_def)
  assume "wk_spawned (w\<lparr>wk_live := (wk_live w)(t \<mapsto> At_head (wk_clock w + period))\<rparr>) \<le> t"
  with \<open>t < wk_spawned w\<close> show "wk_live (w\<lparr>wk_live := (wk_live w)(t \<mapsto> At_head (wk_clock w + period))\<rparr>) t = None \<and>
      ticks_of t (w\<lparr>wk_live := (wk_live w)(t \<mapsto> At_head (wk_clock w + period))\<rparr>) = []" by simp
qed simp

lemma thread_ok_tick:
  assumes "thread_ok period w t" "wk_live w t = Some (Ticking d)"
  shows "thread_ok period (w\<lparr>wk_live := (wk_live w)(t \<mapsto> At_head d), wk_ticks := wk_ticks w @ [(t, wk_clock w)]\<rparr>) t"
    (is "thread_ok period ?w t")
proof -
  from assms obtain b where b: "b \<le> wk_clock w" "in_time period (b + period) (ticks_of t w)"
    "d = b + (int (length (ticks_of t w)) + 2) * period"
    "b + (int (length (ticks_of t w)) + 1) * period \<le> wk_clock w"
    and old: "\<forall>x \<in> set (ticks_of t w). x \<le> wk_clock w" "t < wk_spawned w"
    by (auto simp: thread_ok_def pc_ok_def not_le [symmetric])
  have ticks: "ticks_of t ?w = ticks_of t w @ [wk_clock w]" by (simp add: ticks_of_def)
  show ?thesis
  proof (rule thread_okI [where b = b])
    show "in_time period (b + period) (ticks_of t ?w)"
      unfolding ticks using b(2,4) old(1) by (intro in_time_snoc) (simp_all add: algebra_simps)
    show "pc_ok period (length (ticks_of t ?w)) (wk_clock ?w) b (wk_live ?w t)"
      unfolding ticks using b(3) by (simp add: pc_ok_def algebra_simps)
  qed (use b(1) old ticks in auto)
qed

lemma thread_ok_time:
  assumes "thread_ok period w t"
  shows "thread_ok period (w\<lparr>wk_clock := wk_clock w + int n\<rparr>) t"
proof -
  from assms obtain b where b: "b \<le> wk_clock w" "in_time period (b + period) (ticks_of t w)"
    "pc_ok period (length (ticks_of t w)) (wk_clock w) b (wk_live w t)"
    and old: "\<forall>x \<in> set (ticks_of t w). x \<le> wk_clock w"
      "wk_spawned w \<le> t \<Longrightarrow> wk_live w t = None \<and> ticks_of t w = []"
    by (auto simp: thread_ok_def)
  have ticks: "ticks_of t (w\<lparr>wk_clock := wk_clock w + int n\<rparr>) = ticks_of t w" by (simp add: ticks_of_def)
  show ?thesis
    by (rule thread_okI [where b = b])
      (use b old in \<open>auto simp: ticks pc_ok_def split: option.splits thread_pc.splits\<close>)
qed

lemma thread_ok_step:
  assumes "worker_step period w e w'" "worker_ok w" "thread_ok period w t"
  shows "thread_ok period w' t"
  using assms(1)
proof cases
  case call_start
  then show ?thesis
    using assms(3) by (auto simp: thread_ok_def ticks_of_def request_stop_def spawn_def pc_ok_def)
next
  case (begin_loop u)
  then show ?thesis
    using assms(3) thread_ok_begin thread_ok_cong [OF assms(3)]
    by (cases "u = t") (auto simp: ticks_of_def)
next
  case (run_tick u d)
  then show ?thesis
    using assms(3) thread_ok_tick thread_ok_cong [OF assms(3)]
    by (cases "u = t") (auto simp: ticks_of_def)
next
  case (time_passes n)
  with thread_ok_time [OF assms(3)] show ?thesis by simp
next
  case (head_stops u d)
  then show ?thesis
    using assms(2) thread_ok_live [OF assms(3)] thread_ok_cong [OF assms(3)]
    by (cases "u = t") (auto simp: ticks_of_def pc_ok_def worker_ok_def dom_def)
next
  case (head_sleeps u d)
  then show ?thesis
    using assms(2) thread_ok_live [OF assms(3)] thread_ok_cong [OF assms(3)]
    by (cases "u = t") (auto simp: ticks_of_def pc_ok_def worker_ok_def dom_def)
next
  case (wake_stops u d)
  then show ?thesis
    using assms(2) thread_ok_live [OF assms(3)] thread_ok_cong [OF assms(3)]
    by (cases "u = t") (auto simp: ticks_of_def pc_ok_def worker_ok_def dom_def)
next
  case (wake_goes_on u d)
  then show ?thesis
    using assms(2) thread_ok_live [OF assms(3)] thread_ok_cong [OF assms(3)]
    by (cases "u = t") (auto simp: ticks_of_def pc_ok_def worker_ok_def dom_def algebra_simps)
qed (use thread_ok_cong [OF assms(3)] in \<open>auto simp: ticks_of_def request_stop_def\<close>)

lemma thread_ok_run:
  "worker_run period w es w' \<Longrightarrow> worker_ok w \<Longrightarrow> thread_ok period w t \<Longrightarrow> thread_ok period w' t"
  by (induction rule: worker_run.induct) (auto intro: thread_ok_step worker_ok_step)

section \<open>Properties\<close>

text \<open>
  C29 (refinement): in any interleaving of \<open>start\<close>, \<open>stop\<close>, thread steps and passing time, the
  instants at which a thread of the component ticks are the ticks of \<open>run_periodic\<close> begun at
  some instant, for some lateness and work of its passes: in order, never before the deadline
  and never twice for one.
\<close>

theorem thread_refines_run_periodic:
  assumes "worker_run (ns_of_us period_us) (new_worker now) es w" "0 \<le> period_us"
  shows "\<exists>b xs. b \<le> wk_clock w \<and> list_all keeps_running xs \<and> ticks_of t w = run_periodic period_us b xs"
proof -
  let ?p = "ns_of_us period_us"
  from thread_ok_run [OF assms(1) worker_ok_new thread_ok_new] have "thread_ok ?p w t" .
  then obtain b where b: "b \<le> wk_clock w" "in_time ?p (b + ?p) (ticks_of t w)"
    by (auto simp: thread_ok_def)
  have "0 \<le> ?p" using assms(2) by (simp add: ns_of_us_def)
  have "b \<le> x" if x: "x \<in> set (ticks_of t w)" for x
  proof -
    from x obtain n where n: "n < length (ticks_of t w)" "ticks_of t w ! n = x" by (auto simp: in_set_conv_nth)
    from b(2) n(1) have "b + ?p + int n * ?p \<le> ticks_of t w ! n" by (simp add: in_time_def)
    moreover have "0 \<le> int n * ?p" using \<open>0 \<le> ?p\<close> by simp
    ultimately show ?thesis using \<open>0 \<le> ?p\<close> n(2) by linarith
  qed
  then have "\<forall>x \<in> set (ticks_of t w). b \<le> x" by blast
  from in_time_loop [OF b(2) this] obtain xs where
    "list_all keeps_running xs" "periodic_loop ?p b (b + ?p) xs = ticks_of t w" by blast
  with b(1) show ?thesis
    by (intro exI [of _ b] exI [of _ xs]) (simp add: run_periodic_def Let_def)
qed

definition late_tick :: "worker_event list" where
  "late_tick = [Call_start, Begin_loop 0, Start_returns, Loop_head 0, Time_passes 60000, Wake_up 0, Run_tick 0]"

lemma thread_refines_run_periodic_witness:
  "\<exists>b xs. b \<le> 60000 \<and> list_all keeps_running xs \<and> [60000] = run_periodic 50 b xs"
proof -
  let ?w = "the (run_next (ns_of_us 50) (new_worker 0) late_tick)"
  have "run_next (ns_of_us 50) (new_worker 0) late_tick = Some ?w" and w: "wk_clock ?w = 60000" "ticks_of 0 ?w = [60000]"
    by (simp_all add: late_tick_def new_worker_def request_stop_def spawn_def joined_def ns_of_us_def ticks_of_def)
  then have "worker_run (ns_of_us 50) (new_worker 0) late_tick ?w" by (simp only: worker_run_next)
  from thread_refines_run_periodic [OF this, of 0] w show ?thesis by simp
qed

end
