(* ===== verification/Cadence_Race.thy ===== *)
theory Cadence_Race
  imports Cadence_Tracker
begin

text \<open>
  The cadence tracker as the daemon uses it: the publisher records while the diagnostics thread
  and the web requests read percentiles, without synchronisation. Here the statements of
  record_interval_us, refresh_sorted, percentile_ms and max_ms are the steps, and the steps of one
  writer and any readers interleave. A copy and a sort are one step each, and that accesses tear
  or are reordered is not modelled.
\<close>

section \<open>Statements as steps\<close>

datatype write_pc = Store int | Advance | Grow | Bump

datatype cadence_query = Percentile rat | Maximum

datatype read_pc = Check_count | Compare_epoch | Copy_samples | Sort_cache | Mark_fresh | Choose_index | Pick nat

record race =
  rc_tracker :: CadenceTracker
  rc_writer :: "write_pc list"
  rc_readers :: "nat \<Rightarrow> (cadence_query \<times> read_pc) option"
  rc_stored :: "int list"
  rc_results :: "(nat \<times> rat) list"

definition new_race :: race where
  "new_race = \<lparr>rc_tracker = new_cadence_tracker, rc_writer = [], rc_readers = (\<lambda>_. None),
     rc_stored = [], rc_results = []\<rparr>"

text \<open>The statements of \<open>record_interval_us\<close>.\<close>

definition record_code :: "int \<Rightarrow> write_pc list" where
  "record_code us = [Store us, Advance, Grow, Bump]"

fun write_statement :: "write_pc \<Rightarrow> CadenceTracker \<Rightarrow> CadenceTracker" where
  "write_statement (Store us) t = t\<lparr>samples_us := (samples_us t)[next_slot t := us]\<rparr>"
| "write_statement Advance t = t\<lparr>next_slot := (next_slot t + 1) mod kCapacity\<rparr>"
| "write_statement Grow t = (if sample_count t < kCapacity then t\<lparr>sample_count := sample_count t + 1\<rparr> else t)"
| "write_statement Bump t = t\<lparr>epoch := epoch t + 1\<rparr>"

text \<open>
  The statements of \<open>percentile_ms\<close> and \<open>max_ms\<close> with \<open>refresh_sorted\<close> inlined: the tracker after one, and
  where the reader goes on, or what it returns.
\<close>

fun read_statement :: "cadence_query \<Rightarrow> read_pc \<Rightarrow> CadenceTracker \<Rightarrow> CadenceTracker \<times> (read_pc + rat)" where
  "read_statement p Check_count t = (t, if sample_count t = 0 then Inr 0 else Inl Compare_epoch)"
| "read_statement p Compare_epoch t = (t, Inl (if cached_epoch t = epoch t then Choose_index else Copy_samples))"
| "read_statement p Copy_samples t =
    (t\<lparr>sorted_cache := take (sample_count t) (samples_us t) @ drop (sample_count t) (sorted_cache t)\<rparr>, Inl Sort_cache)"
| "read_statement p Sort_cache t =
    (t\<lparr>sorted_cache := sort (take (sample_count t) (sorted_cache t)) @ drop (sample_count t) (sorted_cache t)\<rparr>,
     Inl Mark_fresh)"
| "read_statement p Mark_fresh t = (t\<lparr>cached_epoch := epoch t\<rparr>, Inl Choose_index)"
| "read_statement p Choose_index t = (t, Inl (Pick (case p of
      Percentile q \<Rightarrow> percentile_index q (sample_count t) | Maximum \<Rightarrow> sample_count t - 1)))"
| "read_statement p (Pick idx) t = (t, Inr (double_div (double_of_int (sorted_cache t ! idx)) 1000))"

datatype race_event = Begin_record int | Write_step | Begin_read nat cadence_query | Read_step nat

fun race_step :: "race_event \<Rightarrow> race \<Rightarrow> race" where
  "race_step (Begin_record us) y = (if rc_writer y = [] then y\<lparr>rc_writer := record_code us\<rparr> else y)"
| "race_step Write_step y = (case rc_writer y of [] \<Rightarrow> y
     | w # ws \<Rightarrow> y\<lparr>rc_tracker := write_statement w (rc_tracker y), rc_writer := ws,
         rc_stored := (case w of Store us \<Rightarrow> rc_stored y @ [us] | _ \<Rightarrow> rc_stored y)\<rparr>)"
| "race_step (Begin_read i p) y = (if rc_readers y i = None
     then y\<lparr>rc_readers := (rc_readers y)(i \<mapsto> (p, Check_count))\<rparr> else y)"
| "race_step (Read_step i) y = (case rc_readers y i of None \<Rightarrow> y
     | Some (p, pc) \<Rightarrow> (case read_statement p pc (rc_tracker y) of
         (t, Inl pc') \<Rightarrow> y\<lparr>rc_tracker := t, rc_readers := (rc_readers y)(i \<mapsto> (p, pc'))\<rparr>
       | (t, Inr v) \<Rightarrow> y\<lparr>rc_tracker := t, rc_readers := (rc_readers y)(i := None),
           rc_results := rc_results y @ [(i, v)]\<rparr>))"

section \<open>What holds in every interleaving\<close>

definition readable :: "race \<Rightarrow> int set" where
  "readable y = insert 0 (set (rc_stored y))"

definition tracker_safe :: "race \<Rightarrow> bool" where
  "tracker_safe y \<longleftrightarrow> (let t = rc_tracker y in
     length (samples_us t) = kCapacity \<and> length (sorted_cache t) = kCapacity \<and> next_slot t < kCapacity \<and>
     sample_count t \<le> kCapacity \<and> set (samples_us t) \<subseteq> readable y \<and> set (sorted_cache t) \<subseteq> readable y)"

fun reader_safe :: "nat \<Rightarrow> (cadence_query \<times> read_pc) option \<Rightarrow> bool" where
  "reader_safe n None \<longleftrightarrow> True"
| "reader_safe n (Some (p, Check_count)) \<longleftrightarrow> True"
| "reader_safe n (Some (p, Pick idx)) \<longleftrightarrow> idx < n"
| "reader_safe n (Some (p, pc)) \<longleftrightarrow> 0 < n"

lemma reader_safe_mono: "reader_safe n r \<Longrightarrow> n \<le> m \<Longrightarrow> reader_safe m r"
  by (induction n r rule: reader_safe.induct) auto

definition race_ok :: "race \<Rightarrow> bool" where
  "race_ok y \<longleftrightarrow> tracker_safe y \<and> (\<forall>i. reader_safe (sample_count (rc_tracker y)) (rc_readers y i)) \<and> snd ` set (rc_results y) \<subseteq> ms_of_us ` readable y"

lemma race_ok_new: "race_ok new_race"
  by (auto simp: race_ok_def tracker_safe_def new_race_def new_cadence_tracker_def readable_def
      Let_def kCapacity_def)

lemma set_take_drop:
  "set xs \<subseteq> A \<Longrightarrow> set ys \<subseteq> A \<Longrightarrow> set (take n xs) \<union> set (drop n ys) \<subseteq> A"
  by (auto dest: in_set_takeD in_set_dropD)

lemma percentile_index_less: "0 < n \<Longrightarrow> percentile_index p n < n"
  by (simp add: percentile_index_def Let_def)

lemma write_counts: "sample_count t \<le> sample_count (write_statement w t)"
  by (cases w) simp_all

lemma write_tracker_safe:
  assumes "tracker_safe y" "rc_writer y = w # ws"
  shows "tracker_safe (race_step Write_step y)"
proof -
  from assms(1) have "set ((samples_us (rc_tracker y))[next_slot (rc_tracker y) := us])
      \<subseteq> insert us (readable y)" for us
    using set_update_subset_insert [of "samples_us (rc_tracker y)"] by (fastforce simp: tracker_safe_def Let_def)
  with assms show ?thesis
    by (cases w) (auto simp: tracker_safe_def readable_def Let_def)
qed

lemma read_tracker_safe:
  assumes "tracker_safe y" "read_statement p pc (rc_tracker y) = (t, r)"
  shows "tracker_safe (y\<lparr>rc_tracker := t\<rparr>)"
proof -
  let ?t = "rc_tracker y" and ?A = "readable y"
  have r: "readable (y\<lparr>rc_tracker := t\<rparr>) = ?A" by (simp add: readable_def)
  from assms(1) have safe: "length (samples_us ?t) = kCapacity" "length (sorted_cache ?t) = kCapacity"
    "next_slot ?t < kCapacity" "sample_count ?t \<le> kCapacity" "set (samples_us ?t) \<subseteq> ?A" "set (sorted_cache ?t) \<subseteq> ?A"
    by (simp_all add: tracker_safe_def Let_def)
  note parts = set_take_drop [OF safe(5,6), of "sample_count ?t"] set_take_drop [OF safe(6,6), of "sample_count ?t"]
  show ?thesis
    using assms(2) safe parts unfolding tracker_safe_def Let_def r by (cases pc) (auto split: if_splits)
qed

lemma race_ok_step:
  assumes "race_ok y"
  shows "race_ok (race_step e y)"
proof (cases e)
  case (Begin_record us)
  with assms show ?thesis
    by (auto simp: race_ok_def tracker_safe_def readable_def Let_def)
next
  case Write_step
  show ?thesis
  proof (cases "rc_writer y")
    case (Cons w ws)
    let ?y = "race_step Write_step y"
    have le: "sample_count (rc_tracker y) \<le> sample_count (rc_tracker ?y)" and r: "rc_readers ?y = rc_readers y"
      using write_counts [of "rc_tracker y" w] by (simp_all add: Cons)
    from assms have rs: "reader_safe (sample_count (rc_tracker y)) (rc_readers y i)" for i
      by (simp add: race_ok_def)
    have "reader_safe (sample_count (rc_tracker ?y)) (rc_readers ?y i)" for i
      unfolding r by (rule reader_safe_mono [OF rs le])
    moreover have "ms_of_us ` readable y \<subseteq> ms_of_us ` readable ?y"
      by (rule image_mono) (cases w, auto simp: readable_def Cons)
    with assms have "snd ` set (rc_results y) \<subseteq> ms_of_us ` readable ?y"
      unfolding race_ok_def by (meson order.trans)
    moreover have "rc_results ?y = rc_results y" by (simp add: Cons)
    moreover have "tracker_safe ?y"
      using assms write_tracker_safe [OF _ Cons] unfolding race_ok_def by blast
    ultimately show ?thesis unfolding race_ok_def Write_step by (simp only:) simp
  qed (use assms in \<open>simp add: Write_step\<close>)
next
  case (Begin_read i p)
  with assms show ?thesis
    by (auto simp: race_ok_def tracker_safe_def readable_def Let_def split: if_splits)
next
  case (Read_step i)
  show ?thesis
  proof (cases "rc_readers y i")
    case (Some x)
    then obtain p pc where r: "rc_readers y i = Some (p, pc)" by (cases x) auto
    obtain t res where s: "read_statement p pc (rc_tracker y) = (t, res)" by force
    from assms have safe: "tracker_safe y" "\<And>j. reader_safe (sample_count (rc_tracker y)) (rc_readers y j)" "snd ` set (rc_results y) \<subseteq> ms_of_us ` readable y"
      by (simp_all add: race_ok_def)
    have count: "sample_count t = sample_count (rc_tracker y)" using s by (cases pc) auto
    have ts: "tracker_safe (y\<lparr>rc_tracker := t\<rparr>)" by (rule read_tracker_safe [OF safe(1) s])
    show ?thesis
    proof (cases res)
      case (Inl pc')
      have "reader_safe (sample_count t) (Some (p, pc'))"
        using safe(2) [of i] s Inl count percentile_index_less [of "sample_count t"]
        by (cases pc) (auto simp: r split: if_splits cadence_query.split)
      with safe(2) count have "reader_safe (sample_count t) (((rc_readers y)(i \<mapsto> (p, pc'))) j)" for j by simp
      with ts safe(3) show ?thesis
        by (auto simp: race_ok_def tracker_safe_def readable_def Read_step r s Inl Let_def)
    next
      case (Inr v)
      have "v \<in> ms_of_us ` readable y"
      proof (cases pc)
        case Check_count
        with s Inr have "v = ms_of_us 0" by (simp add: ms_of_us_def double_of_int_def double_div_def split: if_splits)
        then show ?thesis by (simp add: readable_def)
      next
        case (Pick idx)
        with safe(2) [of i] r have "idx < sample_count (rc_tracker y)" by simp
        with safe(1) have "sorted_cache (rc_tracker y) ! idx \<in> readable y"
          unfolding tracker_safe_def Let_def by (metis nth_mem order_less_le_trans subsetD)
        with s Inr Pick show ?thesis by (auto simp: ms_of_us_def)
      qed (use s Inr in auto)
      moreover have "reader_safe (sample_count t) (((rc_readers y)(i := None)) j)" for j
        using safe(2) [of j] count by simp
      ultimately show ?thesis using ts safe(3)
        by (auto simp: race_ok_def tracker_safe_def readable_def Read_step r s Inr Let_def)
    qed
  qed (use assms in \<open>simp add: Read_step\<close>)
qed

lemma race_ok_run: "race_ok y \<Longrightarrow> race_ok (fold race_step es y)"
  by (induction es arbitrary: y) (simp_all add: race_ok_step)

section \<open>Left alone, the statements are the operations\<close>

lemma record_alone:
  "fold write_statement (record_code us) t = record_interval_us us t"
  by (simp add: record_code_def record_interval_us_def Let_def)

text \<open>A read that nothing comes between, from the check of the count to the result.\<close>

lemma fun_upd_None_id: "f i = None \<Longrightarrow> f(i := None) = f"
  by (simp add: fun_upd_idem)

definition answer :: "cadence_query \<Rightarrow> CadenceTracker \<Rightarrow> rat \<times> CadenceTracker" where
  "answer q t = (case q of Percentile p \<Rightarrow> percentile_ms p t | Maximum \<Rightarrow> max_ms t)"

lemma read_alone:
  assumes "rc_readers y i = None" "sample_count (rc_tracker y) \<le> length (samples_us (rc_tracker y))"
  shows "\<exists>n. fold race_step (Begin_read i q # replicate n (Read_step i)) y =
    y\<lparr>rc_tracker := snd (answer q (rc_tracker y)),
      rc_results := rc_results y @ [(i, fst (answer q (rc_tracker y)))]\<rparr>"
proof -
  let ?t = "rc_tracker y"
  note none = fun_upd_None_id [of "rc_readers y", OF assms(1)]
  note defs = answer_def percentile_ms_def max_ms_def refresh_sorted_def
  have same: "y\<lparr>rc_tracker := ?t, rc_results := x\<rparr> = y\<lparr>rc_results := x\<rparr>" for x by simp
  consider "sample_count ?t = 0" | "sample_count ?t \<noteq> 0" "cached_epoch ?t = epoch ?t"
    | "sample_count ?t \<noteq> 0" "cached_epoch ?t \<noteq> epoch ?t" by blast
  then show ?thesis
  proof cases
    case 1
    then show ?thesis using assms none
      by (intro exI [of _ 1]) (cases q, simp_all add: defs same)
  next
    case 2
    then show ?thesis using assms none
      by (intro exI [of _ 4]) (cases q, simp_all add: defs numeral_eq_Suc same Let_def)
  next
    case 3
    then show ?thesis using assms none
      by (intro exI [of _ 7]) (cases q, simp_all add: defs numeral_eq_Suc Let_def)
  qed
qed

section \<open>Properties\<close>




text \<open>
  The interleaving \<open>refresh_sorted\<close> does not foresee: a record that falls between a reader's copy
  and its update of the cached epoch.
\<close>

definition overtaken_read :: "nat \<Rightarrow> cadence_query \<Rightarrow> int \<Rightarrow> race_event list" where
  "overtaken_read i p us = Begin_read i p # replicate 4 (Read_step i) @ Begin_record us # replicate 4 Write_step
     @ replicate 3 (Read_step i)"

lemma overtaken_read_effect:
  assumes "rc_writer y = []" "rc_readers y i = None"
    and "sample_count (rc_tracker y) \<noteq> 0" "sample_count (rc_tracker y) \<le> length (samples_us (rc_tracker y))"
    and "cached_epoch (rc_tracker y) \<noteq> epoch (rc_tracker y)"
  shows "let t = rc_tracker y; y' = fold race_step (overtaken_read i p us) y in
    rc_tracker y' = (record_interval_us us t)\<lparr>sorted_cache := sorted_cache (refresh_sorted t),
      cached_epoch := epoch t + 1\<rparr> \<and> rc_writer y' = [] \<and> rc_readers y' = rc_readers y \<and>
    rc_stored y' = rc_stored y @ [us]"
  using assms fun_upd_None_id [of "rc_readers y", OF assms(2)]
  by (simp add: overtaken_read_def numeral_eq_Suc record_code_def record_interval_us_def refresh_sorted_def
      Let_def)

lemma full_ring:
  assumes "length xs = kCapacity"
  defines "t \<equiv> fold record_interval_us xs new_cadence_tracker"
  shows "sample_count t = kCapacity" "length (samples_us t) = kCapacity" "length (sorted_cache t) = kCapacity"
    "cached_epoch t \<noteq> epoch t"
proof -
  have "tracker_inv (ys @ xs) (fold record_interval_us xs s)" if "tracker_inv ys s" for xs ys s
    using that
  proof (induction xs arbitrary: ys s)
    case (Cons x xs)
    from Cons.IH [OF tracker_inv_record [OF Cons.prems]] show ?case by simp
  qed simp
  from this [OF tracker_inv_new] have inv: "ring_ok xs t" "cache_ok xs t" by (simp_all add: tracker_inv_def t_def)
  then show "sample_count t = kCapacity" "length (samples_us t) = kCapacity" "length (sorted_cache t) = kCapacity"
    using assms(1) by (simp_all add: ring_ok_def)
  have "cached_epoch (fold record_interval_us xs s) = cached_epoch s" for s
    by (induction xs arbitrary: s) (simp_all add: record_fields)
  then have "cached_epoch t = 0" by (simp add: t_def new_cadence_tracker_def)
  moreover from inv(2) assms(1) have "epoch t = 1024" by (simp add: cache_ok_def kCapacity_def)
  ultimately show "cached_epoch t \<noteq> epoch t" by simp
qed

text \<open>
  C37 (safety): what an unlucky read costs. With a full ring, let a record fall between the moment
  a reader has sorted its copy and the moment it marks the copy fresh. Then everything is at rest
  with the new interval in the ring, and yet every percentile and the maximum still answer as
  before that record, for every reader: the epoch that the reader stored is the one after the
  record, not the one of its copy. The next record heals it.
\<close>

theorem overtaken_read_hides_record:
  assumes "rc_writer y = []" "rc_readers y i = None"
    and "sample_count (rc_tracker y) = kCapacity" "length (samples_us (rc_tracker y)) = kCapacity"
    and "length (sorted_cache (rc_tracker y)) = kCapacity" "cached_epoch (rc_tracker y) \<noteq> epoch (rc_tracker y)"
  shows "let y' = fold race_step (overtaken_read i p us) y; t = rc_tracker y; t' = rc_tracker y' in
    rc_writer y' = [] \<and> rc_readers y' = rc_readers y \<and> rc_stored y' = rc_stored y @ [us] \<and>
    samples_us t' = (samples_us t)[next_slot t := us] \<and>
    fst (percentile_ms q t') = fst (percentile_ms q t) \<and> fst (max_ms t') = fst (max_ms t) \<and>
    (let t'' = record_interval_us us' t' in sorted_cache (refresh_sorted t'') = sort (samples_us t''))"
proof -
  let ?t = "rc_tracker y" and ?t' = "rc_tracker (fold race_step (overtaken_read i p us) y)"
  note effect = overtaken_read_effect [OF assms(1,2) _ _ assms(6), of p us, unfolded Let_def]
  from effect assms have t': "?t' = (record_interval_us us ?t)\<lparr>sorted_cache := sorted_cache (refresh_sorted ?t),
      cached_epoch := epoch ?t + 1\<rparr>" by simp
  have "fst (percentile_ms q ?t') = fst (percentile_ms q ?t)" "fst (max_ms ?t') = fst (max_ms ?t)"
    using assms(3) unfolding t'
    by (simp_all add: percentile_ms_def max_ms_def record_fields refresh_sorted_def Let_def)
  moreover have "epoch ?t + 1 \<noteq> epoch ?t + 1 + 1" by simp
  with assms(3-5) have "let t'' = record_interval_us us' ?t' in sorted_cache (refresh_sorted t'') = sort (samples_us t'')"
    unfolding t' by (simp add: record_fields refresh_sorted_def Let_def)
  ultimately show ?thesis using effect assms(3,4) t'
    by (simp add: record_fields)
qed

lemma overtaken_read_hides_record_witness:
  "let t = fold record_interval_us (replicate kCapacity 20000) new_cadence_tracker in
    fst (max_ms (rc_tracker (fold race_step (overtaken_read 0 Maximum 90000) (new_race\<lparr>rc_tracker := t\<rparr>)))) = fst (max_ms t)"
proof -
  let ?t = "fold record_interval_us (replicate kCapacity 20000) new_cadence_tracker"
  note full = full_ring [of "replicate kCapacity 20000", OF length_replicate]
  from full overtaken_read_hides_record [of "new_race\<lparr>rc_tracker := ?t\<rparr>" 0 Maximum 90000] show ?thesis
    by (simp add: new_race_def Let_def del: fold_replicate)
qed

end
