(* ===== verification/Backend_Race.thy ===== *)
theory Backend_Race
  imports Gpio_Backend "HOL-Library.Sublist"
begin

text \<open>
  The libgpiod backend under two threads that call it at the same time, as main lets the bridge
  and the signal light do: the statements of its operations are the steps, each lookup, erase or
  insert of the handle map and each call of the library one step, and the threads interleave.
  That the map itself survives two accesses at once, which the code does not ensure, is assumed.
\<close>

section \<open>Threads that own their lines\<close>

text \<open>
  A rely-guarantee rule: every thread keeps its own invariant, which looks only at the locations
  it owns, and changes no location of another owner.
\<close>

locale owned_threads =
  fixes run :: "'l \<times> 'b \<Rightarrow> 'l \<times> 'b"
    and view :: "'b \<Rightarrow> 'a \<Rightarrow> 'v"
    and owner :: "'a \<Rightarrow> 't"
    and ok :: "'t \<Rightarrow> 'l \<Rightarrow> ('a \<Rightarrow> 'v) \<Rightarrow> bool"
    and good :: "'b \<Rightarrow> bool"
  assumes own_step: "ok t l (view b) \<Longrightarrow> good b \<Longrightarrow> run (l, b) = (l', b') \<Longrightarrow>
      ok t l' (view b') \<and> good b' \<and> (\<forall>a. owner a \<noteq> t \<longrightarrow> view b' a = view b a)"
    and stable: "ok t l v \<Longrightarrow> (\<And>a. owner a = t \<Longrightarrow> v' a = v a) \<Longrightarrow> ok t l v'"
begin

definition threads_ok :: "('t \<Rightarrow> 'l) \<times> 'b \<Rightarrow> bool" where
  "threads_ok y \<longleftrightarrow> good (snd y) \<and> (\<forall>t. ok t (fst y t) (view (snd y)))"

lemma run_ok:
  assumes "threads_ok (ls, b)" "run (ls t, b) = (l', b')"
  shows "threads_ok (ls(t := l'), b')"
proof -
  from assms(1) have "ok t (ls t) (view b)" "good b" by (simp_all add: threads_ok_def)
  from own_step [OF this assms(2)] have own: "ok t l' (view b')" "good b'"
    and rest: "\<And>a. owner a \<noteq> t \<Longrightarrow> view b' a = view b a" by simp_all
  have "ok u (ls u) (view b')" if "u \<noteq> t" for u
  proof (rule stable)
    from assms(1) show "ok u (ls u) (view b)" by (simp add: threads_ok_def)
    fix a
    assume "owner a = u"
    with that show "view b' a = view b a" by (intro rest) simp
  qed
  with own show ?thesis by (simp add: threads_ok_def)
qed

lemma local_ok: "threads_ok (ls, b) \<Longrightarrow> ok t l' (view b) \<Longrightarrow> threads_ok (ls(t := l'), b)"
  by (simp add: threads_ok_def)

end

section \<open>The operations as statements\<close>

datatype gpio_instr =
    Find i32
  | Free_held
  | Erase i32
  | Library gpiod_call
  | Insert i32
  | Write_held bool
  | Read_held

text \<open>A thread's \<open>it\<close> (\<open>None\<close> is \<open>end()\<close>) and the level it read last.\<close>

type_synonym gpio_regs = "gpiod_line option option \<times> bool"

definition held :: "gpio_regs \<Rightarrow> i32 option" where
  "held r = (case fst r of Some p \<Rightarrow> usable p | None \<Rightarrow> None)"

fun gpio_instr_step :: "gpiod_lib \<Rightarrow> gpio_instr \<Rightarrow> gpio_regs \<Rightarrow> (LibgpiodBackend, gpio_regs) act" where
  "gpio_instr_step L (Find g) r = (\<lambda>s. (Inr (lines s g, snd r), s))"
| "gpio_instr_step L Free_held r = (case held r of
      Some off \<Rightarrow> andThen (gpiod_do L (Release off)) (\<lambda>_. ret r) | None \<Rightarrow> ret r)"
| "gpio_instr_step L (Erase g) r = (if fst r = None then ret r
      else andThen (modify (\<lambda>s. s\<lparr>lines := (lines s)(g := None)\<rparr>)) (\<lambda>_. ret r))"
| "gpio_instr_step L (Library c) r = andThen (gpiod_do L c) (\<lambda>_. ret r)"
| "gpio_instr_step L (Insert g) r =
      andThen (modify (\<lambda>s. s\<lparr>lines := (lines s)(g \<mapsto> Some (Line g))\<rparr>)) (\<lambda>_. ret r)"
| "gpio_instr_step L (Write_held v) r = (case held r of
      Some off \<Rightarrow> andThen (gpiod_do L (Set_value off (if v then 1 else 0))) (\<lambda>_. ret r) | None \<Rightarrow> ret r)"
| "gpio_instr_step L Read_held r = (\<lambda>s. (case held r of
      Some off \<Rightarrow> andThen (gpiod_do L (Get_value off)) (\<lambda>_. ret (fst r, level L (calls s) off \<noteq> 0))
    | None \<Rightarrow> ret (fst r, False)) s)"

fun op_statements :: "gpio_op \<Rightarrow> gpio_instr list" where
  "op_statements (OpRelease g) = [Find g, Free_held, Erase g]"
| "op_statements (OpInput g) =
    [Find g, Free_held, Erase g, Library (Get_line g), Library (Request_in g), Insert g]"
| "op_statements (OpOutput g v) =
    [Find g, Free_held, Erase g, Library (Get_line g), Library (Request_out g (if v then 1 else 0)), Insert g]"
| "op_statements (OpSet g v) = [Find g, Write_held v]"
| "op_statements (OpGet g) = [Find g, Read_held]"

text \<open>
  A thread: the call it is in with the statements left, its registers, the calls that returned,
  and whether one threw (nothing catches it, so the thread does not go on).
\<close>

record gpio_thread =
  gt_now :: "(gpio_op \<times> gpio_instr list) option"
  gt_regs :: gpio_regs
  gt_done :: "gpio_op list"
  gt_thrown :: bool

definition idle_thread :: gpio_thread where
  "idle_thread = \<lparr>gt_now = None, gt_regs = (None, False), gt_done = [], gt_thrown = False\<rparr>"

definition gpio_thread_run :: "gpiod_lib \<Rightarrow> gpio_thread \<times> LibgpiodBackend \<Rightarrow> gpio_thread \<times> LibgpiodBackend" where
  "gpio_thread_run L = (\<lambda>(th, b). case gt_now th of
      None \<Rightarrow> (th, b)
    | Some (x, []) \<Rightarrow> (th\<lparr>gt_now := None, gt_done := gt_done th @ [x]\<rparr>, b)
    | Some (x, i # is) \<Rightarrow> (case gpio_instr_step L i (gt_regs th) b of
          (Inl e, b') \<Rightarrow> (th\<lparr>gt_now := None, gt_thrown := True\<rparr>, b')
        | (Inr r, b') \<Rightarrow> (th\<lparr>gt_now := Some (x, is), gt_regs := r\<rparr>, b')))"

datatype gpio_event = Begin_op nat gpio_op | Run_statement nat

fun gpio_race_step ::
  "gpiod_lib \<Rightarrow> gpio_event \<Rightarrow> (nat \<Rightarrow> gpio_thread) \<times> LibgpiodBackend \<Rightarrow> (nat \<Rightarrow> gpio_thread) \<times> LibgpiodBackend" where
  "gpio_race_step L (Begin_op t x) (ths, b) = (if gt_now (ths t) = None \<and> \<not> gt_thrown (ths t)
     then (ths(t := (ths t)\<lparr>gt_now := Some (x, op_statements x)\<rparr>), b) else (ths, b))"
| "gpio_race_step L (Run_statement t) (ths, b) = (case gpio_thread_run L (ths t, b) of
     (th, b') \<Rightarrow> (ths(t := th), b'))"

section \<open>What a thread keeps\<close>

text \<open>The use a line has after a call on it has returned.\<close>

fun op_use :: "gpio_op \<Rightarrow> (i32 \<rightharpoonup> line_use) \<Rightarrow> (i32 \<rightharpoonup> line_use)" where
  "op_use (OpRelease g) u = u(g := None)"
| "op_use (OpInput g) u = u(g \<mapsto> UseInput)"
| "op_use (OpOutput g v) u = u(g \<mapsto> UseOutput v)"
| "op_use (OpSet g v) u = drive g v u"
| "op_use (OpGet g) u = u"

definition wanted :: "gpio_op list \<Rightarrow> i32 \<rightharpoonup> line_use" where
  "wanted xs = fold op_use xs Map.empty"

type_synonym line_view = "gpiod_line option option \<times> line_use option"

definition line_view :: "LibgpiodBackend \<Rightarrow> i32 \<Rightarrow> line_view" where
  "line_view b g = (lines b g, line_uses b g)"

definition settled :: "i32 \<Rightarrow> line_use option \<Rightarrow> line_view" where
  "settled g u = (map_option (\<lambda>_. Some (Line g)) u, u)"

text \<open>Where a call's own line stands before each statement; \<open>u\<close> is its use before the call.\<close>

fun midway :: "gpio_op \<Rightarrow> gpio_instr list \<Rightarrow> gpio_regs \<Rightarrow> (i32 \<rightharpoonup> line_use) \<Rightarrow> line_view \<Rightarrow> bool" where
  "midway x [] r u p \<longleftrightarrow> p = settled (op_line x) (op_use x u (op_line x))"
| "midway x (Find g # is) r u p \<longleftrightarrow> p = settled (op_line x) (u (op_line x))"
| "midway x (Erase g # is) r u p \<longleftrightarrow> fst r = fst (settled (op_line x) (u (op_line x))) \<and> p = (fst r, None)"
| "midway x (Library c # is) r u p \<longleftrightarrow> p = (None, None)"
| "midway x (Insert g # is) r u p \<longleftrightarrow> p = (None, op_use x u (op_line x))"
| "midway x (i # is) r u p \<longleftrightarrow> p = settled (op_line x) (u (op_line x)) \<and> fst r = fst p"

definition thread_keeps :: "(i32 \<Rightarrow> nat) \<Rightarrow> nat \<Rightarrow> gpio_thread \<Rightarrow> (i32 \<Rightarrow> line_view) \<Rightarrow> bool" where
  "thread_keeps owner t th v \<longleftrightarrow> (case gt_now th of
      None \<Rightarrow> \<not> gt_thrown th \<longrightarrow> (\<forall>g. owner g = t \<longrightarrow> v g = settled g (wanted (gt_done th) g))
    | Some (x, is) \<Rightarrow> owner (op_line x) = t \<and> suffix is (op_statements x) \<and>
        (\<forall>g. owner g = t \<and> g \<noteq> op_line x \<longrightarrow> v g = settled g (wanted (gt_done th) g)) \<and>
        midway x is (gt_regs th) (wanted (gt_done th)) (v (op_line x)))"

lemma settled_simps [simp]:
  "fst (settled g u) = map_option (\<lambda>_. Some (Line g)) u" "snd (settled g u) = u"
  "settled g None = (None, None)"
  "(p, w) = settled g u \<longleftrightarrow> p = map_option (\<lambda>_. Some (Line g)) u \<and> w = u"
  by (simp_all add: settled_def)

lemma held_settled: "fst r = fst (settled g u) \<Longrightarrow> held r = (if u = None then None else Some g)"
  by (auto simp: held_def usable_def split: option.splits)

lemma do_view:
  assumes "gpiod_do L c s = (res, s')" "history_legal (calls s)" "legal c (line_uses s)"
  shows "history_legal (calls s')" "line_view s' h = (lines s h, log_use (c, \<not> isl res) (line_uses s) h)"
  using gpiod_do_effect [OF assms(1)] assms(2,3) by (simp_all add: line_view_def)

text \<open>One library call on the line \<open>g\<close>, returned or thrown.\<close>

lemma call_keeps:
  assumes "andThen (gpiod_do L c) (\<lambda>_. ret r) b = (res, b')" "history_legal (calls b)" "legal c (line_uses b)"
    and "\<And>u h. h \<noteq> g \<Longrightarrow> log_use (c, True) u h = u h"
  shows "history_legal (calls b') \<and> (\<forall>h. h \<noteq> g \<longrightarrow> line_view b' h = line_view b h) \<and>
    (\<forall>r'. res = Inr r' \<longrightarrow> r' = r \<and> line_view b' g = (lines b g, log_use (c, True) (line_uses b) g))"
proof -
  obtain res1 b1 where do: "gpiod_do L c b = (res1, b1)" by (meson surj_pair)
  note v = do_view [OF do assms(2,3)]
  from assms(1) do have b': "b' = b1" "\<forall>r'. res = Inr r' \<longrightarrow> r' = r \<and> \<not> isl res1"
    by (cases res1; auto simp: andThen_def)+
  have "log_use (c, \<not> isl res1) (line_uses b) h = line_uses b h" if "h \<noteq> g" for h
    using assms(4) that by (cases "isl res1") simp_all
  with v b' show ?thesis by (simp add: line_view_def)
qed

lemma instr_keeps:
  assumes "midway x (i # is) r u (line_view b (op_line x))" "suffix (i # is) (op_statements x)"
    and "history_legal (calls b)" "gpio_instr_step L i r b = (res, b')"
  shows "history_legal (calls b') \<and> (\<forall>h. h \<noteq> op_line x \<longrightarrow> line_view b' h = line_view b h) \<and>
    (\<forall>r'. res = Inr r' \<longrightarrow> midway x is r' u (line_view b' (op_line x)))"
proof (cases i)
  case (Find g)
  with assms show ?thesis by (cases x) (auto simp: suffix_Cons line_view_def settled_def)
next
  case Free_held
  with assms(1) have v: "line_view b (op_line x) = settled (op_line x) (u (op_line x))"
    "fst r = fst (settled (op_line x) (u (op_line x)))" by simp_all
  from Free_held assms(2) have rest: "is = Erase (op_line x) # tl is" by (cases x) (auto simp: suffix_Cons)
  show ?thesis
  proof (cases "u (op_line x)")
    case None
    with assms(3,4) Free_held held_settled [OF v(2)] v show ?thesis by (subst rest) auto
  next
    case (Some w)
    with assms(4) Free_held held_settled [OF v(2)] have "andThen (gpiod_do L (Release (op_line x))) (\<lambda>_. ret r) b = (res, b')"
      by simp
    from call_keeps [OF this assms(3), of "op_line x"] v Some show ?thesis
      by (subst rest) (auto simp: line_view_def)
  qed
next
  case (Erase g)
  with assms show ?thesis
    by (cases x; cases "u (op_line x)") (auto simp: suffix_Cons line_view_def)
next
  case (Library c)
  with assms(2) have c: "c = Get_line (op_line x) \<or> is = [Insert (op_line x)] \<and>
      (c = Request_in (op_line x) \<and> (\<forall>u. op_use x u (op_line x) = Some UseInput) \<or>
       (\<exists>v. c = Request_out (op_line x) (if v then 1 else 0) \<and> (\<forall>u. op_use x u (op_line x) = Some (UseOutput v))))"
    and rest: "c = Get_line (op_line x) \<Longrightarrow> \<exists>c'. is = [Library c', Insert (op_line x)]"
    by (cases x; auto simp: suffix_Cons)+
  from Library assms(1) have v: "lines b (op_line x) = None" "line_uses b (op_line x) = None"
    by (simp_all add: line_view_def)
  from Library assms(4) have "andThen (gpiod_do L c) (\<lambda>_. ret r) b = (res, b')" by simp
  from call_keeps [OF this assms(3), of "op_line x"] c rest v show ?thesis by auto
next
  case (Insert g)
  with assms show ?thesis by (cases x) (auto simp: suffix_Cons line_view_def)
next
  case (Write_held w)
  with assms(1) have v: "line_view b (op_line x) = settled (op_line x) (u (op_line x))"
    "fst r = fst (settled (op_line x) (u (op_line x)))" by simp_all
  from Write_held assms(2) have x: "op_use x u (op_line x) = drive (op_line x) w u (op_line x)" "is = []" by (cases x; auto simp: suffix_Cons)+
  show ?thesis
  proof (cases "u (op_line x)")
    case None
    with assms(3,4) Write_held held_settled [OF v(2)] v x show ?thesis by (auto simp: drive_def)
  next
    case (Some use)
    with assms(4) Write_held held_settled [OF v(2)]
    have "andThen (gpiod_do L (Set_value (op_line x) (if w then 1 else 0))) (\<lambda>_. ret r) b = (res, b')"
      by simp
    from call_keeps [OF this assms(3), of "op_line x"] v Some x show ?thesis by (auto simp: line_view_def drive_def split: option.splits line_use.splits)
  qed
next
  case Read_held
  with assms(1) have v: "line_view b (op_line x) = settled (op_line x) (u (op_line x))"
    "fst r = fst (settled (op_line x) (u (op_line x)))" by simp_all
  from Read_held assms(2) have x: "op_use x u (op_line x) = u (op_line x)" "is = []" by (cases x; auto simp: suffix_Cons)+
  show ?thesis
  proof (cases "u (op_line x)")
    case None
    with assms(3,4) Read_held held_settled [OF v(2)] v x show ?thesis by auto
  next
    case (Some use)
    let ?r = "(fst r, level L (calls b) (op_line x) \<noteq> 0)"
    from Some assms(4) Read_held held_settled [OF v(2)]
    have "andThen (gpiod_do L (Get_value (op_line x))) (\<lambda>_. ret ?r) b = (res, b')"
      by simp
    from call_keeps [OF this assms(3), of "op_line x"] v Some x show ?thesis by (auto simp: line_view_def)
  qed
qed

lemma wanted_snoc [simp]: "wanted (xs @ [x]) = op_use x (wanted xs)"
  by (simp add: wanted_def)

lemma op_use_other [simp]: "g \<noteq> op_line x \<Longrightarrow> op_use x u g = u g"
  by (cases x) simp_all

lemma thread_step_keeps:
  assumes "thread_keeps owner t th (line_view b)" "history_legal (calls b)"
    and "gpio_thread_run L (th, b) = (th', b')"
  shows "thread_keeps owner t th' (line_view b') \<and> history_legal (calls b') \<and>
    (\<forall>g. owner g \<noteq> t \<longrightarrow> line_view b' g = line_view b g)"
proof (cases "gt_now th")
  case None
  with assms show ?thesis by (simp add: gpio_thread_run_def)
next
  case (Some now)
  then obtain x js where now: "gt_now th = Some (x, js)" by (cases now) auto
  with assms(1) have own: "owner (op_line x) = t" "suffix js (op_statements x)"
    and other: "\<And>g. owner g = t \<Longrightarrow> g \<noteq> op_line x \<Longrightarrow> line_view b g = settled g (wanted (gt_done th) g)"
    and mid: "midway x js (gt_regs th) (wanted (gt_done th)) (line_view b (op_line x))"
    by (simp_all add: thread_keeps_def)
  show ?thesis
  proof (cases js)
    case Nil
    with assms(3) now have "th' = th\<lparr>gt_now := None, gt_done := gt_done th @ [x]\<rparr>" "b' = b"
      by (simp_all add: gpio_thread_run_def)
    moreover have "line_view b g = settled g (wanted (gt_done th @ [x]) g)" if "owner g = t" for g
      using other [OF that] mid Nil by (cases "g = op_line x") simp_all
    ultimately show ?thesis using assms(2) by (simp add: thread_keeps_def)
  next
    case (Cons i rest)
    obtain res b1 where i: "gpio_instr_step L i (gt_regs th) b = (res, b1)" by (meson surj_pair)
    from instr_keeps [OF mid [unfolded Cons] own(2) [unfolded Cons] assms(2) i]
    have keep: "history_legal (calls b1)" "\<And>h. h \<noteq> op_line x \<Longrightarrow> line_view b1 h = line_view b h"
      "\<And>r. res = Inr r \<Longrightarrow> midway x rest r (wanted (gt_done th)) (line_view b1 (op_line x))" by simp_all
    have "suffix rest (op_statements x)" using own(2) Cons by (meson suffix_ConsD)
    moreover have "line_view b1 g = line_view b g" if "owner g \<noteq> t" for g
      using that own(1) by (intro keep(2)) auto
    ultimately show ?thesis using assms(3) now Cons i keep own(1) other
      by (cases res) (auto simp: gpio_thread_run_def thread_keeps_def)
  qed
qed

lemma thread_keeps_stable:
  assumes "thread_keeps owner t th v" "\<And>g. owner g = t \<Longrightarrow> v' g = v g"
  shows "thread_keeps owner t th v'"
  using assms by (auto simp: thread_keeps_def split: option.splits)

interpretation gt: owned_threads "gpio_thread_run L" line_view owner "thread_keeps owner"
  "\<lambda>b. history_legal (calls b)" for L and owner :: "i32 \<Rightarrow> nat"
  by unfold_locales (rule thread_step_keeps, assumption+, rule thread_keeps_stable, assumption, blast)

section \<open>Left alone, the statements are the operations\<close>

text \<open>What the statements of a call do when no other thread comes between.\<close>

fun statements_run :: "gpiod_lib \<Rightarrow> gpio_instr list \<Rightarrow> gpio_regs \<Rightarrow> (LibgpiodBackend, gpio_regs) act" where
  "statements_run L [] r = ret r"
| "statements_run L (i # is) r = andThen (gpio_instr_step L i r) (statements_run L is)"

lemma op_alone:
  "snd (statements_run L (op_statements x) r b) = gpio_step (libgpiod_backend L) x b"
  "fst (statements_run L (op_statements (OpGet g)) r b) = map_sum id (\<lambda>v. (lines b g, v)) (fst (gpiod_get_value L g b))"
proof -
  show "snd (statements_run L (op_statements x) r b) = gpio_step (libgpiod_backend L) x b"
    by (cases x) (auto simp: gpiod_defs andThen_def held_def modify_def ret_def split: option.splits)
  show "fst (statements_run L (op_statements (OpGet g)) r b) = map_sum id (\<lambda>v. (lines b g, v)) (fst (gpiod_get_value L g b))"
    by (auto simp: gpiod_defs andThen_def held_def ret_def split: option.splits)
qed

section \<open>Every interleaving\<close>

lemma gpio_race_keeps:
  assumes "gt.threads_ok owner y" "\<And>t x. e = Begin_op t x \<Longrightarrow> owner (op_line x) = t"
  shows "gt.threads_ok owner (gpio_race_step L e y)"
proof -
  obtain ths b where y: "y = (ths, b)" by (cases y)
  show ?thesis
  proof (cases e)
    case (Begin_op t x)
    show ?thesis
    proof (cases "gt_now (ths t) = None \<and> \<not> gt_thrown (ths t)")
      case True
      from assms(1) y have "thread_keeps owner t (ths t) (line_view b)" by (simp add: gt.threads_ok_def)
      with True have "\<forall>g. owner g = t \<longrightarrow> line_view b g = settled g (wanted (gt_done (ths t)) g)"
        by (simp add: thread_keeps_def)
      with True assms(2) [OF Begin_op]
      have "thread_keeps owner t ((ths t)\<lparr>gt_now := Some (x, op_statements x)\<rparr>) (line_view b)"
        by (cases x) (auto simp: thread_keeps_def)
      from gt.local_ok [OF assms(1) [unfolded y] this] True show ?thesis by (simp add: y Begin_op)
    qed (use assms y Begin_op in auto)
  next
    case (Run_statement t)
    obtain th b' where r: "gpio_thread_run L (ths t, b) = (th, b')" by (meson surj_pair)
    from gt.run_ok [OF assms(1) [unfolded y] r] show ?thesis by (simp add: y Run_statement r)
  qed
qed

lemma gpio_race_run_keeps:
  assumes "gt.threads_ok owner y"
    and "list_all (\<lambda>e. case e of Begin_op t x \<Rightarrow> owner (op_line x) = t | Run_statement t \<Rightarrow> True) es"
  shows "gt.threads_ok owner (fold (gpio_race_step L) es y)"
  using assms
proof (induction es arbitrary: y)
  case (Cons e es)
  from Cons.prems have "gt.threads_ok owner (gpio_race_step L e y)"
    by (intro gpio_race_keeps) (auto split: gpio_event.splits)
  from Cons.IH [OF this] Cons.prems(2) show ?case by simp
qed simp

lemma gpio_race_start: "gt.threads_ok owner (\<lambda>_. idle_thread, new_libgpiod_backend)"
proof -
  have "line_view new_libgpiod_backend g = settled g (wanted [] g)" for g
    by (simp add: line_view_def wanted_def) (simp add: new_libgpiod_backend_def)
  moreover have "history_legal (calls new_libgpiod_backend)" using gpiod_inv_new by (simp only: gpiod_inv_def)
  ultimately show ?thesis by (simp add: gt.threads_ok_def thread_keeps_def idle_thread_def)
qed

lemma quiet_do: "gpiod_do quiet_lib c s = (Inr (), s\<lparr>calls := calls s @ [(c, True)]\<rparr>)"
  by (simp add: gpiod_do_def quiet_lib_def)

text \<open>One caller alone, on a library that never throws, leaves the uses \<open>wanted\<close> says.\<close>

lemma quiet_returns:
  "\<not> isl (fst (gpiod_release_line quiet_lib g b))"
  "\<not> isl (fst (gpiod_request_input quiet_lib g b))"
  "\<not> isl (fst (gpiod_request_output quiet_lib g v b))"
  "\<not> isl (fst (gpiod_set_value quiet_lib g v b))"
proof -
  have release: "\<exists>b'. gpiod_release_line quiet_lib g b = (Inr (), b')" for g b
    by (auto simp: gpiod_release_line_def quiet_do andThen_def split: option.splits)
  then show "\<not> isl (fst (gpiod_release_line quiet_lib g b))" by (metis fst_conv sum.disc(2))
  obtain b' where "gpiod_release_line quiet_lib g b = (Inr (), b')" using release by blast
  then show "\<not> isl (fst (gpiod_request_input quiet_lib g b))" "\<not> isl (fst (gpiod_request_output quiet_lib g v b))"
    by (simp_all add: gpiod_request_input_def gpiod_request_output_def quiet_do andThen_def)
  show "\<not> isl (fst (gpiod_set_value quiet_lib g v b))"
    by (auto simp: gpiod_set_value_def quiet_do split: option.splits)
qed

lemma quiet_op:
  assumes "gpiod_inv b"
  shows "line_uses (gpio_step (libgpiod_backend quiet_lib) x b) = op_use x (line_uses b)"
proof (cases x)
  case (OpRelease g)
  with gpiod_release_effect [OF assms prod.collapse [symmetric]] show ?thesis by (simp add: quiet_returns)
next
  case (OpInput g)
  with gpiod_request_input_effect [OF assms prod.collapse [symmetric]] show ?thesis by (simp add: quiet_returns)
next
  case (OpOutput g v)
  with gpiod_request_output_effect [OF assms prod.collapse [symmetric]] show ?thesis by (simp add: quiet_returns)
next
  case (OpSet g v)
  with gpiod_set_effect [OF assms prod.collapse [symmetric]] show ?thesis by (simp add: quiet_returns)
next
  case (OpGet g)
  with gpiod_get_effect [OF assms prod.collapse [symmetric]] show ?thesis by simp
qed

lemma quiet_run:
  "line_uses (fold (gpio_step (libgpiod_backend quiet_lib)) xs new_libgpiod_backend) = wanted xs"
proof (induction xs rule: rev_induct)
  case (snoc x xs)
  have "gpiod_inv (fold (gpio_step (libgpiod_backend quiet_lib)) xs new_libgpiod_backend)"
    by (rule lib.run_invar) simp
  from quiet_op [OF this, of x] snoc show ?case by simp
qed (simp add: wanted_def)

section \<open>Properties\<close>



end
