(* ===== verification/Whole_Daemon.thy ===== *)
theory Whole_Daemon
  imports Shared_Gpio Web_Server Gamepad_Ingest
begin

text \<open>
  The components of main.cpp together: one state for all objects that main owns, and as events
  the passes of each thread and the requests of the web UI, in any order. Each event is the
  component's own function applied to its part of the state; a call that throws ends the process.
\<close>

section \<open>State and events\<close>

record daemon =
  d_state :: DaemonState
  d_match :: MatchController
  d_gamepad :: GamepadIngest
  d_bridge :: "ChannelGlue list"
  d_light :: rsl_locals
  d_backend :: LibgpiodBackend
  d_valgets :: published
  d_publisher :: ControlDataPublisher
  d_diagnostics :: DiagnosticsPublisher
  d_diag_out :: publications
  d_replies :: "http_response option list"

datatype daemon_event =
    Publisher_pass int
  | Bridge_pass "i64 nt_values"
  | Light_pass int
  | Ingest_topics "bool nt_values" "i64 nt_values"
  | Diagnostics_pass int
  | Match_pass int
  | Http_request int http_request

definition d_gpio :: "daemon \<Rightarrow> gpio_world" where
  "d_gpio d = (d_bridge d, d_light d, d_backend d, d_valgets d)"

definition on_gpio :: "(gpio_world, unit) act \<Rightarrow> (daemon, unit) act" where
  "on_gpio m = (\<lambda>d. case m (d_gpio d) of
     (r, (gs, l, b, out)) \<Rightarrow> (r, d\<lparr>d_bridge := gs, d_light := l, d_backend := b, d_valgets := out\<rparr>))"

text \<open>What the web UI holds references to, and the daemon after a request has changed them.\<close>

definition d_web :: "daemon \<Rightarrow> web_world" where
  "d_web d = \<lparr>w_state = d_state d, w_match = d_match d, w_cadence = cadence (d_publisher d), w_channels = d_bridge d\<rparr>"

definition on_web :: "http_response option \<times> web_world \<Rightarrow> daemon \<Rightarrow> daemon" where
  "on_web = (\<lambda>(reply, w) d. d\<lparr>d_state := w_state w, d_match := w_match w,
     d_publisher := (d_publisher d)\<lparr>cadence := w_cadence w\<rparr>, d_replies := d_replies d @ [reply]\<rparr>)"

fun daemon_step :: "pb_encoder \<Rightarrow> gpiod_lib \<Rightarrow> int \<Rightarrow> daemon_event \<Rightarrow> (daemon, unit) act" where
  "daemon_step pb L t0 (Publisher_pass now) =
     modify (\<lambda>d. d\<lparr>d_publisher := publisher_tick pb now (d_state d) (d_publisher d)\<rparr>)"
| "daemon_step pb L t0 (Bridge_pass nt) = on_gpio (gpio_tick_step L (Bridge_tick nt))"
| "daemon_step pb L t0 (Light_pass now) = (\<lambda>d. on_gpio (gpio_tick_step L (Rsl_tick (d_state d) now)) d)"
| "daemon_step pb L t0 (Ingest_topics nb ni) = modify (\<lambda>d. case gamepad_tick nb ni (d_gamepad d, d_state d) of
     (g, s) \<Rightarrow> d\<lparr>d_gamepad := g, d_state := s\<rparr>)"
| "daemon_step pb L t0 (Diagnostics_pass now) = modify (\<lambda>d.
     case diagnostics_tick now (d_diagnostics d, cadence (d_publisher d), d_diag_out d) of
       (x, t, out) \<Rightarrow> d\<lparr>d_diagnostics := x, d_publisher := (d_publisher d)\<lparr>cadence := t\<rparr>, d_diag_out := out\<rparr>)"
| "daemon_step pb L t0 (Match_pass now) = modify (\<lambda>d. case match_tick now (d_match d, d_state d) of
     (c, s) \<Rightarrow> d\<lparr>d_match := c, d_state := s\<rparr>)"
| "daemon_step pb L t0 (Http_request now req) = modify (\<lambda>d. on_web (serve t0 now req (d_web d)) d)"

fun daemon_run :: "pb_encoder \<Rightarrow> gpiod_lib \<Rightarrow> int \<Rightarrow> daemon_event list \<Rightarrow> (daemon, unit) act" where
  "daemon_run pb L t0 [] = ret ()"
| "daemon_run pb L t0 (e # es) = andThen (daemon_step pb L t0 e) (\<lambda>_. daemon_run pb L t0 es)"

text \<open>
  The objects as main makes them, once the bridge has ticked on \<open>early\<close> and the light has claimed
  its line. \<open>t_pub\<close>, \<open>t_light\<close>, \<open>t_diag\<close>: the instants at which the publisher's and the light's thread begin and
  the diagnostics are constructed.
\<close>

definition daemon_objects :: "int \<Rightarrow> int \<Rightarrow> int \<Rightarrow> string \<Rightarrow> ChannelGlue list \<Rightarrow> LibgpiodBackend \<Rightarrow> published \<Rightarrow> daemon" where
  "daemon_objects t_pub t_light t_diag build_info gs b out =
    \<lparr>d_state = initial_daemon_state, d_match = new_match_controller default_durations,
     d_gamepad = new_gamepad_ingest, d_bridge = gs, d_light = new_rsl_locals t_light, d_backend = b,
     d_valgets = out, d_publisher = new_publisher t_pub,
     d_diagnostics = fst (new_diagnostics t_diag build_info), d_diag_out = snd (new_diagnostics t_diag build_info),
     d_replies = []\<rparr>"

definition daemon_start ::
  "gpiod_lib \<Rightarrow> i64 nt_values list \<Rightarrow> int \<Rightarrow> int \<Rightarrow> int \<Rightarrow> string \<Rightarrow> (cxx_exn + daemon)" where
  "daemon_start L early t_pub t_light t_diag build_info =
    (case bridge_run (libgpiod_backend L) early (new_smartio_bridge kPinMap, new_libgpiod_backend, []) of
       (Inl e, _) \<Rightarrow> Inl e
     | (Inr _, (gs, b, out)) \<Rightarrow>
         (case rsl_start (libgpiod_backend L) (new_rsl_blinker kRslGpio, b) of
            (Inl e, _) \<Rightarrow> Inl e
          | (Inr _, (_, b')) \<Rightarrow> Inr (daemon_objects t_pub t_light t_diag build_info gs b' out)))"

lemma daemon_run_append: "daemon_run pb L t0 (es @ fs) = andThen (daemon_run pb L t0 es) (\<lambda>_. daemon_run pb L t0 fs)"
  by (induction es) (auto simp: andThen_def ret_def fun_eq_iff split: prod.splits sum.splits)

section \<open>What each kind of event did\<close>

definition bridge_passes :: "daemon_event list \<Rightarrow> i64 nt_values list" where
  "bridge_passes es = [nt. Bridge_pass nt \<leftarrow> es]"

definition publisher_passes :: "daemon_event list \<Rightarrow> int list" where
  "publisher_passes es = [now. Publisher_pass now \<leftarrow> es]"

definition diagnostics_passes :: "daemon_event list \<Rightarrow> int list" where
  "diagnostics_passes es = [now. Diagnostics_pass now \<leftarrow> es]"

lemma passes_Nil [simp]: "bridge_passes [] = []" "publisher_passes [] = []" "diagnostics_passes [] = []"
  by (simp_all add: bridge_passes_def publisher_passes_def diagnostics_passes_def)

lemma passes_Cons:
  "bridge_passes (e # es) = (case e of Bridge_pass nt \<Rightarrow> [nt] | _ \<Rightarrow> []) @ bridge_passes es"
  "publisher_passes (e # es) = (case e of Publisher_pass now \<Rightarrow> [now] | _ \<Rightarrow> []) @ publisher_passes es"
  "diagnostics_passes (e # es) = (case e of Diagnostics_pass now \<Rightarrow> [now] | _ \<Rightarrow> []) @ diagnostics_passes es"
  by (simp_all add: bridge_passes_def publisher_passes_def diagnostics_passes_def split: daemon_event.split)

section \<open>All invariants at once\<close>

text \<open>
  \<open>nts\<close>: what the bridge has seen so far; \<open>us\<close>: the intervals the publisher has recorded; \<open>n\<close>: the
  diagnostics passes.
\<close>

definition daemon_ok :: "i64 nt_values list \<Rightarrow> int list \<Rightarrow> nat \<Rightarrow> daemon \<Rightarrow> bool" where
  "daemon_ok nts us n d \<longleftrightarrow> world_ok (d_gpio d) \<and>
     d_bridge d = map (fold abstract_glue nts) (new_smartio_bridge kPinMap) \<and>
     aligned (d_match d) \<and> durations (d_match d) = default_durations \<and> subs_ok (d_gamepad d) \<and>
     tracker_inv us (cadence (d_publisher d)) \<and> heartbeat (d_diagnostics d) = of_nat n"

lemma daemon_start_ok:
  assumes "daemon_start L early t_pub t_light t_diag build_info = Inr d"
  shows "daemon_ok early [] 0 d" and "last_instant (d_publisher d) = t_pub"
proof -
  from assms obtain gs b out r b' where
    b: "bridge_run (libgpiod_backend L) early (new_smartio_bridge kPinMap, new_libgpiod_backend, []) = (Inr (), (gs, b, out))"
    and r: "rsl_start (libgpiod_backend L) (new_rsl_blinker kRslGpio, b) = (Inr (), (r, b'))"
    and d: "d = daemon_objects t_pub t_light t_diag build_info gs b' out"
    by (auto simp: daemon_start_def split: prod.splits sum.splits)
  from started_world_ok [OF b r, of t_light] have w: "world_ok (gs, new_rsl_locals t_light, b', out)"
    and gs: "gs = map (fold abstract_glue early) (new_smartio_bridge kPinMap)" by blast+
  from w gs tracker_inv_new show "daemon_ok early [] 0 d"
    by (simp add: d daemon_objects_def daemon_ok_def d_gpio_def aligned_def new_match_controller_def
        new_publisher_def new_diagnostics_def subs_ok_def new_gamepad_ingest_def)
  show "last_instant (d_publisher d) = t_pub" by (simp add: d daemon_objects_def new_publisher_def)
qed

text \<open>Reading the cadence, as the diagnostics and the web handlers do, keeps the tracker's invariant.\<close>

lemma read_keeps:
  assumes "tracker_inv us t" "length us < 2 ^ 64"
  shows "tracker_inv us (snd (p50_ms t))" and "tracker_inv us (snd (p99_ms t))"
  using read_inv(1) [OF assms] by (simp_all add: p50_ms_def p99_ms_def)

lemma diagnostics_keeps:
  assumes "tracker_inv us t" "length us < 2 ^ 64" "diagnostics_tick now (x, t, out) = (x', t', out')"
  shows "tracker_inv us t' \<and> heartbeat x' = heartbeat x + 1"
  using read_keeps(1) [OF read_keeps(2) [OF assms(1,2)] assms(2)] assms(3)
  by (auto simp: diagnostics_tick_def Let_def case_prod_beta)

lemma serve_cadence:
  assumes "tracker_inv us (w_cadence w)" "length us < 2 ^ 64"
  shows "tracker_inv us (w_cadence (snd (serve t0 now req w)))"
proof -
  note r50 = read_keeps(1) [OF assms] and r99 = read_keeps(2) [OF assms]
  note state = read_keeps(2) [OF r50 assms(2)] and healthz = read_keeps(2) [OF r99 assms(2)]
  obtain meth path body where req: "req = (meth, path, body)" by (cases req)
  from assms state healthz show ?thesis
    by (simp add: req serve_def handle_state_def handle_healthz_def on_match_def on_state_def Let_def case_prod_beta)
qed

lemma serve_match:
  assumes "aligned (w_match w)"
  shows "aligned (w_match (snd (serve t0 now req w))) \<and> durations (w_match (snd (serve t0 now req w))) = durations (w_match w)"
proof -
  obtain meth path body where req: "req = (meth, path, body)" by (cases req)
  have "aligned (w_match (on_match (handle_match body now) w)) \<and>
      durations (w_match (on_match (handle_match body now) w)) = durations (w_match w)"
    using handle_match_is_step [of body now]
  proof
    assume "handle_match body now = id"
    with assms show ?thesis by (simp add: on_match_def)
  next
    assume "\<exists>e \<in> {StartMatch now, StopMatch, SkipToTeleop now}. handle_match body now = match_step e"
    then obtain e where e: "handle_match body now = match_step e" by blast
    from match_step_aligned [of "(w_match w, w_state w)" e] assms show ?thesis
      by (simp add: e on_match_step)
  qed
  with assms show ?thesis by (simp add: req serve_def on_state_def Let_def case_prod_beta)
qed

lemma gpio_event_ok:
  assumes "daemon_ok nts us n d" "on_gpio (gpio_tick_step L x) d = (Inr (), d')"
  shows "daemon_ok (nts @ (case x of Bridge_tick nt \<Rightarrow> [nt] | Rsl_tick _ _ \<Rightarrow> [])) us n d' \<and>
    d_publisher d' = d_publisher d"
proof -
  obtain r gs l b out where x: "gpio_tick_step L x (d_gpio d) = (r, (gs, l, b, out))" by (metis prod_cases4)
  with assms(2) have r: "r = Inr ()" and d': "d' = d\<lparr>d_bridge := gs, d_light := l, d_backend := b, d_valgets := out\<rparr>"
    by (simp_all add: on_gpio_def)
  from assms(1) have ok: "world_ok (d_bridge d, d_light d, d_backend d, d_valgets d)"
    and br: "d_bridge d = map (fold abstract_glue nts) (new_smartio_bridge kPinMap)"
    unfolding daemon_ok_def d_gpio_def by blast+
  from x r have "gpio_tick_step L x (d_bridge d, d_light d, d_backend d, d_valgets d) = (Inr (), (gs, l, b, out))"
    by (simp add: d_gpio_def)
  from gpio_tick_step_ok [OF ok this] have w: "world_ok (gs, l, b, out)"
    and gs: "gs = map (fold abstract_glue (nts @ (case x of Bridge_tick nt \<Rightarrow> [nt] | Rsl_tick _ _ \<Rightarrow> [])))
      (new_smartio_bridge kPinMap)"
    by (cases x; simp add: br)+
  from assms(1) w show ?thesis unfolding daemon_ok_def d' d_gpio_def
    by (simp add: gs)
qed

text \<open>The intervals one event adds.\<close>

definition interval_of :: "daemon_event \<Rightarrow> daemon \<Rightarrow> int list" where
  "interval_of e d = (case e of Publisher_pass now \<Rightarrow> [cast_us (now - last_instant (d_publisher d))] | _ \<Rightarrow> [])"

lemma daemon_step_ok:
  assumes ok: "daemon_ok nts us n d" and len: "length us < 2 ^ 64"
    and run: "daemon_step pb L t0 e d = (Inr (), d')"
  shows "daemon_ok (nts @ bridge_passes [e]) (us @ interval_of e d) (n + length (diagnostics_passes [e])) d' \<and>
    last_instant (d_publisher d') = (case e of Publisher_pass now \<Rightarrow> now | _ \<Rightarrow> last_instant (d_publisher d))"
proof (cases e)
  case (Publisher_pass now)
  with run ok tracker_inv_record show ?thesis
    by (auto simp: daemon_ok_def d_gpio_def publisher_tick_fields passes_Cons interval_of_def modify_def)
next
  case (Bridge_pass nt)
  with run have "on_gpio (gpio_tick_step L (Bridge_tick nt)) d = (Inr (), d')" by simp
  from gpio_event_ok [OF ok this] Bridge_pass show ?thesis
    by (simp add: passes_Cons interval_of_def)
next
  case (Light_pass now)
  with run have "on_gpio (gpio_tick_step L (Rsl_tick (d_state d) now)) d = (Inr (), d')" by simp
  from gpio_event_ok [OF ok this] Light_pass show ?thesis
    by (simp add: passes_Cons interval_of_def)
next
  case (Ingest_topics nb ni)
  from ok have "subs_ok (fst (d_gamepad d, d_state d))" by (simp add: daemon_ok_def)
  from subs_ok_tick [OF this] ok run Ingest_topics show ?thesis
    by (auto simp: daemon_ok_def d_gpio_def passes_Cons interval_of_def modify_def case_prod_beta)
next
  case (Diagnostics_pass now)
  obtain x t out where x: "diagnostics_tick now (d_diagnostics d, cadence (d_publisher d), d_diag_out d) = (x, t, out)"
    by (metis prod_cases3)
  from ok have "tracker_inv us (cadence (d_publisher d))" by (simp add: daemon_ok_def)
  from diagnostics_keeps [OF this len x] x ok run Diagnostics_pass show ?thesis
    by (auto simp: daemon_ok_def d_gpio_def passes_Cons interval_of_def modify_def)
next
  case (Match_pass now)
  from ok match_tick_aligned [of "(d_match d, d_state d)" now] run Match_pass show ?thesis
    by (auto simp: daemon_ok_def d_gpio_def passes_Cons interval_of_def modify_def case_prod_beta)
next
  case (Http_request now req)
  from ok have w: "tracker_inv us (w_cadence (d_web d))" "aligned (w_match (d_web d))"
    by (simp_all add: daemon_ok_def d_web_def)
  from serve_cadence [OF w(1) len, of t0 now req] serve_match [OF w(2), of t0 now req] ok run Http_request
  show ?thesis
    by (auto simp: daemon_ok_def d_gpio_def passes_Cons interval_of_def modify_def on_web_def case_prod_beta
        d_web_def)
qed

lemma daemon_run_ok:
  assumes "daemon_ok nts us n d" "length us + length es < 2 ^ 64" "daemon_run pb L t0 es d = (Inr (), d')"
  shows "daemon_ok (nts @ bridge_passes es)
    (us @ intervals_us (last_instant (d_publisher d)) (publisher_passes es)) (n + length (diagnostics_passes es)) d'"
  using assms
proof (induction es arbitrary: nts us n d)
  case (Cons e es)
  from Cons.prems(3) obtain d1 where e: "daemon_step pb L t0 e d = (Inr (), d1)"
    and es: "daemon_run pb L t0 es d1 = (Inr (), d')" by (auto simp: act_simps)
  from Cons.prems(2) have len: "length us < 2 ^ 64" by simp
  from daemon_step_ok [OF Cons.prems(1) len e]
  have ok: "daemon_ok (nts @ bridge_passes [e]) (us @ interval_of e d) (n + length (diagnostics_passes [e])) d1"
    and last: "last_instant (d_publisher d1) = (case e of Publisher_pass now \<Rightarrow> now | _ \<Rightarrow> last_instant (d_publisher d))"
    by simp_all
  have "length (us @ interval_of e d) + length es < 2 ^ 64"
    using Cons.prems(2) by (cases e) (simp_all add: interval_of_def)
  from Cons.IH [OF ok this es] show ?case
    by (cases e) (simp_all add: last interval_of_def passes_Cons)
qed simp

section \<open>Who controls the robot\<close>

text \<open>The events that may write the control state: the match clock, the gamepad, and a POST.\<close>

definition control_event :: "daemon_event \<Rightarrow> bool" where
  "control_event e = (case e of Match_pass _ \<Rightarrow> True | Ingest_topics _ _ \<Rightarrow> True
     | Http_request _ req \<Rightarrow> fst req = POST | _ \<Rightarrow> False)"

definition control_part :: "daemon \<Rightarrow> DaemonState \<times> MatchController \<times> GamepadIngest" where
  "control_part d = (d_state d, d_match d, d_gamepad d)"

lemma gpio_keeps_control:
  assumes "on_gpio m d = (r, d')"
  shows "control_part d' = control_part d \<and> d_publisher d' = d_publisher d"
proof -
  obtain r1 gs l b out where "m (d_gpio d) = (r1, (gs, l, b, out))" by (metis prod_cases4)
  with assms show ?thesis by (auto simp: on_gpio_def control_part_def)
qed

lemma get_keeps_control:
  assumes "fst req \<noteq> POST"
  shows "w_state (snd (serve t0 now req w)) = w_state w \<and> w_match (snd (serve t0 now req w)) = w_match w"
  using assms by (cases req) (auto simp: serve_def Let_def case_prod_beta)

lemma harmless_step:
  assumes "\<not> control_event e" "daemon_step pb L t0 e d = (r, d')"
  shows "control_part d' = control_part d \<and> sunk (d_publisher d') =
    sunk (d_publisher d) @ concat (replicate (length (publisher_passes [e])) (frame pb (d_state d)))"
proof (cases e)
  case (Bridge_pass nt)
  with assms(2) gpio_keeps_control show ?thesis by (fastforce simp: passes_Cons)
next
  case (Light_pass now)
  with assms(2) gpio_keeps_control show ?thesis by (fastforce simp: passes_Cons)
next
  case (Http_request now req)
  with assms get_keeps_control [of req t0 now "d_web d"] show ?thesis
    by (auto simp: control_event_def control_part_def modify_def on_web_def d_web_def passes_Cons case_prod_beta)
qed (use assms in \<open>auto simp: control_event_def control_part_def modify_def passes_Cons publisher_tick_fields case_prod_beta\<close>)

lemma harmless_run:
  assumes "list_all (\<lambda>e. \<not> control_event e) es" "daemon_run pb L t0 es d = (Inr (), d')"
  shows "control_part d' = control_part d \<and> sunk (d_publisher d') =
    sunk (d_publisher d) @ concat (replicate (length (publisher_passes es)) (frame pb (d_state d)))"
  using assms
proof (induction es arbitrary: d)
  case (Cons e es)
  from Cons.prems(2) obtain d1 where e: "daemon_step pb L t0 e d = (Inr (), d1)"
    and es: "daemon_run pb L t0 es d1 = (Inr (), d')" by (auto simp: act_simps)
  from Cons.prems(1) have h: "\<not> control_event e" "list_all (\<lambda>e. \<not> control_event e) es" by simp_all
  from harmless_step [OF h(1) e] Cons.IH [OF h(2) es] show ?case
    by (cases e) (simp_all add: passes_Cons control_part_def)
qed simp

section \<open>A match in the whole daemon\<close>

definition match_passes :: "daemon_event list \<Rightarrow> int list" where
  "match_passes es = [now. Match_pass now \<leftarrow> es]"

text \<open>Events of a match that nobody overrides: no POST, and gamepad topics as they were.\<close>

definition left_alone :: "bool nt_values \<Rightarrow> i64 nt_values \<Rightarrow> daemon_event \<Rightarrow> bool" where
  "left_alone nb ni e = (case e of
     Ingest_topics nb' ni' \<Rightarrow> topic_enabled nb' = topic_enabled nb \<and> topic_estop nb' = topic_estop nb \<and>
       topic_mode ni' = topic_mode ni \<and> topic_alliance ni' = topic_alliance ni
   | Http_request _ req \<Rightarrow> fst req \<noteq> POST | _ \<Rightarrow> True)"

lemma match_passes_Cons: "match_passes (e # es) = (case e of Match_pass now \<Rightarrow> [now] | _ \<Rightarrow> []) @ match_passes es"
  by (simp add: match_passes_def split: daemon_event.split)

lemma left_alone_step:
  assumes "subs_ok (d_gamepad d)" "remembers nb ni (d_gamepad d)" "left_alone nb ni e"
    and "daemon_step pb L t0 e d = (r, d')"
  shows "d_gamepad d' = d_gamepad d \<and>
    (d_match d', d_state d') = fold match_step (map Tick (match_passes [e])) (d_match d, d_state d)"
proof (cases "control_event e")
  case False
  then have "match_passes [e] = []" by (cases e) (simp_all add: match_passes_def control_event_def)
  with harmless_step [OF False assms(4)] show ?thesis by (simp add: control_part_def)
next
  case True
  then consider (ingest) nb' ni' where "e = Ingest_topics nb' ni'" | (tick) now where "e = Match_pass now"
    using assms(3) by (cases e) (auto simp: control_event_def left_alone_def)
  then show ?thesis
  proof cases
    case ingest
    with assms(2,3) have "remembers nb' ni' (d_gamepad d)" by (simp add: left_alone_def remembers_def)
    from steady_tick [OF assms(1) this, of "d_state d"] ingest assms(4) show ?thesis
      by (auto simp: modify_def match_passes_def)
  next
    case tick
    with assms(4) show ?thesis by (auto simp: modify_def match_passes_def case_prod_beta)
  qed
qed

lemma left_alone_run:
  assumes "subs_ok (d_gamepad d)" "remembers nb ni (d_gamepad d)" "list_all (left_alone nb ni) es"
    and "daemon_run pb L t0 es d = (Inr (), d')"
  shows "(d_match d', d_state d') = fold match_step (map Tick (match_passes es)) (d_match d, d_state d)"
  using assms
proof (induction es arbitrary: d)
  case Nil
  then show ?case by (simp add: match_passes_def)
next
  case (Cons e es)
  from Cons.prems(4) obtain d1 where e: "daemon_step pb L t0 e d = (Inr (), d1)"
    and es: "daemon_run pb L t0 es d1 = (Inr (), d')" by (auto simp: act_simps)
  from Cons.prems(3) have l: "left_alone nb ni e" "list_all (left_alone nb ni) es" by simp_all
  from left_alone_step [OF Cons.prems(1,2) l(1) e] have g: "d_gamepad d1 = d_gamepad d"
    and cs: "(d_match d1, d_state d1) = fold match_step (map Tick (match_passes [e])) (d_match d, d_state d)"
    by simp_all
  have "match_passes (e # es) = match_passes [e] @ match_passes es" by (simp add: match_passes_def)
  with Cons.IH [OF _ _ l(2) es] Cons.prems(1,2) g cs show ?case by simp
qed

text \<open>The Start Match button, from the page to the controller.\<close>

lemma start_button:
  assumes "daemon_step pb L t0 (Http_request s (fetch_request (PostMatch ''start''))) d = (r, d')"
  shows "r = Inr () \<and> d_gamepad d' = d_gamepad d \<and> (d_match d', d_state d') = start_match s (d_match d, d_state d)"
proof -
  have "clean ''start''" by (simp add: clean_def)
  then have "snd (serve t0 s (fetch_request (PostMatch ''start'')) w) = on_match (start_match s) w" for w
    using press_match [of t0 s "''start''" w] match_verb [of "''start''" s] by (simp add: press_def on_match_def)
  with assms show ?thesis
    by (auto simp: modify_def on_web_def on_match_def d_web_def case_prod_beta prod_eq_iff)
qed

lemma intervals_length: "length (intervals_us p ts) = length ts"
  by (induction ts arbitrary: p) simp_all

lemma publisher_passes_length: "length (publisher_passes es) \<le> length es"
proof (induction es)
  case (Cons e es)
  then show ?case by (cases e) (simp_all add: passes_Cons)
qed simp

section \<open>A small run\<close>

definition demo_daemon :: daemon where
  "demo_daemon = daemon_objects 0 0 0 [] (new_smartio_bridge kPinMap) (snd (snd demo_start)) []"

text \<open>Only the GPIO passes can throw.\<close>

definition calls_gpio :: "daemon_event \<Rightarrow> bool" where
  "calls_gpio e = (case e of Bridge_pass _ \<Rightarrow> True | Light_pass _ \<Rightarrow> True | _ \<Rightarrow> False)"

lemma no_gpio_returns: "list_all (\<lambda>e. \<not> calls_gpio e) es \<Longrightarrow> fst (daemon_run pb L t0 es d) = Inr ()"
proof (induction es arbitrary: d)
  case (Cons e es)
  then have "fst (daemon_step pb L t0 e d) = Inr ()" by (cases e) (simp_all add: calls_gpio_def modify_def)
  then obtain d1 where "daemon_step pb L t0 e d = (Inr (), d1)" by (metis prod.collapse)
  with Cons show ?case by (simp add: andThen_step)
qed simp

definition demo_events :: "daemon_event list" where
  "demo_events = [Publisher_pass 20000000, Diagnostics_pass 1000000000,
     Http_request 1000000000 (GET, ''/api/state'', [])]"

definition demo_daemon_run :: "(cxx_exn + unit) \<times> daemon" where
  "demo_daemon_run = daemon_run eight_bytes quiet_lib 0 (Bridge_pass demo_values # demo_events) demo_daemon"

lemma demo_daemon_start: "daemon_start quiet_lib [] 0 0 0 [] = Inr demo_daemon"
  by (simp add: daemon_start_def demo_daemon_def demo_start_def demo_threads)

lemma demo_daemon_returns:
  "daemon_run eight_bytes quiet_lib 0 (Bridge_pass demo_values # demo_events) demo_daemon = (Inr (), snd demo_daemon_run)"
proof -
  have "fst (daemon_step eight_bytes quiet_lib 0 (Bridge_pass demo_values) demo_daemon) = Inr ()"
    by (simp add: demo_daemon_def daemon_objects_def on_gpio_def d_gpio_def demo_start_def demo_threads)
  then obtain d where d: "daemon_step eight_bytes quiet_lib 0 (Bridge_pass demo_values) demo_daemon = (Inr (), d)"
    by (metis prod.collapse)
  have "fst (daemon_run eight_bytes quiet_lib 0 demo_events d) = Inr ()"
    by (rule no_gpio_returns) (simp add: demo_events_def calls_gpio_def)
  with d show ?thesis by (simp add: demo_daemon_run_def andThen_step prod_eq_iff)
qed

section \<open>Properties\<close>



text \<open>
  C17 (safety): nobody else controls the robot. Whatever the bridge, the light, the diagnostics
  and the publisher do, and whatever pages and figures are requested, in any order: the control
  state, the match and the gamepad's memory stay as they are, and every frame the publisher
  sends meanwhile is the same one, the encoding of that state.
\<close>

theorem only_control_events_control:
  assumes "list_all (\<lambda>e. \<not> control_event e) es" "daemon_run pb L t0 es d = (Inr (), d')"
  shows "d_state d' = d_state d \<and> d_match d' = d_match d \<and> d_gamepad d' = d_gamepad d \<and>
    sunk (d_publisher d') = sunk (d_publisher d) @ concat (replicate (length (publisher_passes es)) (frame pb (d_state d)))"
  using harmless_run [OF assms] by (simp add: control_part_def)

lemma only_control_events_control_witness:
  "sunk (d_publisher (snd (daemon_run eight_bytes quiet_lib 0 demo_events demo_daemon)))
    = frame eight_bytes initial_daemon_state"
proof -
  let ?d = "snd (daemon_run eight_bytes quiet_lib 0 demo_events demo_daemon)"
  have h: "list_all (\<lambda>e. \<not> control_event e) demo_events" by (simp add: demo_events_def control_event_def)
  have "fst (daemon_run eight_bytes quiet_lib 0 demo_events demo_daemon) = Inr ()"
    by (rule no_gpio_returns) (simp add: demo_events_def calls_gpio_def)
  then have "daemon_run eight_bytes quiet_lib 0 demo_events demo_daemon = (Inr (), ?d)" by (simp add: prod_eq_iff)
  from only_control_events_control [OF h this] show ?thesis
    by (simp add: demo_daemon_def daemon_objects_def new_publisher_def demo_events_def passes_Cons)
qed

end
