(* ===== verification/Spec2Isabelle.thy ===== *)
theory Spec2Isabelle
  imports Web_Page Locks Latency Gpio_Shutdown Thread_Loop Cadence_Race Backend_Race Whole_Daemon
begin

text \<open>
  The pi5-system-surrogate daemon, \<open>src/daemon/src\<close>: a process on a Raspberry Pi 5 that stands in
  for Limelight's system server. It serves NetworkTables to a WPILib robot program, tells it
  every 20 ms whether it is enabled and in which mode, bridges the robot program's SmartIo
  channels to GPIO lines, and is driven by a match clock, a gamepad and a web page.

  \<^bold>\<open>How the parts interact.\<close> \<open>main.cpp\<close> owns everything. One \<open>DaemonState\<close> (enable, mode, alliance,
  e-stop, match time) is written by the match controller, the gamepad ingest and the web UI and
  read by the control data publisher, the signal light and the web UI. One GPIO backend serves the
  SmartIo bridge and the signal light. The publisher's cadence tracker is read by the diagnostics
  publisher and the web UI. Each component has a thread that runs \<open>run_periodic\<close>.

  \<^bold>\<open>Theories, and the code they model.\<close>
  \<^item> \<open>Surrogate_Prelude\<close>: machine integers, calls that may throw (state and outcome, the exception
    as the left of a sum), durations; the locale \<open>event_machine\<close>.
  \<^item> \<open>Control_Data_Encoder\<close>: control_data_encoder.{hpp,cpp}. \<open>pack_control_word\<close> on 32-bit words;
    \<open>encode_control_data\<close> with nanopb's encoder as a parameter.
  \<^item> \<open>Daemon_State\<close>: daemon_state.{hpp,cpp}. One function per setter; \<open>state_write\<close> is a setter
    call as data.
  \<^item> \<open>Match_Controller\<close>: match_controller.{hpp,cpp}. All operations on the pair of controller and
    shared state, against the ideal schedule \<open>phase_at\<close>.
  \<^item> \<open>Gpio_Backend\<close>: the interface of smartio_state.hpp as a record of operations, the locales
    \<open>gpio_backend\<close> and \<open>gpio_driver\<close>, and the providers null_gpio_backend.hpp and
    libgpiod_backend.{hpp,cpp}. The library answers each call from the history of calls.
    \<open>Backend_Race\<close>: the statements of its operations, interleaved between threads.
  \<^item> \<open>Smartio_State\<close>: smartio_state.cpp, one channel; \<open>Smartio_Bridge\<close>: smartio_bridge.{hpp,cpp}, all
    channels, with the topics' values as an argument of each tick.
  \<^item> \<open>Rsl_Blinker\<close>: rsl_blinker.{hpp,cpp}. \<open>Gamepad_Ingest\<close>: gamepad_ingest.{hpp,cpp}.
    \<open>Nt_Topics\<close>: nt_topics.hpp and what a subscriber returns.
  \<^item> \<open>Ieee_Double\<close>: the double arithmetic the code uses, round to nearest even on rationals;
    \<open>Cadence_Tracker\<close>: cadence_tracker.{hpp,cpp}, ring, lazy cache and percentiles;
    \<open>Cadence_Race\<close>: its statements as steps, interleaved with readers that take no lock.
  \<^item> \<open>Periodic_Task\<close>: periodic_task.hpp, over what the environment does in each pass.
    \<open>Publishers\<close>: control_data_publisher.{hpp,cpp}, diagnostics_publisher.{hpp,cpp},
    imu_publisher.cpp and the tool check_server_ready.cpp.
  \<^item> \<open>Cxx_Text\<close>: the string functions the code calls; \<open>Web_Forms\<close>: the form parser of web_ui.cpp;
    \<open>Web_Ui\<close>: its handlers; \<open>Root_Page\<close>: the text of the page; \<open>Web_Server\<close>: its routes, the buttons
    and rows read off that text with their script functions, and the JSON of its replies;
    \<open>Web_Page\<close>: the page's \<open>refresh\<close>, with what it uses of JavaScript.
  \<^item> \<open>Nt_Processes\<close>: nt_server.{hpp,cpp} and the tool nt_smartio_test.cpp.
    \<open>Linux_Runtime\<close>: linux_runtime.{hpp,cpp}. \<open>Main_Daemon\<close>: main.cpp.
  \<^item> \<open>Shared_Gpio\<close>: the two threads on one backend; \<open>Gpio_Shutdown\<close>: the backend from main's first call
    to its destructor. \<open>Shared_State\<close>: all writers of the shared state, one atomic setter call at a
    time; \<open>Locks\<close>: the same threads with the two mutexes explicit. \<open>Latency\<close>: the components' \<open>run\<close>
    functions on topics that change in time. \<open>Worker_Thread\<close>: \<open>start\<close>, \<open>stop\<close> and destructor of the
    components around \<open>std::jthread\<close>, interleaved with the thread's own steps; \<open>Thread_Loop\<close>: such
    a thread ticks as \<open>run_periodic\<close> does.
  \<^item> \<open>Whole_Daemon\<close>: all objects of main in one state, with the passes of all threads and the web
    requests as events in any order. This theory: a match on the threads that run it.

  \<^bold>\<open>What the lemmas show.\<close> Per component: an invariant every operation keeps (\<open>aligned\<close>, \<open>gpiod_inv\<close>,
  \<open>glue_ok\<close>, \<open>tracker_inv\<close>, \<open>worker_ok\<close>), the effect of each operation on each branch, exceptions
  included, and the refinement of an abstract contract (the ideal schedule; a line used as the
  latest topic values say; the order statistics of the last 1024 intervals). Across components:
  any interleaving of the bridge's and the light's ticks leaves each line as its owner wants it, and
  inside the ticks any interleaving of backend statements on different lines is harmless (locale
  \<open>owned_threads\<close>, a rely-guarantee rule);
  any interleaving of atomic writes keeps an emergency stop and never enables unasked, both from
  the locale \<open>guarded_field\<close>; what a snapshot can catch in the middle of a phase change; no tick
  after \<open>stop\<close> and a \<open>stop\<close> that returns; frames that every client accepts; no access without its
  mutex, no deadlock, and a simulation of the locking threads by the atomic writes; bounds on the
  time from a topic to a pin and from the e-stop topic to the control word; lines that are all
  free when the process ends; an idle loop that a signal ends; what unsynchronised reads of the
  cadence can and cannot return. For the whole daemon: all components' promises at once, whatever
  the order of events, and who can change what the robot is told; and, below, a match from the
  button on the page to the frames, on the thread that ticks it.

  \<^bold>\<open>Bounds and fuel.\<close> Every loop runs over a list of passes, requests or characters, or counts to a
  constant with a termination measure. Only the page's JSON parser has fuel, the length of the
  text: each call consumes a character, and what \<open>handle_state\<close> writes is parsed in full. Time is an unbounded integer
  of nanoseconds (an \<open>int64_t\<close> of nanoseconds lasts 292 years). Widths matter and are kept for the
  control word, HAL types and values, alliance, match time and heartbeat; the tracker's epoch is
  a 64-bit word, so its theorems ask for fewer than \<open>2 ^ 64\<close> records. Doubles are finite
  rationals rounded to 53 bits: the values that occur are far from overflow and underflow.

  \<^bold>\<open>Not modelled.\<close> NetworkTables, nanopb, libgpiod, cpp-httplib, systemd and the kernel are outside
  src/: they are parameters, or observed calls. Log output, the layout of the page, its one-second timer,
  socket and file-descriptor handling and real-time priorities have no state the program reads
  back. Memory-model effects of the unsynchronised accesses are not modelled: each access to
  the backend's handle map is atomic here, and the tracker's accesses are whole statements in order.
  The tests, the Java sample robot, the HAL port, the Pi OS files and the
  emulation scripts are other programs.
\<close>

section \<open>A match on its thread\<close>

text \<open>
  The schedule of a match on the thread that runs it. Let the controller's thread loop with its
  50 ms period, its lateness and work fitting in the period; start a match of the default lengths
  at any instant \<open>s\<close>, and let other threads write what they like. After each later tick the phase
  is the one the ideal schedule has at the tick's instant, and ticks are at most 100 ms apart.
\<close>

lemma default_match_phase:
  assumes "list_all (\<lambda>x. cost x \<le> ns_of_ms kMatchTickPeriod) xs" "t0 \<le> s"
    and "list_all undisturbed es"
    and "prefix (tick_times es) (dropWhile (\<lambda>t. t < s) (run_periodic (kMatchTickPeriod * 1000) t0 xs))"
  shows "phase (fst (fold match_step (StartMatch s # es) (new_match_controller default_durations, st))) =
      phase_at default_durations (last (s # tick_times es) - s) \<and>
    spaced (ns_of_ms 100) s (tick_times es)"
proof -
  let ?c = "new_match_controller default_durations" and ?p = "ns_of_ms kMatchTickPeriod"
  have p: "?p = 50000000" "ns_of_us (kMatchTickPeriod * 1000) = ?p"
    by (simp_all add: kMatchTickPeriod_def ns_of_ms_def ns_of_us_def)
  have "spaced (2 * ?p) t0 (run_periodic (kMatchTickPeriod * 1000) t0 xs)"
    using loop_spaced [OF assms(1), of "t0 + ?p" t0 t0] p by (simp add: run_periodic_def Let_def)
  from spaced_from [OF this assms(2)] assms(4) have sp: "spaced (2 * ?p) s (tick_times es)"
    using spaced_prefix by (auto simp: prefix_def)
  have d: "durations_ok default_durations" by (simp add: durations_ok_def default_durations_def)
  let ?st = "start_match s (?c, st)"
  have c: "durations (fst ?st) = default_durations" "aligned (fst ?st)" "match_start (fst ?st) = s"
    "phase (fst ?st) = PhaseAuto"
    by (simp_all add: start_match_def aligned_def new_match_controller_def)
  have "phase_at default_durations 0 = PhaseAuto"
    by (simp add: phase_at_def default_durations_def ns_of_ms_def)
  with c d have "phase (fst (fold match_step es ?st)) = phase_at default_durations (last (s # tick_times es) - s)"
    using match_run_refines [of ?st s es "2 * ?p"] assms(3) sp p
    by (simp add: default_durations_def ns_of_ms_def)
  moreover have "2 * ?p = ns_of_ms 100" by (simp add: kMatchTickPeriod_def ns_of_ms_def)
  with sp have "spaced (ns_of_ms 100) s (tick_times es)" by (simp only:)
  ultimately show ?thesis by simp
qed

text \<open>While only ticks follow its start, the state shows the command of the phase.\<close>

lemma ticks_show_command:
  assumes "(ds_enabled (snd cs), ds_mode (snd cs)) = phase_command (phase (fst cs))"
  shows "(ds_enabled (snd (fold match_step (map Tick ts) cs)), ds_mode (snd (fold match_step (map Tick ts) cs)))
    = phase_command (phase (fst (fold match_step (map Tick ts) cs)))"
  using assms
proof (induction ts arbitrary: cs)
  case (Cons t ts)
  obtain c s where cs: "cs = (c, s)" by (cases cs)
  have "(ds_enabled (snd (match_tick t cs)), ds_mode (snd (match_tick t cs))) =
      phase_command (phase (fst (match_tick t cs)))"
    using match_tick_shows [of c t s] match_tick_not_running [of c t s] Cons.prems
    by (cases "running (phase c)") (simp_all add: cs shows_phase_def)
  from Cons.IH [OF this] show ?case by simp
qed simp

lemma tick_times_map [simp]: "tick_times (map Tick ts) = ts"
  by (induction ts) simp_all

lemma phase_between:
  assumes "phase_at default_durations a = phase_at default_durations b" "a \<le> v" "v \<le> b"
  shows "phase_at default_durations v = phase_at default_durations b"
proof (rule order.antisym)
  have d: "durations_ok default_durations" by (simp add: durations_ok_def default_durations_def)
  from phase_at_mono [OF d assms(3)] show "phase_at default_durations v \<le> phase_at default_durations b" .
  from phase_at_mono [OF d assms(2)] show "phase_at default_durations b \<le> phase_at default_durations v"
    by (simp only: assms(1))
qed

text \<open>
  What the robot is told during a match. Start a default match on a controller
  whose thread keeps up; whenever the publisher takes its snapshot, at an instant \<open>u\<close> not more
  than 100 ms after the latest tick and with no phase boundary of the ideal schedule in the
  last 100 ms, the control word has exactly the enable bit, watchdog bit and mode of the phase
  that the schedule has at \<open>u\<close>: enabled in auto and teleop, disabled in the gap and at the end.
\<close>

theorem control_word_follows_match:
  assumes "list_all (\<lambda>x. cost x \<le> ns_of_ms kMatchTickPeriod) xs" "t0 \<le> s"
    and "prefix ts (dropWhile (\<lambda>t. t < s) (run_periodic (kMatchTickPeriod * 1000) t0 xs))"
    and "last (s # ts) \<le> u" "u - last (s # ts) \<le> ns_of_ms 100"
    and "phase_at default_durations (u - ns_of_ms 100 - s) = phase_at default_durations (u - s)"
  shows "let w = pack_control_word (snapshot_control (snd
        (fold match_step (StartMatch s # map Tick ts) (new_match_controller default_durations, st))));
      (enabled, mode) = phase_command (phase_at default_durations (u - s))
    in cw_flag w kCwEnabledBit = enabled \<and> cw_flag w kCwWatchdogActiveBit = enabled \<and>
      cw_mode_field w = mode_value mode"
proof -
  let ?init = "start_match s (new_match_controller default_durations, st)"
  let ?fin = "fold match_step (map Tick ts) ?init"
  have "(ds_enabled (snd ?init), ds_mode (snd ?init)) = phase_command (phase (fst ?init))"
    by (simp add: start_match_def)
  note command = ticks_show_command [OF this, of ts]
  have "list_all undisturbed (map Tick ts)" by (simp add: list_all_iff undisturbed_def)
  from default_match_phase [OF assms(1,2) this] assms(3)
  have "phase (fst ?fin) = phase_at default_durations (last (s # ts) - s)" by simp
  also have "\<dots> = phase_at default_durations (u - s)"
    using assms(4,5) by (intro phase_between [OF assms(6)]) simp_all
  finally have "(ds_enabled (snd ?fin), ds_mode (snd ?fin)) = phase_command (phase_at default_durations (u - s))"
    using command by simp
  then show ?thesis
    by (simp add: Let_def cw_flag_pack cw_mode_field_pack split_beta prod_eq_iff)
qed

lemma control_word_follows_match_witness:
  "cw_mode_field (pack_control_word (snapshot_control (snd (fold match_step
     (StartMatch 0 # map Tick [50000000]) (new_match_controller default_durations, initial_daemon_state)))))
   = mode_value Auto"
proof -
  let ?xs = "[pass 0 0]" and ?ts = "[50000000]"
  have xs: "list_all (\<lambda>x. cost x \<le> ns_of_ms kMatchTickPeriod) ?xs"
    by (simp add: cost_def pass_def ns_of_ms_def kMatchTickPeriod_def)
  have "run_periodic (kMatchTickPeriod * 1000) 0 ?xs = [50000000]"
    by (simp add: run_periodic_def kMatchTickPeriod_def ns_of_us_def keeps_running_def pass_def sleep_until_def)
  then have ts: "prefix ?ts (dropWhile (\<lambda>t. t < 0) (run_periodic (kMatchTickPeriod * 1000) 0 ?xs))"
    by simp
  have u: "last (0 # ?ts) \<le> (120000000 :: int)" "120000000 - last (0 # ?ts) \<le> ns_of_ms 100"
    by (simp_all add: ns_of_ms_def)
  have auto: "phase_at default_durations (120000000 - 0) = PhaseAuto"
    "phase_at default_durations (120000000 - ns_of_ms 100 - 0) = PhaseAuto"
    by (simp_all add: phase_at_def default_durations_def ns_of_ms_def)
  then have "phase_at default_durations (120000000 - ns_of_ms 100 - 0) = phase_at default_durations (120000000 - 0)"
    by (simp only:)
  from control_word_follows_match [OF xs order.refl ts u this, of initial_daemon_state] show ?thesis
    unfolding auto by (simp only: Let_def phase_command_simps prod.case)
qed

text \<open>
  C15 (functional): the Start Match button reaches the robot. In the whole daemon, with the match
  thread keeping its 50 ms period, press the button at \<open>s\<close>; then let all threads pass and pages be
  fetched in any order, while nobody posts and the gamepad's topics stay as it last saw them. The
  frame the publisher then sends at \<open>u\<close>, not more than 100 ms after the latest match tick and with
  no phase boundary in the last 100 ms, encodes a control word with exactly the enable bit,
  watchdog bit and mode of the phase that the default schedule has \<open>u - s\<close> after the start.
\<close>

theorem start_button_reaches_robot:
  assumes "list_all (\<lambda>x. cost x \<le> ns_of_ms kMatchTickPeriod) xs" "t1 \<le> s"
    and "prefix (match_passes es) (dropWhile (\<lambda>t. t < s) (run_periodic (kMatchTickPeriod * 1000) t1 xs))"
    and "last (s # match_passes es) \<le> u" "u - last (s # match_passes es) \<le> ns_of_ms 100"
    and "phase_at default_durations (u - ns_of_ms 100 - s) = phase_at default_durations (u - s)"
    and "durations (d_match d) = default_durations"
    and "subs_ok (d_gamepad d)" "remembers nb ni (d_gamepad d)" "list_all (left_alone nb ni) es"
    and "daemon_run pb L t0
      (Http_request s (fetch_request (PostMatch ''start'')) # es @ [Publisher_pass u]) d = (Inr (), d')"
  shows "(\<exists>sent. sunk (d_publisher d') = sent @ frame pb (d_state d')) \<and>
    (let w = pack_control_word (snapshot_control (d_state d'));
       (enabled, mode) = phase_command (phase_at default_durations (u - s))
     in cw_flag w kCwEnabledBit = enabled \<and> cw_flag w kCwWatchdogActiveBit = enabled \<and>
       cw_mode_field w = mode_value mode)"
proof -
  from assms(11) obtain d1 d2 where press: "daemon_step pb L t0 (Http_request s (fetch_request (PostMatch ''start''))) d = (Inr (), d1)"
    and run: "daemon_run pb L t0 es d1 = (Inr (), d2)"
    and pub: "daemon_step pb L t0 (Publisher_pass u) d2 = (Inr (), d')"
    by (auto simp: act_simps daemon_run_append simp del: daemon_step.simps fetch_request.simps)
  from start_button [OF press] have g: "d_gamepad d1 = d_gamepad d"
    and m: "(d_match d1, d_state d1) = start_match s (d_match d, d_state d)" by simp_all
  have "start_match s (d_match d, d_state d) = start_match s (new_match_controller default_durations, d_state d)"
    using assms(7) by (simp add: start_match_def apply_phase_def publish_match_time_def match_seconds_def
        duration_for_def new_match_controller_def)
  with left_alone_run [OF _ _ assms(10) run] g m assms(8,9)
  have "(d_match d2, d_state d2) = fold match_step (StartMatch s # map Tick (match_passes es))
      (new_match_controller default_durations, d_state d)" by simp
  moreover from pub have "d_state d' = d_state d2" "sunk (d_publisher d') = sunk (d_publisher d2) @ frame pb (d_state d2)"
    by (auto simp: modify_def publisher_tick_fields)
  ultimately show ?thesis
    using control_word_follows_match [OF assms(1-6), of "d_state d"] by (metis snd_conv)
qed

lemma start_button_reaches_robot_witness:
  "let d = snd (daemon_step eight_bytes quiet_lib 0 (Ingest_topics Map.empty Map.empty) demo_daemon);
       d' = snd (daemon_run eight_bytes quiet_lib 0 (Http_request 0 (fetch_request (PostMatch ''start''))
         # [Match_pass 50000000] @ [Publisher_pass 120000000]) d)
   in cw_mode_field (pack_control_word (snapshot_control (d_state d'))) = mode_value Auto"
proof -
  let ?xs = "[pass 0 0]" and ?es = "[Match_pass 50000000]"
  let ?d = "snd (daemon_step eight_bytes quiet_lib 0 (Ingest_topics Map.empty Map.empty) demo_daemon)"
  let ?all = "Http_request 0 (fetch_request (PostMatch ''start'')) # ?es @ [Publisher_pass 120000000]"
  have xs: "list_all (\<lambda>x. cost x \<le> ns_of_ms kMatchTickPeriod) ?xs"
    by (simp add: cost_def pass_def ns_of_ms_def kMatchTickPeriod_def)
  have "run_periodic (kMatchTickPeriod * 1000) 0 ?xs = [50000000]"
    by (simp add: run_periodic_def kMatchTickPeriod_def ns_of_us_def keeps_running_def pass_def sleep_until_def)
  then have ts: "prefix (match_passes ?es) (dropWhile (\<lambda>t. t < 0) (run_periodic (kMatchTickPeriod * 1000) 0 ?xs))"
    by (simp add: match_passes_def)
  have u: "last (0 # match_passes ?es) \<le> (120000000 :: int)" "120000000 - last (0 # match_passes ?es) \<le> ns_of_ms 100"
    by (simp_all add: ns_of_ms_def match_passes_def)
  have auto: "phase_at default_durations (120000000 - 0) = PhaseAuto"
    "phase_at default_durations (120000000 - ns_of_ms 100 - 0) = PhaseAuto"
    by (simp_all add: phase_at_def default_durations_def ns_of_ms_def)
  then have ph: "phase_at default_durations (120000000 - ns_of_ms 100 - 0) = phase_at default_durations (120000000 - 0)"
    by (simp only:)
  have "subs_ok (fst (new_gamepad_ingest, initial_daemon_state))" by (simp add: subs_ok_def new_gamepad_ingest_def)
  note g = subs_ok_tick [OF this, of Map.empty Map.empty] remembers_tick [OF this, of Map.empty Map.empty]
  have d: "durations (d_match ?d) = default_durations" "subs_ok (d_gamepad ?d)"
    "remembers Map.empty Map.empty (d_gamepad ?d)"
    using g by (simp_all add: demo_daemon_def daemon_objects_def modify_def new_match_controller_def case_prod_beta)
  have la: "list_all (left_alone Map.empty Map.empty) ?es" by (simp add: left_alone_def)
  have "fst (daemon_run eight_bytes quiet_lib 0 ?all ?d) = Inr ()"
    by (rule no_gpio_returns) (simp add: calls_gpio_def)
  then have run: "daemon_run eight_bytes quiet_lib 0 ?all ?d = (Inr (), snd (daemon_run eight_bytes quiet_lib 0 ?all ?d))"
    by (simp only: prod_eq_iff fst_conv snd_conv)
  from start_button_reaches_robot [OF xs order.refl ts u ph d la run] show ?thesis
    unfolding auto by (simp only: Let_def phase_command_simps prod.case)
qed

end
